(* ===== verification/Prelude.thy ===== *)
theory Prelude
  imports Main "HOL-Library.Word"
begin

text \<open>
  Shared vocabulary of the development: Go's machine integers, error results, decimal
  printing and parsing (\<open>fmt.Sprintf("%d")\<close>, \<open>strconv.Atoi\<close>), prefix, cut and search
  operations of package \<open>strings\<close>, and the generic list lemmas the components use.
  A Go string is a sequence of bytes and is modelled as a \<open>string\<close> (a list of 8-bit
  characters); a byte slice whose contents are arithmetic is a list of 8-bit words.
\<close>

section \<open>Results and collections\<close>

type_synonym byte = "8 word"

named_theorems go_int_simps \<open>wrap-around arithmetic in range\<close>
named_theorems go_string_simps \<open>string operations of the standard library\<close>

text \<open>A fallible Go function returns \<open>Inl\<close> its error or \<open>Inr\<close> its value.\<close>

abbreviation is_ok :: "'e + 'a \<Rightarrow> bool" where
  "is_ok r \<equiv> (case r of Inl _ \<Rightarrow> False | Inr _ \<Rightarrow> True)"

fun result_bind :: "'e + 'a \<Rightarrow> ('a \<Rightarrow> 'e + 'b) \<Rightarrow> 'e + 'b" where
  "result_bind (Inl e) f = Inl e"
| "result_bind (Inr x) f = f x"

lemma result_bind_Inr: "(result_bind r f = Inr y) = (\<exists>x. r = Inr x \<and> f x = Inr y)"
  by (cases r) auto

lemma result_bind_Inl: "(result_bind r f = Inl e) = (r = Inl e \<or> (\<exists>x. r = Inr x \<and> f x = Inl e))"
  by (cases r) auto

text \<open>Collecting a loop that stops at the first error.\<close>

fun result_map :: "('a \<Rightarrow> 'e + 'b) \<Rightarrow> 'a list \<Rightarrow> 'e + 'b list" where
  "result_map f [] = Inr []"
| "result_map f (x # xs) =
     (case f x of Inl e \<Rightarrow> Inl e
      | Inr y \<Rightarrow> (case result_map f xs of Inl e \<Rightarrow> Inl e | Inr ys \<Rightarrow> Inr (y # ys)))"

lemma result_map_length: "result_map f xs = Inr ys \<Longrightarrow> length ys = length xs"
  by (induction xs arbitrary: ys) (auto split: sum.splits)

lemma result_map_nth: "result_map f xs = Inr ys \<Longrightarrow> i < length xs \<Longrightarrow> f (xs ! i) = Inr (ys ! i)"
proof (induction xs arbitrary: ys i)
  case Nil
  then show ?case by simp
next
  case (Cons x xs)
  then show ?case by (cases i) (auto split: sum.splits)
qed

lemma result_map_Inr_iff: "(\<exists>ys. result_map f xs = Inr ys) = (\<forall>x \<in> set xs. is_ok (f x))"
  by (induction xs) (fastforce split: sum.splits)+

lemma result_map_total: "(\<And>x. x \<in> set xs \<Longrightarrow> f x = Inr (g x)) \<Longrightarrow> result_map f xs = Inr (map g xs)"
  by (induction xs) auto

section \<open>Machine integers\<close>

text \<open>
  Go's \<open>int\<close> and \<open>int64\<close> are 64-bit two's complement. A value is modelled as an
  \<open>int\<close>; \<open>wrap64\<close> is the reduction every 64-bit arithmetic operation performs, and
  \<open>wrap32\<close> the conversion \<open>int32(x)\<close>.
\<close>

definition wrap64 :: "int \<Rightarrow> int" where
  "wrap64 n = (n + 2 ^ 63) mod 2 ^ 64 - 2 ^ 63"

definition wrap32 :: "int \<Rightarrow> int" where
  "wrap32 n = (n + 2 ^ 31) mod 2 ^ 32 - 2 ^ 31"

definition int64_range :: "int \<Rightarrow> bool" where
  "int64_range n \<longleftrightarrow> - (2 ^ 63) \<le> n \<and> n < 2 ^ 63"

lemma wrap64_id [go_int_simps]: "int64_range n \<Longrightarrow> wrap64 n = n"
  by (simp add: wrap64_def int64_range_def)

lemma wrap64_range: "int64_range (wrap64 n)"
  by (simp add: wrap64_def int64_range_def)

lemma wrap64_idem [simp]: "wrap64 (wrap64 n) = wrap64 n"
  using wrap64_range wrap64_id by blast

lemma wrap32_id [go_int_simps]: "- (2 ^ 31) \<le> n \<Longrightarrow> n < 2 ^ 31 \<Longrightarrow> wrap32 n = n"
  by (simp add: wrap32_def)

lemma wrap32_range: "- (2 ^ 31) \<le> wrap32 n \<and> wrap32 n < 2 ^ 31"
  by (simp add: wrap32_def)

section \<open>Decimal integers\<close>

text \<open>\<open>%d\<close> prints the decimal digits, with a minus sign in front of a negative number.\<close>

definition digit_char :: "nat \<Rightarrow> char" where
  "digit_char d = char_of (48 + d)"

definition is_digit :: "char \<Rightarrow> bool" where
  "is_digit c \<longleftrightarrow> 48 \<le> (of_char c :: nat) \<and> (of_char c :: nat) \<le> 57"

definition digit_val :: "char \<Rightarrow> nat" where
  "digit_val c = of_char c - 48"

fun nat_dec :: "nat \<Rightarrow> string" where
  "nat_dec n = (if n < 10 then [digit_char n] else nat_dec (n div 10) @ [digit_char (n mod 10)])"

declare nat_dec.simps [simp del]

definition itoa :: "int \<Rightarrow> string" where
  "itoa n = (if n < 0 then ''-'' @ nat_dec (nat (- n)) else nat_dec (nat n))"

text \<open>The value of a run of digits, most significant first.\<close>

definition dec_val :: "string \<Rightarrow> nat" where
  "dec_val s = foldl (\<lambda>a c. a * 10 + digit_val c) 0 s"

text \<open>
  \<open>strconv.Atoi\<close>: an optional sign, then one or more digits, and an error (here
  \<open>None\<close>) on anything else or when the value does not fit in 64 bits.
\<close>

definition atoi :: "string \<Rightarrow> int option" where
  "atoi s =
     (let (neg, ds) = (case s of [] \<Rightarrow> (False, [])
                       | c # cs \<Rightarrow> if c = CHR ''-'' then (True, cs)
                                   else if c = CHR ''+'' then (False, cs) else (False, s));
          v = (if neg then - int (dec_val ds) else int (dec_val ds))
      in if ds \<noteq> [] \<and> list_all is_digit ds \<and> int64_range v then Some v else None)"

lemma of_char_digit [simp]: "d < 10 \<Longrightarrow> (of_char (digit_char d) :: nat) = 48 + d"
  by (simp add: digit_char_def)

lemma digit_chars:
  "digit_char 0 = CHR ''0''" "digit_char 1 = CHR ''1''" "digit_char 2 = CHR ''2''"
  "digit_char 3 = CHR ''3''" "digit_char 4 = CHR ''4''" "digit_char 5 = CHR ''5''"
  "digit_char 6 = CHR ''6''" "digit_char 7 = CHR ''7''" "digit_char 8 = CHR ''8''"
  "digit_char 9 = CHR ''9''"
  by code_simp+

lemma is_digit_digit_char [simp]: "d < 10 \<Longrightarrow> is_digit (digit_char d)"
  by (simp add: is_digit_def)

lemma digit_val_digit_char [simp]: "d < 10 \<Longrightarrow> digit_val (digit_char d) = d"
  by (simp add: digit_val_def)

lemma nat_dec_nonempty [simp]: "nat_dec n \<noteq> []"
  by (subst nat_dec.simps) simp

lemma nat_dec_digits: "list_all is_digit (nat_dec n)"
proof (induction n rule: nat_dec.induct)
  case (1 n)
  then show ?case by (subst nat_dec.simps) auto
qed

lemma dec_val_nat_dec [simp]: "dec_val (nat_dec n) = n"
proof (induction n rule: nat_dec.induct)
  case (1 n)
  then show ?case
    by (subst nat_dec.simps) (auto simp: dec_val_def)
qed

lemma nat_dec_inj [simp]: "nat_dec m = nat_dec n \<longleftrightarrow> m = n"
  by (metis dec_val_nat_dec)

lemma minus_not_digit [simp]: "\<not> is_digit (CHR ''-'')" "\<not> is_digit (CHR ''+'')"
  by (simp_all add: is_digit_def)

lemma nat_dec_hd: "nat_dec n = c # cs \<Longrightarrow> is_digit c"
  using nat_dec_digits [of n] by simp

lemma itoa_inj [simp]: "itoa m = itoa n \<longleftrightarrow> m = n"
proof
  assume eq: "itoa m = itoa n"
  show "m = n"
  proof (cases "m < 0"; cases "n < 0")
    assume "m < 0" "n < 0"
    with eq show "m = n" by (simp add: itoa_def)
  next
    assume "m < 0" "\<not> n < 0"
    with eq have "nat_dec (nat n) = CHR ''-'' # nat_dec (nat (- m))" by (simp add: itoa_def)
    from nat_dec_hd [OF this] show "m = n" by simp
  next
    assume "\<not> m < 0" "n < 0"
    with eq have "nat_dec (nat m) = CHR ''-'' # nat_dec (nat (- n))" by (simp add: itoa_def)
    from nat_dec_hd [OF this] show "m = n" by simp
  next
    assume "\<not> m < 0" "\<not> n < 0"
    with eq show "m = n" by (simp add: itoa_def)
  qed
qed simp

lemma atoi_nat_dec: "int n < 2 ^ 63 \<Longrightarrow> atoi (nat_dec n) = Some (int n)"
proof -
  assume n: "int n < 2 ^ 63"
  obtain c cs where eq: "nat_dec n = c # cs" by (cases "nat_dec n") auto
  have "is_digit c" using nat_dec_hd eq by blast
  then have "c \<noteq> CHR ''-''" "c \<noteq> CHR ''+''" by auto
  then show ?thesis
    using n nat_dec_digits [of n] dec_val_nat_dec [of n]
    by (simp add: atoi_def eq int64_range_def)
qed

section \<open>Package strings\<close>

text \<open>\<open>HasPrefix\<close>, \<open>HasSuffix\<close>, \<open>TrimSuffix\<close>, \<open>CutPrefix\<close>, \<open>Contains\<close> and \<open>Cut\<close>.\<close>

fun strip_prefix :: "'a list \<Rightarrow> 'a list \<Rightarrow> 'a list option" where
  "strip_prefix [] s = Some s"
| "strip_prefix (p # ps) [] = None"
| "strip_prefix (p # ps) (c # cs) = (if p = c then strip_prefix ps cs else None)"

definition has_prefix :: "'a list \<Rightarrow> 'a list \<Rightarrow> bool" where
  "has_prefix p s \<longleftrightarrow> take (length p) s = p"

definition has_suffix :: "'a list \<Rightarrow> 'a list \<Rightarrow> bool" where
  "has_suffix p s \<longleftrightarrow> length p \<le> length s \<and> drop (length s - length p) s = p"

definition trim_suffix :: "string \<Rightarrow> string \<Rightarrow> string" where
  "trim_suffix s p = (if has_suffix p s then take (length s - length p) s else s)"

fun cut_at :: "'a list \<Rightarrow> 'a list \<Rightarrow> ('a list \<times> 'a list) option" where
  "cut_at [] sep = (if sep = [] then Some ([], []) else None)"
| "cut_at (c # cs) sep =
     (if has_prefix sep (c # cs) then Some ([], drop (length sep) (c # cs))
      else map_option (\<lambda>(a, b). (c # a, b)) (cut_at cs sep))"

definition contains :: "'a list \<Rightarrow> 'a list \<Rightarrow> bool" where
  "contains s sub \<longleftrightarrow> cut_at s sub \<noteq> None"

lemma strip_prefix_append [simp]: "strip_prefix p (p @ s) = Some s"
  by (induction p) auto

lemma strip_prefix_Some [go_string_simps]: "strip_prefix p s = Some r \<longleftrightarrow> s = p @ r"
  by (induction p s rule: strip_prefix.induct) auto

lemma has_prefix_append [simp]: "has_prefix p (p @ s)"
  by (simp add: has_prefix_def)

lemma has_prefix_iff [go_string_simps]: "has_prefix p s \<longleftrightarrow> (\<exists>r. s = p @ r)"
  unfolding has_prefix_def by (metis append_take_drop_id append_eq_conv_conj)

lemma has_suffix_iff [go_string_simps]: "has_suffix p s \<longleftrightarrow> (\<exists>r. s = r @ p)"
  unfolding has_suffix_def by (metis append_eq_conv_conj append_take_drop_id diff_diff_cancel
      length_append length_drop le_add2 add_diff_cancel_right')

lemma cut_at_Some: "cut_at s sep = Some (a, b) \<Longrightarrow> s = a @ sep @ b"
proof (induction s sep arbitrary: a b rule: cut_at.induct)
  case (1 sep)
  then show ?case by (simp split: if_splits)
next
  case (2 c cs sep)
  show ?case
  proof (cases "has_prefix sep (c # cs)")
    case True
    then have "take (length sep) (c # cs) = sep" by (simp add: has_prefix_def)
    then have "c # cs = sep @ drop (length sep) (c # cs)"
      by (metis append_take_drop_id)
    with True 2 show ?thesis by simp
  next
    case False
    with 2 show ?thesis by auto
  qed
qed

lemma cut_at_None: "cut_at s sep = None \<Longrightarrow> s \<noteq> a @ sep @ b"
proof (induction s sep arbitrary: a rule: cut_at.induct)
  case (1 sep)
  then show ?case by (simp split: if_splits)
next
  case (2 c cs sep)
  from 2(2) have np: "\<not> has_prefix sep (c # cs)" and tl: "cut_at cs sep = None"
    by (auto split: if_splits)
  show ?case
  proof (cases a)
    case Nil
    with np show ?thesis by (auto simp: has_prefix_iff)
  next
    case (Cons x xs)
    with 2(1) [OF np tl] show ?thesis by auto
  qed
qed

lemma contains_iff [go_string_simps]: "contains s sub \<longleftrightarrow> (\<exists>a b. s = a @ sub @ b)"
  unfolding contains_def using cut_at_Some cut_at_None
  by (metis option.exhaust surj_pair)

lemma cut_at_first:
  assumes "sep \<noteq> []" and "\<And>i. i < length a \<Longrightarrow> \<not> has_prefix sep (drop i (a @ sep @ b))"
  shows "cut_at (a @ sep @ b) sep = Some (a, b)"
  using assms
proof (induction a)
  case Nil
  then obtain c cs where "sep = c # cs" by (cases sep) auto
  then show ?case by (auto simp: has_prefix_def)
next
  case (Cons x xs)
  have "\<not> has_prefix sep (x # xs @ sep @ b)" using Cons.prems(2) [of 0] by simp
  moreover have "cut_at (xs @ sep @ b) sep = Some (xs, b)"
    using Cons.prems(2) [of "Suc _"] by (intro Cons.IH [OF Cons.prems(1)]) fastforce
  ultimately show ?case by simp
qed

section \<open>Lists\<close>

lemma map_of_filter_fst:
  "map_of (filter (\<lambda>(k, _). P k) xs) k = (if P k then map_of xs k else None)"
  by (induction xs) auto

lemma sorted_list_of_set_strict: "finite A \<Longrightarrow> sorted_wrt (<) (sorted_list_of_set A)"
  using strict_sorted_iff by auto

end
