(* ===== verification/Pool.thy ===== *)
theory Pool
  imports Prelude
begin

text \<open>
  The slot pool of llm/pool.go: strict FIFO hand-off of a bounded number of slots.
  Every step of the transition system is one critical section of the code (or one channel
  operation outside it), so interleavings of \<open>Acquire\<close>, \<open>abandon\<close> and \<open>release\<close> are
  modelled at the granularity the mutex gives. A call of \<open>Acquire\<close> is a number; waiters
  are heap cells numbered in allocation order.
\<close>

section \<open>State\<close>

text \<open>
  \<open>type waiter struct\<close>: \<open>ch\<close> is the number of values buffered in the channel of
  capacity 1, \<open>wdone\<close> the flag guarded by the pool's mutex.
\<close>

record waiter =
  ch :: nat
  wdone :: bool

text \<open>\<open>type Pool struct\<close>; the queue holds pointers to waiters.\<close>

record pool =
  pool_name :: string
  capacity :: int
  inflight :: int
  queue :: "nat list"
  queue_timeout :: int

text \<open>\<open>NewPoolNamed\<close>: a size below 1 clamps to 1, a negative timeout to 0.\<close>

definition new_pool_named :: "string \<Rightarrow> int \<Rightarrow> int \<Rightarrow> pool" where
  "new_pool_named name sz to =
     \<lparr>pool_name = name, capacity = (if sz < 1 then 1 else sz), inflight = 0, queue = [],
      queue_timeout = (if to < 0 then 0 else to)\<rparr>"

definition new_pool :: "int \<Rightarrow> pool" where
  "new_pool sz = new_pool_named [] sz 0"

text \<open>The two ways an \<open>Acquire\<close> gives up.\<close>

datatype acquire_error = ErrQueueTimeout | CtxErr

text \<open>
  Where a call is: not started, in the \<open>select\<close> on its waiter, past the \<open>select\<close> and about
  to run \<open>abandon\<close>, in \<open>abandon\<close> with a handed-off slot to pass along, holding the slot, in
  \<open>release\<close> after its critical section and before the channel send (to waiter \<open>w\<close>, then
  ending as given), or finished.
\<close>

datatype call_end = Released | Failed acquire_error

datatype pc =
    Start
  | Parked nat
  | Abandoning nat acquire_error
  | PassOn acquire_error
  | Holding
  | Sending nat call_end
  | Ended call_end

record psys =
  pl :: pool
  heap :: "nat \<Rightarrow> waiter"
  fresh :: nat
  pcs :: "nat \<Rightarrow> pc"

section \<open>The critical sections\<close>

text \<open>The locked part of \<open>Acquire\<close>: take a free slot, or allocate a waiter and queue it.\<close>

definition acquire_section :: "psys \<Rightarrow> psys \<times> pc" where
  "acquire_section s =
     (if inflight (pl s) < capacity (pl s)
      then (s\<lparr>pl := (pl s)\<lparr>inflight := inflight (pl s) + 1\<rparr>\<rparr>, Holding)
      else let w = fresh s in
        (s\<lparr>pl := (pl s)\<lparr>queue := queue (pl s) @ [w]\<rparr>,
            heap := (heap s)(w := \<lparr>ch = 0, wdone = False\<rparr>), fresh := Suc w\<rparr>,
         Parked w))"

text \<open>
  The loop of \<open>release\<close>: drop waiters already marked done, stop at the first live one.
\<close>

fun next_live :: "(nat \<Rightarrow> waiter) \<Rightarrow> nat list \<Rightarrow> nat list \<times> nat option" where
  "next_live h [] = ([], None)"
| "next_live h (w # q) = (if wdone (h w) then next_live h q else (q, Some w))"

text \<open>
  The locked part of \<open>release\<close>: hand the slot to that waiter (its \<open>done\<close> set, \<open>inflight\<close>
  untouched), or decrement \<open>inflight\<close> when nobody waits. The send on the waiter's channel
  happens after the unlock.
\<close>

definition release_section :: "psys \<Rightarrow> psys \<times> nat option" where
  "release_section s =
     (case next_live (heap s) (queue (pl s)) of
        (q, Some w) \<Rightarrow>
          (s\<lparr>pl := (pl s)\<lparr>queue := q\<rparr>, heap := (heap s)(w := (heap s w)\<lparr>wdone := True\<rparr>)\<rparr>, Some w)
      | (q, None) \<Rightarrow> (s\<lparr>pl := (pl s)\<lparr>queue := q, inflight := inflight (pl s) - 1\<rparr>\<rparr>, None))"

text \<open>
  The locked part of \<open>abandon\<close>: \<open>True\<close> when a slot was already handed off and has to be
  passed along; otherwise the waiter is marked done and its first occurrence removed.
\<close>

definition abandon_section :: "psys \<Rightarrow> nat \<Rightarrow> psys \<times> bool" where
  "abandon_section s w =
     (if wdone (heap s w) then (s, True)
      else (s\<lparr>pl := (pl s)\<lparr>queue := remove1 w (queue (pl s))\<rparr>,
              heap := (heap s)(w := (heap s w)\<lparr>wdone := True\<rparr>)\<rparr>, False))"

text \<open>\<open>w.ch <- struct{}{}\<close> and \<open><-w.ch\<close>.\<close>

definition chan_send :: "psys \<Rightarrow> nat \<Rightarrow> psys" where
  "chan_send s w = s\<lparr>heap := (heap s)(w := (heap s w)\<lparr>ch := ch (heap s w) + 1\<rparr>)\<rparr>"

definition chan_recv :: "psys \<Rightarrow> nat \<Rightarrow> psys" where
  "chan_recv s w = s\<lparr>heap := (heap s)(w := (heap s w)\<lparr>ch := ch (heap s w) - 1\<rparr>)\<rparr>"

definition set_pc :: "psys \<Rightarrow> nat \<Rightarrow> pc \<Rightarrow> psys" where
  "set_pc s t p = s\<lparr>pcs := (pcs s)(t := p)\<rparr>"

definition after_release :: "nat option \<Rightarrow> call_end \<Rightarrow> pc" where
  "after_release ow e = (case ow of None \<Rightarrow> Ended e | Some w \<Rightarrow> Sending w e)"

section \<open>The transition system\<close>

text \<open>
  The channel has capacity 1, so a send is enabled only while it is empty and a receive only
  while it is not. The timer exists only when the queue timeout is positive. A holder's
  release closure is a \<open>sync.Once\<close>: calling it again once it ended does nothing.
\<close>

inductive pool_step :: "psys \<Rightarrow> psys \<Rightarrow> bool" where
  enter: "pcs s t = Start \<Longrightarrow> acquire_section s = (s', p) \<Longrightarrow> pool_step s (set_pc s' t p)"
| granted: "pcs s t = Parked w \<Longrightarrow> 0 < ch (heap s w) \<Longrightarrow>
    pool_step s (set_pc (chan_recv s w) t Holding)"
| ctx_done: "pcs s t = Parked w \<Longrightarrow> pool_step s (set_pc s t (Abandoning w CtxErr))"
| timed_out: "pcs s t = Parked w \<Longrightarrow> 0 < queue_timeout (pl s) \<Longrightarrow>
    pool_step s (set_pc s t (Abandoning w ErrQueueTimeout))"
| abandon: "pcs s t = Abandoning w e \<Longrightarrow> abandon_section s w = (s', handed) \<Longrightarrow>
    pool_step s (set_pc s' t (if handed then PassOn e else Ended (Failed e)))"
| pass_on: "pcs s t = PassOn e \<Longrightarrow> release_section s = (s', ow) \<Longrightarrow>
    pool_step s (set_pc s' t (after_release ow (Failed e)))"
| release: "pcs s t = Holding \<Longrightarrow> release_section s = (s', ow) \<Longrightarrow>
    pool_step s (set_pc s' t (after_release ow Released))"
| send: "pcs s t = Sending w e \<Longrightarrow> ch (heap s w) < 1 \<Longrightarrow>
    pool_step s (set_pc (chan_send s w) t (Ended e))"
| release_again: "pcs s t = Ended Released \<Longrightarrow> pool_step s s"

definition pool_init :: "string \<Rightarrow> int \<Rightarrow> int \<Rightarrow> psys" where
  "pool_init name sz to =
     \<lparr>pl = new_pool_named name sz to, heap = (\<lambda>_. \<lparr>ch = 0, wdone = False\<rparr>), fresh = 0,
      pcs = (\<lambda>_. Start)\<rparr>"

inductive pool_reachable :: "psys \<Rightarrow> bool" where
  initial: "pool_reachable (pool_init name sz to)"
| more: "pool_reachable s \<Longrightarrow> pool_step s s' \<Longrightarrow> pool_reachable s'"

text \<open>\<open>Inflight\<close> and \<open>Queued\<close>.\<close>

definition pool_inflight :: "psys \<Rightarrow> int" where
  "pool_inflight s = inflight (pl s)"

definition pool_queued :: "psys \<Rightarrow> int" where
  "pool_queued s = int (length (queue (pl s)))"

section \<open>Invariant\<close>

text \<open>The waiter a call sits on, and the calls that own a slot.\<close>

fun waiter_of :: "pc \<Rightarrow> nat option" where
  "waiter_of (Parked w) = Some w"
| "waiter_of (Abandoning w e) = Some w"
| "waiter_of _ = None"

fun owns_slot :: "(nat \<Rightarrow> waiter) \<Rightarrow> pc \<Rightarrow> bool" where
  "owns_slot h Holding = True"
| "owns_slot h (PassOn e) = True"
| "owns_slot h (Parked w) = wdone (h w)"
| "owns_slot h (Abandoning w e) = wdone (h w)"
| "owns_slot h _ = False"

definition owners :: "psys \<Rightarrow> nat set" where
  "owners s = {t. owns_slot (heap s) (pcs s t)}"

text \<open>
  The accounting (every slot in use is owned by exactly one call, none is lost), the shape
  of the queue, and the life of a channel value.
\<close>

definition slots_ok :: "psys \<Rightarrow> bool" where
  "slots_ok s \<longleftrightarrow> finite (owners s) \<and> inflight (pl s) = int (card (owners s)) \<and>
     1 \<le> capacity (pl s) \<and> inflight (pl s) \<le> capacity (pl s) \<and>
     (queue (pl s) \<noteq> [] \<longrightarrow> inflight (pl s) = capacity (pl s))"

definition queue_ok :: "psys \<Rightarrow> bool" where
  "queue_ok s \<longleftrightarrow> sorted_wrt (<) (queue (pl s)) \<and>
     (\<forall>w. w \<in> set (queue (pl s)) \<longleftrightarrow>
        (\<exists>t. waiter_of (pcs s t) = Some w) \<and> \<not> wdone (heap s w)) \<and>
     (\<forall>t w. waiter_of (pcs s t) = Some w \<longrightarrow> w < fresh s) \<and>
     (\<forall>t t' w. waiter_of (pcs s t) = Some w \<longrightarrow> waiter_of (pcs s t') = Some w \<longrightarrow> t = t')"

definition chan_ok :: "psys \<Rightarrow> bool" where
  "chan_ok s \<longleftrightarrow>
     (\<forall>w. 0 < ch (heap s w) \<longrightarrow> wdone (heap s w)) \<and>
     (\<forall>t w e. pcs s t = Sending w e \<longrightarrow> wdone (heap s w) \<and> ch (heap s w) = 0 \<and> w < fresh s) \<and>
     (\<forall>t t' w e e'. pcs s t = Sending w e \<longrightarrow> pcs s t' = Sending w e' \<longrightarrow> t = t') \<and>
     (\<forall>t w. pcs s t = Parked w \<longrightarrow> wdone (heap s w) \<longrightarrow>
        0 < ch (heap s w) \<or> (\<exists>t' e. pcs s t' = Sending w e)) \<and>
     (\<forall>w. fresh s \<le> w \<longrightarrow> ch (heap s w) = 0 \<and> \<not> wdone (heap s w))"

definition pool_inv :: "psys \<Rightarrow> bool" where
  "pool_inv s \<longleftrightarrow> slots_ok s \<and> queue_ok s \<and> chan_ok s"

subsection \<open>Every step keeps the invariant\<close>

lemma next_live_queue_ok:
  "(\<And>w. w \<in> set q \<Longrightarrow> \<not> wdone (h w)) \<Longrightarrow>
   next_live h q = (case q of [] \<Rightarrow> ([], None) | w # q' \<Rightarrow> (q', Some w))"
  by (cases q) auto

lemma queue_okD:
  assumes "queue_ok s"
  shows "sorted_wrt (<) (queue (pl s))"
    and "w \<in> set (queue (pl s)) \<Longrightarrow> \<not> wdone (heap s w)"
    and "w \<in> set (queue (pl s)) \<Longrightarrow> \<exists>t. waiter_of (pcs s t) = Some w"
    and "waiter_of (pcs s t) = Some w \<Longrightarrow> \<not> wdone (heap s w) \<Longrightarrow> w \<in> set (queue (pl s))"
    and "waiter_of (pcs s t) = Some w \<Longrightarrow> w < fresh s"
    and "waiter_of (pcs s t) = Some w \<Longrightarrow> waiter_of (pcs s t') = Some w \<Longrightarrow> t = t'"
  using assms unfolding queue_ok_def by blast+

lemma release_section_cases:
  assumes "queue_ok s"
  obtains (idle) "queue (pl s) = []"
      "release_section s = (s\<lparr>pl := (pl s)\<lparr>inflight := inflight (pl s) - 1\<rparr>\<rparr>, None)"
  | (hand) w q where "queue (pl s) = w # q"
      "release_section s = (s\<lparr>pl := (pl s)\<lparr>queue := q\<rparr>,
          heap := (heap s)(w := (heap s w)\<lparr>wdone := True\<rparr>)\<rparr>, Some w)"
proof -
  have nl: "next_live (heap s) (queue (pl s)) =
      (case queue (pl s) of [] \<Rightarrow> ([], None) | w # q' \<Rightarrow> (q', Some w))"
    by (rule next_live_queue_ok) (use queue_okD(2) [OF assms] in blast)
  show ?thesis
  proof (cases "queue (pl s)")
    case Nil
    with nl show ?thesis by (intro idle) (simp_all add: release_section_def)
  next
    case (Cons w q)
    with nl show ?thesis by (intro hand) (simp_all add: release_section_def)
  qed
qed

text \<open>How the set of owners moves.\<close>

lemma owns_waiter: "owns_slot h p \<Longrightarrow> p = Holding \<or> (\<exists>e. p = PassOn e) \<or> (\<exists>w. waiter_of p = Some w \<and> wdone (h w))"
  by (cases p) auto

lemma owns_waiter_iff: "waiter_of p = Some w \<Longrightarrow> owns_slot h p \<longleftrightarrow> wdone (h w)"
  by (cases p) auto

lemma owns_no_waiter: "waiter_of p = None \<Longrightarrow> owns_slot h p \<longleftrightarrow> p = Holding \<or> (\<exists>e. p = PassOn e)"
  by (cases p) auto

lemma owns_heap_cong:
  "(\<And>w. waiter_of p = Some w \<Longrightarrow> wdone (h' w) = wdone (h w)) \<Longrightarrow> owns_slot h' p = owns_slot h p"
  by (cases p) auto

lemma owners_set_pc:
  "owners (set_pc s t p) = (if owns_slot (heap s) p then insert t (owners s) else owners s - {t})"
  by (auto simp: owners_def set_pc_def)

lemma owners_pl [simp]: "owners (s\<lparr>pl := p\<rparr>) = owners s"
  by (simp add: owners_def)

lemma owners_heap_cong:
  "(\<And>w. wdone (h w) = wdone (heap s w)) \<Longrightarrow> owners (s\<lparr>heap := h\<rparr>) = owners s"
  unfolding owners_def using owns_heap_cong [of _ h "heap s"] by simp

lemma owners_chan [simp]: "owners (chan_send s w) = owners s" "owners (chan_recv s w) = owners s"
  by (simp_all add: chan_send_def chan_recv_def owners_heap_cong)

lemma owners_mark:
  assumes "queue_ok s" and w: "waiter_of (pcs s t) = Some w"
  shows "owners (s\<lparr>pl := p, heap := (heap s)(w := (heap s w)\<lparr>wdone := True\<rparr>)\<rparr>) = insert t (owners s)"
proof -
  let ?h = "(heap s)(w := (heap s w)\<lparr>wdone := True\<rparr>)"
  have "owns_slot ?h (pcs s x) \<longleftrightarrow> x = t \<or> owns_slot (heap s) (pcs s x)" for x
  proof (cases "waiter_of (pcs s x) = Some w")
    case True
    then have "x = t" using queue_okD(6) [OF assms(1)] w by blast
    with True show ?thesis by (simp add: owns_waiter_iff)
  next
    case False
    then have "x \<noteq> t" using w by auto
    moreover have "owns_slot ?h (pcs s x) = owns_slot (heap s) (pcs s x)"
      by (rule owns_heap_cong) (use False in auto)
    ultimately show ?thesis by simp
  qed
  then show ?thesis by (auto simp: owners_def)
qed

lemmas inv_defs = slots_ok_def queue_ok_def chan_ok_def

lemma set_pc_simps [simp]:
  "pl (set_pc s t p) = pl s" "heap (set_pc s t p) = heap s" "fresh (set_pc s t p) = fresh s"
  "pcs (set_pc s t p) = (pcs s)(t := p)"
  by (simp_all add: set_pc_def)

lemma chan_simps [simp]:
  "pl (chan_send s w) = pl s" "fresh (chan_send s w) = fresh s" "pcs (chan_send s w) = pcs s"
  "heap (chan_send s w) = (heap s)(w := (heap s w)\<lparr>ch := ch (heap s w) + 1\<rparr>)"
  "pl (chan_recv s w) = pl s" "fresh (chan_recv s w) = fresh s" "pcs (chan_recv s w) = pcs s"
  "heap (chan_recv s w) = (heap s)(w := (heap s w)\<lparr>ch := ch (heap s w) - 1\<rparr>)"
  by (simp_all add: chan_send_def chan_recv_def)


lemma chan_okD:
  assumes "chan_ok s"
  shows "0 < ch (heap s w) \<Longrightarrow> wdone (heap s w)"
    and "pcs s t = Sending w e \<Longrightarrow> wdone (heap s w)"
    and "pcs s t = Sending w e \<Longrightarrow> ch (heap s w) = 0"
    and "pcs s t = Sending w e \<Longrightarrow> w < fresh s"
    and "pcs s t = Sending w e \<Longrightarrow> pcs s t' = Sending w e' \<Longrightarrow> t = t'"
    and "pcs s t = Parked w \<Longrightarrow> wdone (heap s w) \<Longrightarrow>
           0 < ch (heap s w) \<or> (\<exists>t' e. pcs s t' = Sending w e)"
    and "fresh s \<le> w \<Longrightarrow> ch (heap s w) = 0"
    and "fresh s \<le> w \<Longrightarrow> \<not> wdone (heap s w)"
  using assms unfolding chan_ok_def by blast+

lemma chan_okI:
  assumes "\<And>w. 0 < ch (heap s w) \<Longrightarrow> wdone (heap s w)"
    and "\<And>t w e. pcs s t = Sending w e \<Longrightarrow> wdone (heap s w) \<and> ch (heap s w) = 0 \<and> w < fresh s"
    and "\<And>t t' w e e'. pcs s t = Sending w e \<Longrightarrow> pcs s t' = Sending w e' \<Longrightarrow> t = t'"
    and "\<And>t w. pcs s t = Parked w \<Longrightarrow> wdone (heap s w) \<Longrightarrow>
           0 < ch (heap s w) \<or> (\<exists>t' e. pcs s t' = Sending w e)"
    and "\<And>w. fresh s \<le> w \<Longrightarrow> ch (heap s w) = 0 \<and> \<not> wdone (heap s w)"
  shows "chan_ok s"
  using assms unfolding chan_ok_def by blast

lemma pool_invD:
  assumes "pool_inv s"
  shows "slots_ok s" "queue_ok s" "chan_ok s"
  using assms by (simp_all add: pool_inv_def)

lemma queue_okI:
  assumes "sorted_wrt (<) (queue (pl s))"
    and "\<And>w. w \<in> set (queue (pl s)) \<Longrightarrow> \<not> wdone (heap s w) \<and> (\<exists>t. waiter_of (pcs s t) = Some w)"
    and "\<And>t w. waiter_of (pcs s t) = Some w \<Longrightarrow> \<not> wdone (heap s w) \<Longrightarrow> w \<in> set (queue (pl s))"
    and "\<And>t w. waiter_of (pcs s t) = Some w \<Longrightarrow> w < fresh s"
    and "\<And>t t' w. waiter_of (pcs s t) = Some w \<Longrightarrow> waiter_of (pcs s t') = Some w \<Longrightarrow> t = t'"
  shows "queue_ok s"
  using assms unfolding queue_ok_def by blast

lemma queue_ok_cong:
  assumes "queue_ok s" and "queue (pl s') = queue (pl s)" and "\<And>w. wdone (heap s' w) = wdone (heap s w)"
    and "fresh s' = fresh s" and "\<And>t. waiter_of (pcs s' t) = waiter_of (pcs s t)"
  shows "queue_ok s'"
proof -
  have "queue_ok s' = queue_ok s" by (simp only: queue_ok_def assms(2-5))
  then show ?thesis using assms(1) by simp
qed

lemma queue_ok_leave:
  assumes qo: "queue_ok s" and "\<And>w. waiter_of (pcs s t) = Some w \<Longrightarrow> wdone (heap s w)"
    and "waiter_of p = None"
  shows "queue_ok (set_pc s t p)"
proof (rule queue_okI)
  show "sorted_wrt (<) (queue (pl (set_pc s t p)))" using queue_okD(1) [OF qo] by simp
next
  fix w assume "w \<in> set (queue (pl (set_pc s t p)))"
  then have w: "w \<in> set (queue (pl s))" by simp
  from queue_okD(2,3) [OF qo this] obtain x where "waiter_of (pcs s x) = Some w" "\<not> wdone (heap s w)" by blast
  moreover from this assms(2) have "x \<noteq> t" by blast
  ultimately show "\<not> wdone (heap (set_pc s t p) w) \<and> (\<exists>x. waiter_of (pcs (set_pc s t p) x) = Some w)"
    by auto
next
  fix x w assume "waiter_of (pcs (set_pc s t p) x) = Some w" "\<not> wdone (heap (set_pc s t p) w)"
  then show "w \<in> set (queue (pl (set_pc s t p)))"
    using queue_okD(4) [OF qo] assms(3) by (auto split: if_splits)
next
  fix x w assume "waiter_of (pcs (set_pc s t p) x) = Some w"
  then show "w < fresh (set_pc s t p)" using queue_okD(5) [OF qo] assms(3) by (auto split: if_splits)
next
  fix x x' w assume "waiter_of (pcs (set_pc s t p) x) = Some w" "waiter_of (pcs (set_pc s t p) x') = Some w"
  then show "x = x'" using queue_okD(6) [OF qo] assms(3) by (auto split: if_splits)
qed

lemma queue_ok_mark:
  assumes qo: "queue_ok s" and w: "waiter_of (pcs s t) = Some w"
  shows "queue_ok (s\<lparr>pl := (pl s)\<lparr>queue := remove1 w (queue (pl s))\<rparr>,
      heap := (heap s)(w := (heap s w)\<lparr>wdone := True\<rparr>)\<rparr>)"
proof -
  have d: "distinct (queue (pl s))"
    using queue_okD(1) [OF qo] by (simp add: strict_sorted_iff)
  have "sorted_wrt (<) (remove1 w (queue (pl s)))"
    using queue_okD(1) [OF qo] by (simp add: strict_sorted_iff sorted_remove1)
  then show ?thesis
    using queue_okD(2-6) [OF qo] d by (intro queue_okI) (auto split: if_splits)
qed

lemma sending_kept:
  assumes "0 < c \<or> (\<exists>t' e. f t' = Sending v e)" and "\<And>e. f t \<noteq> Sending v e"
  shows "0 < c \<or> (\<exists>t' e. (f(t := p)) t' = Sending v e)"
  using assms by (metis fun_upd_apply)

lemma chan_ok_leave:
  assumes co: "chan_ok s" and "\<And>w e. pcs s t \<noteq> Sending w e"
    and "\<And>w e. p \<noteq> Sending w e" and "\<And>w. p \<noteq> Parked w"
  shows "chan_ok (set_pc s t p)"
proof (rule chan_okI)
  fix x w assume "pcs (set_pc s t p) x = Parked w" "wdone (heap (set_pc s t p) w)"
  then have "0 < ch (heap s w) \<or> (\<exists>t' e. pcs s t' = Sending w e)"
    using chan_okD(6) [OF co, of x w] assms(4) by (auto split: if_splits)
  then show "0 < ch (heap (set_pc s t p) w) \<or> (\<exists>t' e. pcs (set_pc s t p) t' = Sending w e)"
    using assms(2) by (metis fun_upd_apply set_pc_simps(2,4))
qed (use chan_okD [OF co] assms(3) in \<open>fastforce split: if_splits\<close>)+

lemma chan_ok_cong:
  assumes "chan_ok s" and "heap s' = heap s" and "fresh s' = fresh s" and "pcs s' = pcs s"
  shows "chan_ok s'"
  using assms by (simp add: chan_ok_def)

lemma inv_set_abandoning:
  assumes inv: "pool_inv s" and t: "pcs s t = Parked w"
  shows "pool_inv (set_pc s t (Abandoning w e))"
proof -
  have "owners (set_pc s t (Abandoning w e)) = owners s"
    using t by (auto simp: owners_def)
  then have "slots_ok (set_pc s t (Abandoning w e))"
    using pool_invD(1) [OF inv] by (auto simp: slots_ok_def)
  moreover have "queue_ok (set_pc s t (Abandoning w e))"
    by (rule queue_ok_cong [OF pool_invD(2) [OF inv]]) (use t in simp_all)
  moreover have "chan_ok (set_pc s t (Abandoning w e))"
    by (rule chan_ok_leave [OF pool_invD(3) [OF inv]]) (use t in simp_all)
  ultimately show ?thesis by (simp add: pool_inv_def)
qed

lemma inv_enter_fast:
  assumes inv: "pool_inv s" and t: "pcs s t = Start" and free: "inflight (pl s) < capacity (pl s)"
  shows "pool_inv (set_pc (s\<lparr>pl := (pl s)\<lparr>inflight := inflight (pl s) + 1\<rparr>\<rparr>) t Holding)" (is "pool_inv (set_pc ?s t _)")
proof -
  have "owners (set_pc ?s t Holding) = insert t (owners s)" "t \<notin> owners s"
    using t by (simp_all add: owners_set_pc, simp add: owners_def)
  then have "slots_ok (set_pc ?s t Holding)"
    using pool_invD(1) [OF inv] free by (auto simp: slots_ok_def)
  moreover have "queue_ok ?s"
    by (rule queue_ok_cong [OF pool_invD(2) [OF inv]]) simp_all
  then have "queue_ok (set_pc ?s t Holding)"
    by (rule queue_ok_leave) (use t in simp_all)
  moreover have "chan_ok ?s"
    by (rule chan_ok_cong [OF pool_invD(3) [OF inv]]) simp_all
  then have "chan_ok (set_pc ?s t Holding)"
    by (rule chan_ok_leave) (use t in simp_all)
  ultimately show ?thesis by (simp add: pool_inv_def)
qed

lemma inv_enter_park:
  assumes inv: "pool_inv s" and t: "pcs s t = Start" and full: "\<not> inflight (pl s) < capacity (pl s)"
  defines "w \<equiv> fresh s"
  shows "pool_inv (set_pc (s\<lparr>pl := (pl s)\<lparr>queue := queue (pl s) @ [w]\<rparr>,
        heap := (heap s)(w := \<lparr>ch = 0, wdone = False\<rparr>), fresh := Suc w\<rparr>) t (Parked w))" (is "pool_inv (set_pc ?s t _)")
proof -
  note so = pool_invD(1) [OF inv] and qo = pool_invD(2) [OF inv] and co = pool_invD(3) [OF inv]
  have hw: "wdone (heap ?s x) = wdone (heap s x)" "ch (heap ?s x) = ch (heap s x)" for x
    using chan_okD(7,8) [OF co, of w] by (auto simp: w_def)
  have "owners ?s = owners s"
    unfolding owners_def using hw owns_heap_cong [of _ "heap ?s" "heap s"] by simp
  moreover have "t \<notin> owners s" using t by (simp add: owners_def)
  ultimately have "owners (set_pc ?s t (Parked w)) = owners s"
    by (simp add: owners_set_pc)
  then have "slots_ok (set_pc ?s t (Parked w))"
    using so full by (auto simp: slots_ok_def)
  moreover have "queue_ok (set_pc ?s t (Parked w))"
  proof (rule queue_okI)
    show "sorted_wrt (<) (queue (pl (set_pc ?s t (Parked w))))"
      using queue_okD(1,3,5) [OF qo] by (fastforce simp: sorted_wrt_append w_def)
  next
    fix x assume "x \<in> set (queue (pl (set_pc ?s t (Parked w))))"
    then consider "x = w" | "x \<in> set (queue (pl s))" by auto
    then show "\<not> wdone (heap (set_pc ?s t (Parked w)) x) \<and> (\<exists>t'. waiter_of (pcs (set_pc ?s t (Parked w)) t') = Some x)"
    proof cases
      case 1
      then show ?thesis by auto
    next
      case 2
      then obtain t' where "waiter_of (pcs s t') = Some x" using queue_okD(3) [OF qo] by blast
      moreover from this t have "t' \<noteq> t" by auto
      ultimately show ?thesis using queue_okD(2) [OF qo 2] hw [of x] by auto
    qed
  next
    fix t' x assume "waiter_of (pcs (set_pc ?s t (Parked w)) t') = Some x" "\<not> wdone (heap (set_pc ?s t (Parked w)) x)"
    then show "x \<in> set (queue (pl (set_pc ?s t (Parked w))))"
      using queue_okD(4) [OF qo, of t' x] hw [of x] by (auto split: if_splits)
  next
    fix t' x assume "waiter_of (pcs (set_pc ?s t (Parked w)) t') = Some x"
    then show "x < fresh (set_pc ?s t (Parked w))"
      using queue_okD(5) [OF qo, of t' x] by (auto simp: w_def split: if_splits)
  next
    fix t' t'' x assume "waiter_of (pcs (set_pc ?s t (Parked w)) t') = Some x"
      "waiter_of (pcs (set_pc ?s t (Parked w)) t'') = Some x"
    then show "t' = t''"
      using queue_okD(5) [OF qo, of _ x] queue_okD(6) [OF qo, of t' x t'']
      by (auto simp: w_def split: if_splits)
  qed
  moreover have "chan_ok (set_pc ?s t (Parked w))"
  proof (rule chan_okI)
    fix t' x assume p: "pcs (set_pc ?s t (Parked w)) t' = Parked x" and d: "wdone (heap (set_pc ?s t (Parked w)) x)"
    from d have "x \<noteq> w" by auto
    with p have "pcs s t' = Parked x" by (auto split: if_splits)
    then have "0 < ch (heap s x) \<or> (\<exists>t' e. pcs s t' = Sending x e)"
      using chan_okD(6) [OF co] d hw [of x] by auto
    from sending_kept [OF this, of t "Parked w"] t
    show "0 < ch (heap (set_pc ?s t (Parked w)) x) \<or> (\<exists>t' e. pcs (set_pc ?s t (Parked w)) t' = Sending x e)"
      unfolding set_pc_simps(2) hw(2) by simp
  qed (use chan_okD(1-5,7,8) [OF co] hw in \<open>fastforce simp: w_def split: if_splits\<close>)+
  ultimately show ?thesis by (simp add: pool_inv_def)
qed

lemma inv_granted:
  assumes inv: "pool_inv s" and t: "pcs s t = Parked w" and full: "0 < ch (heap s w)"
  shows "pool_inv (set_pc (chan_recv s w) t Holding)"
proof -
  note qo = pool_invD(2) [OF inv] and co = pool_invD(3) [OF inv]
  have wd: "wdone (heap s w)" using chan_okD(1) [OF co full] .
  then have "t \<in> owners s" using t by (simp add: owners_def)
  then have "owners (set_pc (chan_recv s w) t Holding) = owners s"
    by (auto simp: owners_set_pc)
  then have "slots_ok (set_pc (chan_recv s w) t Holding)"
    using pool_invD(1) [OF inv] by (auto simp: slots_ok_def)
  moreover have "queue_ok (chan_recv s w)"
    by (rule queue_ok_cong [OF qo]) simp_all
  then have "queue_ok (set_pc (chan_recv s w) t Holding)"
    by (rule queue_ok_leave) (use t wd in auto)
  moreover have "chan_ok (set_pc (chan_recv s w) t Holding)"
  proof (rule chan_okI)
    fix x v assume p: "pcs (set_pc (chan_recv s w) t Holding) x = Parked v"
      and d: "wdone (heap (set_pc (chan_recv s w) t Holding) v)"
    then have x: "x \<noteq> t" "pcs s x = Parked v" by (auto split: if_splits)
    then have v: "v \<noteq> w" using queue_okD(6) [OF qo, of x v t] t by auto
    have "0 < ch (heap s v) \<or> (\<exists>t' e. pcs s t' = Sending v e)"
      using chan_okD(6) [OF co x(2)] d v by simp
    from sending_kept [OF this, of t Holding] t v
    show "0 < ch (heap (set_pc (chan_recv s w) t Holding) v) \<or>
        (\<exists>t' e. pcs (set_pc (chan_recv s w) t Holding) t' = Sending v e)"
      by simp
  qed (use chan_okD(1-5,7,8) [OF co] wd in \<open>fastforce split: if_splits\<close>)+
  ultimately show ?thesis by (simp add: pool_inv_def)
qed

lemma chan_ok_mark:
  assumes co: "chan_ok s" and w: "w < fresh s" "\<And>t. pcs s t \<noteq> Parked w"
  shows "chan_ok (s\<lparr>pl := p, heap := (heap s)(w := (heap s w)\<lparr>wdone := True\<rparr>)\<rparr>)"
  using chan_okD [OF co] w by (intro chan_okI) (auto split: if_splits)

lemma inv_abandon_clean:
  assumes inv: "pool_inv s" and t: "pcs s t = Abandoning w e" and nd: "\<not> wdone (heap s w)"
  shows "pool_inv (set_pc (s\<lparr>pl := (pl s)\<lparr>queue := remove1 w (queue (pl s))\<rparr>,
      heap := (heap s)(w := (heap s w)\<lparr>wdone := True\<rparr>)\<rparr>) t (Ended (Failed e)))" (is "pool_inv (set_pc ?s t _)")
proof -
  note so = pool_invD(1) [OF inv] and qo = pool_invD(2) [OF inv] and co = pool_invD(3) [OF inv]
  have wt: "waiter_of (pcs s t) = Some w" using t by simp
  have "owners ?s = insert t (owners s)" by (rule owners_mark [OF qo wt])
  moreover have "t \<notin> owners s" using t nd by (simp add: owners_def)
  ultimately have "owners (set_pc ?s t (Ended (Failed e))) = owners s"
    by (auto simp: owners_set_pc)
  then have "slots_ok (set_pc ?s t (Ended (Failed e)))"
    using so by (auto simp: slots_ok_def)
  moreover have "queue_ok ?s" by (rule queue_ok_mark [OF qo wt])
  then have "queue_ok (set_pc ?s t (Ended (Failed e)))"
    by (rule queue_ok_leave) (use t in simp_all)
  moreover have "pcs s t' \<noteq> Parked w" for t'
    using queue_okD(6) [OF qo wt, of t'] t by auto
  then have "chan_ok ?s"
    by (rule chan_ok_mark [OF co queue_okD(5) [OF qo wt]])
  then have "chan_ok (set_pc ?s t (Ended (Failed e)))"
    by (rule chan_ok_leave) (use t in simp_all)
  ultimately show ?thesis by (simp add: pool_inv_def)
qed

lemma inv_abandon_late:
  assumes inv: "pool_inv s" and t: "pcs s t = Abandoning w e" and d: "wdone (heap s w)"
  shows "pool_inv (set_pc s t (PassOn e))"
proof -
  have "owners (set_pc s t (PassOn e)) = owners s"
    using t d by (auto simp: owners_set_pc, simp add: owners_def)
  then have "slots_ok (set_pc s t (PassOn e))"
    using pool_invD(1) [OF inv] by (auto simp: slots_ok_def)
  moreover have "queue_ok (set_pc s t (PassOn e))"
    by (rule queue_ok_leave [OF pool_invD(2) [OF inv]]) (use t d in auto)
  moreover have "chan_ok (set_pc s t (PassOn e))"
    by (rule chan_ok_leave [OF pool_invD(3) [OF inv]]) (use t in simp_all)
  ultimately show ?thesis by (simp add: pool_inv_def)
qed

lemma inv_release_idle:
  assumes inv: "pool_inv s" and t: "pcs s t = Holding \<or> (\<exists>e. pcs s t = PassOn e)"
    and nobody: "queue (pl s) = []"
  shows "pool_inv (set_pc (s\<lparr>pl := (pl s)\<lparr>inflight := inflight (pl s) - 1\<rparr>\<rparr>) t (Ended r))" (is "pool_inv (set_pc ?s t _)")
proof -
  have "t \<in> owners s" using t by (auto simp: owners_def)
  then have "int (card (owners s - {t})) = int (card (owners s)) - 1"
    using pool_invD(1) [OF inv] by (auto simp: slots_ok_def card_Diff_singleton_if) (metis Suc_pred card_gt_0_iff emptyE of_nat_Suc add_diff_cancel_left')
  moreover have "owners (set_pc ?s t (Ended r)) = owners s - {t}"
    by (simp add: owners_set_pc)
  ultimately have "slots_ok (set_pc ?s t (Ended r))"
    using pool_invD(1) [OF inv] nobody by (auto simp: slots_ok_def)
  moreover have "queue_ok ?s"
    by (rule queue_ok_cong [OF pool_invD(2) [OF inv]]) simp_all
  then have "queue_ok (set_pc ?s t (Ended r))"
    by (rule queue_ok_leave) (use t in auto)
  moreover have "chan_ok ?s"
    by (rule chan_ok_cong [OF pool_invD(3) [OF inv]]) simp_all
  then have "chan_ok (set_pc ?s t (Ended r))"
    by (rule chan_ok_leave) (use t in auto)
  ultimately show ?thesis by (simp add: pool_inv_def)
qed

lemma inv_release_hand:
  assumes inv: "pool_inv s" and t: "pcs s t = Holding \<or> (\<exists>e. pcs s t = PassOn e)"
    and q: "queue (pl s) = w # q"
  shows "pool_inv (set_pc (s\<lparr>pl := (pl s)\<lparr>queue := q\<rparr>,
          heap := (heap s)(w := (heap s w)\<lparr>wdone := True\<rparr>)\<rparr>) t (Sending w r))" (is "pool_inv (set_pc ?s t _)")
proof -
  note so = pool_invD(1) [OF inv] and qo = pool_invD(2) [OF inv] and co = pool_invD(3) [OF inv]
  have nd: "\<not> wdone (heap s w)" using queue_okD(2) [OF qo, of w] q by simp
  obtain u where u: "waiter_of (pcs s u) = Some w" using queue_okD(3) [OF qo, of w] q by auto
  have ut: "u \<noteq> t" using u t by auto
  have "owners ?s = insert u (owners s)" by (rule owners_mark [OF qo u])
  moreover have "u \<notin> owners s" using u nd by (simp add: owners_def owns_waiter_iff)
  moreover have "t \<in> owners s" using t by (auto simp: owners_def)
  moreover have "finite (owners s)" using so by (simp add: slots_ok_def)
  ultimately have "owners (set_pc ?s t (Sending w r)) = insert u (owners s - {t})"
     and "card (insert u (owners s - {t})) = card (owners s)"
    using ut card_Suc_Diff1 [of "owners s" t] by (auto simp: owners_set_pc)
  then have "slots_ok (set_pc ?s t (Sending w r))"
    using so q by (auto simp: slots_ok_def)
  moreover have "queue_ok ?s"
    using queue_ok_mark [OF qo u] q by simp
  then have "queue_ok (set_pc ?s t (Sending w r))"
    by (rule queue_ok_leave) (use t in auto)
  moreover have "chan_ok (set_pc ?s t (Sending w r))"
  proof (rule chan_okI)
    fix x v assume p: "pcs (set_pc ?s t (Sending w r)) x = Parked v"
      and d: "wdone (heap (set_pc ?s t (Sending w r)) v)"
    show "0 < ch (heap (set_pc ?s t (Sending w r)) v) \<or>
        (\<exists>t' e. pcs (set_pc ?s t (Sending w r)) t' = Sending v e)"
    proof (cases "v = w")
      case True
      then show ?thesis by auto
    next
      case False
      have "0 < ch (heap s v) \<or> (\<exists>t' e. pcs s t' = Sending v e)"
        using chan_okD(6) [OF co, of x v] p d False by (auto split: if_splits)
      moreover have "\<And>e. pcs s t \<noteq> Sending v e" using t by auto
      ultimately show ?thesis
        using sending_kept [of "ch (heap s v)" "pcs s" v t "Sending w r"] False
        by (simp del: fun_upd_apply add: fun_upd_other)
    qed
  next
    fix x v e assume "pcs (set_pc ?s t (Sending w r)) x = Sending v e"
    then show "wdone (heap (set_pc ?s t (Sending w r)) v) \<and> ch (heap (set_pc ?s t (Sending w r)) v) = 0 \<and>
         v < fresh (set_pc ?s t (Sending w r))"
      using chan_okD(1,2,3,4) [OF co] queue_okD(5) [OF qo u] nd by (fastforce split: if_splits)
  next
    fix x x' v e e' assume "pcs (set_pc ?s t (Sending w r)) x = Sending v e"
        "pcs (set_pc ?s t (Sending w r)) x' = Sending v e'"
    then show "x = x'"
      using chan_okD(2,5) [OF co] nd by (auto split: if_splits)
  next
    fix v assume "0 < ch (heap (set_pc ?s t (Sending w r)) v)"
    then show "wdone (heap (set_pc ?s t (Sending w r)) v)"
      using chan_okD(1) [OF co] by (auto split: if_splits)
  next
    fix v assume "fresh (set_pc ?s t (Sending w r)) \<le> v"
    then show "ch (heap (set_pc ?s t (Sending w r)) v) = 0 \<and> \<not> wdone (heap (set_pc ?s t (Sending w r)) v)"
      using chan_okD(7,8) [OF co] queue_okD(5) [OF qo u] by auto
  qed
  ultimately show ?thesis by (simp add: pool_inv_def)
qed

lemma inv_send:
  assumes inv: "pool_inv s" and t: "pcs s t = Sending w r"
  shows "pool_inv (set_pc (chan_send s w) t (Ended r))"
proof -
  note qo = pool_invD(2) [OF inv] and co = pool_invD(3) [OF inv]
  have "owners (set_pc (chan_send s w) t (Ended r)) = owners s"
    using t by (auto simp: owners_set_pc) (auto simp: owners_def)
  then have "slots_ok (set_pc (chan_send s w) t (Ended r))"
    using pool_invD(1) [OF inv] by (auto simp: slots_ok_def)
  moreover have "queue_ok (chan_send s w)"
    by (rule queue_ok_cong [OF qo]) simp_all
  then have "queue_ok (set_pc (chan_send s w) t (Ended r))"
    by (rule queue_ok_leave) (use t in auto)
  moreover have "chan_ok (set_pc (chan_send s w) t (Ended r))"
  proof (rule chan_okI)
    fix x v assume p: "pcs (set_pc (chan_send s w) t (Ended r)) x = Parked v"
      and d: "wdone (heap (set_pc (chan_send s w) t (Ended r)) v)"
    show "0 < ch (heap (set_pc (chan_send s w) t (Ended r)) v) \<or>
        (\<exists>t' e. pcs (set_pc (chan_send s w) t (Ended r)) t' = Sending v e)"
    proof (cases "v = w")
      case True
      then show ?thesis by auto
    next
      case False
      have "0 < ch (heap s v) \<or> (\<exists>t' e. pcs s t' = Sending v e)"
        using chan_okD(6) [OF co, of x v] p d False by (auto split: if_splits)
      from sending_kept [OF this, of t "Ended r"] t False show ?thesis by simp
    qed
  next
    fix x v e assume "pcs (set_pc (chan_send s w) t (Ended r)) x = Sending v e"
    then show "wdone (heap (set_pc (chan_send s w) t (Ended r)) v) \<and>
        ch (heap (set_pc (chan_send s w) t (Ended r)) v) = 0 \<and> v < fresh (set_pc (chan_send s w) t (Ended r))"
      using chan_okD(2-5) [OF co] t by (auto split: if_splits)
  next
    fix x x' v e e' assume "pcs (set_pc (chan_send s w) t (Ended r)) x = Sending v e"
        "pcs (set_pc (chan_send s w) t (Ended r)) x' = Sending v e'"
    then show "x = x'" using chan_okD(5) [OF co] by (auto split: if_splits)
  next
    fix v assume "0 < ch (heap (set_pc (chan_send s w) t (Ended r)) v)"
    then show "wdone (heap (set_pc (chan_send s w) t (Ended r)) v)"
      using chan_okD(1,2) [OF co] t by (auto split: if_splits)
  next
    fix v assume "fresh (set_pc (chan_send s w) t (Ended r)) \<le> v"
    then show "ch (heap (set_pc (chan_send s w) t (Ended r)) v) = 0 \<and>
        \<not> wdone (heap (set_pc (chan_send s w) t (Ended r)) v)"
      using chan_okD(4,7,8) [OF co] t by fastforce
  qed
  ultimately show ?thesis by (simp add: pool_inv_def)
qed

inductive_cases pool_stepE: "pool_step s s'"

lemma after_release_simps [simp]:
  "after_release None e = Ended e" "after_release (Some w) e = Sending w e"
  by (simp_all add: after_release_def)

lemma inv_release:
  assumes inv: "pool_inv s" and t: "pcs s t = Holding \<or> (\<exists>e. pcs s t = PassOn e)"
    and sec: "release_section s = (s', ow)"
  shows "pool_inv (set_pc s' t (after_release ow r))"
  using pool_invD(2) [OF inv]
proof (cases rule: release_section_cases)
  case idle
  with sec inv_release_idle [OF inv t] show ?thesis by auto
next
  case (hand w q)
  with sec inv_release_hand [OF inv t, of w q] show ?thesis by auto
qed

lemma pool_step_inv:
  assumes step: "pool_step s s'" and inv: "pool_inv s"
  shows "pool_inv s'"
  using step
proof cases
  case (enter t s1 p)
  then show ?thesis
    using inv_enter_fast [OF inv, of t] inv_enter_park [OF inv, of t]
    by (auto simp: acquire_section_def Let_def split: if_splits)
next
  case (abandon t w e s1 handed)
  then show ?thesis
    using inv_abandon_clean [OF inv, of t w e] inv_abandon_late [OF inv, of t w e]
    by (auto simp: abandon_section_def split: if_splits)
next
  case (pass_on t e s1 ow)
  then show ?thesis using inv_release [OF inv, of t] by auto
next
  case (release t s1 ow)
  then show ?thesis using inv_release [OF inv, of t] by auto
qed (auto intro: inv inv_granted inv_set_abandoning inv_send)

lemma pool_init_inv: "pool_inv (pool_init name sz to)"
proof -
  have "owners (pool_init name sz to) = {}" by (simp add: owners_def pool_init_def)
  then show ?thesis
    by (simp add: pool_inv_def inv_defs pool_init_def new_pool_named_def)
qed

lemma pool_reachable_inv: "pool_reachable s \<Longrightarrow> pool_inv s"
  by (induction rule: pool_reachable.induct) (auto intro: pool_init_inv pool_step_inv)

section \<open>Executable schedules\<close>

datatype pool_action = AEnter nat | AGrant nat | ACtx nat | ATimeout nat | AAbandon nat
  | ARelease nat | ASend nat

fun pool_do :: "psys \<Rightarrow> pool_action \<Rightarrow> psys option" where
  "pool_do s (AEnter t) = (if pcs s t = Start
      then (case acquire_section s of (s', p) \<Rightarrow> Some (set_pc s' t p)) else None)"
| "pool_do s (AGrant t) = (case pcs s t of
      Parked w \<Rightarrow> if 0 < ch (heap s w) then Some (set_pc (chan_recv s w) t Holding) else None
    | _ \<Rightarrow> None)"
| "pool_do s (ACtx t) = (case pcs s t of
      Parked w \<Rightarrow> Some (set_pc s t (Abandoning w CtxErr)) | _ \<Rightarrow> None)"
| "pool_do s (ATimeout t) = (case pcs s t of
      Parked w \<Rightarrow> if 0 < queue_timeout (pl s) then Some (set_pc s t (Abandoning w ErrQueueTimeout)) else None
    | _ \<Rightarrow> None)"
| "pool_do s (AAbandon t) = (case pcs s t of
      Abandoning w e \<Rightarrow> (case abandon_section s w of (s', handed) \<Rightarrow>
        Some (set_pc s' t (if handed then PassOn e else Ended (Failed e))))
    | _ \<Rightarrow> None)"
| "pool_do s (ARelease t) = (case pcs s t of
      Holding \<Rightarrow> (case release_section s of (s', ow) \<Rightarrow> Some (set_pc s' t (after_release ow Released)))
    | PassOn e \<Rightarrow> (case release_section s of (s', ow) \<Rightarrow> Some (set_pc s' t (after_release ow (Failed e))))
    | Ended Released \<Rightarrow> Some s
    | _ \<Rightarrow> None)"
| "pool_do s (ASend t) = (case pcs s t of
      Sending w e \<Rightarrow> if ch (heap s w) < 1 then Some (set_pc (chan_send s w) t (Ended e)) else None
    | _ \<Rightarrow> None)"

fun pool_run :: "psys \<Rightarrow> pool_action list \<Rightarrow> psys option" where
  "pool_run s [] = Some s"
| "pool_run s (a # as) = (case pool_do s a of None \<Rightarrow> None | Some s' \<Rightarrow> pool_run s' as)"

lemma pool_do_step: "pool_do s a = Some s' \<Longrightarrow> pool_step s s'"
  by (cases a) (auto split: pc.splits call_end.splits prod.splits if_splits
      intro: pool_step.intros pool_step.abandon [where handed = True, simplified]
        pool_step.abandon [where handed = False, simplified])

lemma pool_step_do: "pool_step s s' \<Longrightarrow> \<exists>a. pool_do s a = Some s'"
proof (induction rule: pool_step.induct)
  case (enter s t s' p)
  then show ?case by (intro exI [of _ "AEnter t"]) simp
next
  case (granted s t w)
  then show ?case by (intro exI [of _ "AGrant t"]) simp
next
  case (ctx_done s t w)
  then show ?case by (intro exI [of _ "ACtx t"]) simp
next
  case (timed_out s t w)
  then show ?case by (intro exI [of _ "ATimeout t"]) simp
next
  case (abandon s t w e s' handed)
  then show ?case by (intro exI [of _ "AAbandon t"]) simp
next
  case (pass_on s t e s' ow)
  then show ?case by (intro exI [of _ "ARelease t"]) simp
next
  case (release s t s' ow)
  then show ?case by (intro exI [of _ "ARelease t"]) simp
next
  case (send s t w e)
  then show ?case by (intro exI [of _ "ASend t"]) simp
next
  case (release_again s t)
  then show ?case by (intro exI [of _ "ARelease t"]) simp
qed

lemma pool_run_reachable: "pool_reachable s \<Longrightarrow> pool_run s as = Some s' \<Longrightarrow> pool_reachable s'"
proof (induction as arbitrary: s)
  case (Cons a as)
  then obtain s1 where "pool_do s a = Some s1" "pool_run s1 as = Some s'"
    by (auto split: option.splits)
  with Cons pool_do_step pool_reachable.more show ?case by blast
qed simp

section \<open>The abstract specification: a FIFO semaphore\<close>

record sem =
  sem_owners :: "nat set"
  sem_waiting :: "nat list"
  sem_cap :: int

inductive sem_step :: "sem \<Rightarrow> sem \<Rightarrow> bool" where
  sem_get: "t \<notin> sem_owners a \<Longrightarrow> int (card (sem_owners a)) < sem_cap a \<Longrightarrow> sem_waiting a = [] \<Longrightarrow>
    sem_step a (a\<lparr>sem_owners := insert t (sem_owners a)\<rparr>)"
| sem_queue: "t \<notin> sem_owners a \<Longrightarrow> int (card (sem_owners a)) = sem_cap a \<Longrightarrow>
    sem_step a (a\<lparr>sem_waiting := sem_waiting a @ [t]\<rparr>)"
| sem_leave: "t \<in> set (sem_waiting a) \<Longrightarrow> sem_step a (a\<lparr>sem_waiting := remove1 t (sem_waiting a)\<rparr>)"
| sem_free: "t \<in> sem_owners a \<Longrightarrow> sem_waiting a = [] \<Longrightarrow>
    sem_step a (a\<lparr>sem_owners := sem_owners a - {t}\<rparr>)"
| sem_hand: "t \<in> sem_owners a \<Longrightarrow> sem_waiting a = u # us \<Longrightarrow>
    sem_step a (a\<lparr>sem_owners := insert u (sem_owners a - {t}), sem_waiting := us\<rparr>)"
| sem_skip: "sem_step a a"

definition pool_sim :: "psys \<Rightarrow> sem \<Rightarrow> bool" where
  "pool_sim s a \<longleftrightarrow> sem_owners a = owners s \<and> sem_cap a = capacity (pl s) \<and>
     list_all2 (\<lambda>w t. waiter_of (pcs s t) = Some w) (queue (pl s)) (sem_waiting a)"

lemma pool_sim_queue_cong:
  assumes "list_all2 (\<lambda>w t. waiter_of (pcs s t) = Some w) q ts"
    and "\<And>w t. w \<in> set q \<Longrightarrow> waiter_of (pcs s t) = Some w \<Longrightarrow> waiter_of (f t) = Some w"
  shows "list_all2 (\<lambda>w t. waiter_of (f t) = Some w) q ts"
  using assms by (auto simp: list_all2_conv_all_nth)

lemma list_all2_remove1:
  assumes "list_all2 R xs ys" and "R x y"
    and "\<And>a b. a \<in> set xs \<Longrightarrow> b \<in> set ys \<Longrightarrow> R a b \<Longrightarrow> a = x \<longleftrightarrow> b = y"
  shows "list_all2 R (remove1 x xs) (remove1 y ys)"
  using assms(1,3)
proof (induction rule: list_all2_induct)
  case Nil
  then show ?case by simp
next
  case (Cons a as b bs)
  then show ?case by auto
qed

lemma pool_sim_pc:
  assumes sim: "pool_sim s a" and ow: "owners (set_pc s t p) = owners s"
    and "\<And>w. waiter_of (pcs s t) = Some w \<Longrightarrow> waiter_of p = Some w \<or> w \<notin> set (queue (pl s))"
  shows "pool_sim (set_pc s t p) a"
proof -
  have "list_all2 (\<lambda>w x. waiter_of (((pcs s)(t := p)) x) = Some w) (queue (pl s)) (sem_waiting a)"
    by (rule pool_sim_queue_cong) (use sim assms(3) in \<open>auto simp: pool_sim_def\<close>)
  then show ?thesis using sim ow by (simp add: pool_sim_def del: fun_upd_apply)
qed

lemma pool_sim_heap:
  assumes "pool_sim s a" and "owners s' = owners s" and "pl s' = pl s" and "pcs s' = pcs s"
  shows "pool_sim s' a"
  using assms by (simp add: pool_sim_def)

lemma owners_abandoning:
  "pcs s t = Parked w \<Longrightarrow> owners (set_pc s t (Abandoning w e)) = owners s"
  by (auto simp: owners_def)

lemma sem_skipI: "pool_sim s' a \<Longrightarrow> \<exists>a'. sem_step a a' \<and> pool_sim s' a'"
  using sem_skip by blast

lemma pool_sim_enter:
  assumes inv: "pool_inv s" and sim: "pool_sim s a" and t: "pcs s t = Start"
    and sec: "acquire_section s = (s1, p)"
  shows "\<exists>a'. sem_step a a' \<and> pool_sim (set_pc s1 t p) a'"
proof (cases "inflight (pl s) < capacity (pl s)")
  case True
  have t': "t \<notin> owners s" using t by (simp add: owners_def)
  have "queue (pl s) = []" using pool_invD(1) [OF inv] True by (auto simp: slots_ok_def)
  with sim have w: "sem_waiting a = []" by (simp add: pool_sim_def)
  have "sem_step a (a\<lparr>sem_owners := insert t (sem_owners a)\<rparr>)"
    by (rule sem_get) (use sim t' w True pool_invD(1) [OF inv] in \<open>auto simp: pool_sim_def slots_ok_def\<close>)
  moreover have "pool_sim (set_pc s1 t p) (a\<lparr>sem_owners := insert t (sem_owners a)\<rparr>)"
    using sec True sim w \<open>queue (pl s) = []\<close>
    by (auto simp: acquire_section_def pool_sim_def owners_set_pc)
  ultimately show ?thesis by blast
next
  case False
  note qo = pool_invD(2) [OF inv]
  have t': "t \<notin> owners s" using t by (simp add: owners_def)
  let ?a = "a\<lparr>sem_waiting := sem_waiting a @ [t]\<rparr>"
  from sec False have s1: "s1 = s\<lparr>pl := (pl s)\<lparr>queue := queue (pl s) @ [fresh s]\<rparr>,
        heap := (heap s)(fresh s := \<lparr>ch = 0, wdone = False\<rparr>), fresh := Suc (fresh s)\<rparr>"
    and p: "p = Parked (fresh s)" by (auto simp: acquire_section_def Let_def)
  have "wdone (heap s1 x) = wdone (heap s x)" for x
    using chan_okD(8) [OF pool_invD(3) [OF inv], of "fresh s"] by (auto simp: s1)
  then have ow: "owners s1 = owners s"
    unfolding owners_def using owns_heap_cong [of _ "heap s1" "heap s"] by (simp add: s1)
  have "owners (set_pc s1 t p) = owners s"
    using t' by (simp add: owners_set_pc ow p) (simp add: s1)
  moreover have "list_all2 (\<lambda>w x. waiter_of (((pcs s)(t := p)) x) = Some w) (queue (pl s)) (sem_waiting a)"
    by (rule pool_sim_queue_cong) (use sim t in \<open>auto simp: pool_sim_def\<close>)
  ultimately have "pool_sim (set_pc s1 t p) ?a"
    using sim by (simp add: pool_sim_def s1 p list_all2_appendI)
  moreover have "sem_step a ?a"
    by (rule sem_queue) (use sim t' False pool_invD(1) [OF inv] in \<open>auto simp: pool_sim_def slots_ok_def\<close>)
  ultimately show ?thesis by blast
qed

lemma pool_sim_release:
  assumes inv: "pool_inv s" and sim: "pool_sim s a"
    and t: "pcs s t = Holding \<or> (\<exists>e. pcs s t = PassOn e)" and sec: "release_section s = (s1, ow)"
  shows "\<exists>a'. sem_step a a' \<and> pool_sim (set_pc s1 t (after_release ow r)) a'"
  using pool_invD(2) [OF inv]
proof (cases rule: release_section_cases)
  case idle
  have t': "t \<in> owners s" using t by (auto simp: owners_def)
  from idle sim have w: "sem_waiting a = []" by (simp add: pool_sim_def)
  have "sem_step a (a\<lparr>sem_owners := sem_owners a - {t}\<rparr>)"
    by (rule sem_free) (use sim t' w in \<open>auto simp: pool_sim_def\<close>)
  moreover have "pool_sim (set_pc s1 t (after_release ow r)) (a\<lparr>sem_owners := sem_owners a - {t}\<rparr>)"
    using idle sec sim w by (auto simp: pool_sim_def owners_set_pc)
  ultimately show ?thesis by blast
next
  case (hand w q)
  note qo = pool_invD(2) [OF inv]
  from hand sim obtain u us where a: "sem_waiting a = u # us" and u: "waiter_of (pcs s u) = Some w"
    and us: "list_all2 (\<lambda>w t. waiter_of (pcs s t) = Some w) q us"
    by (auto simp: pool_sim_def list_all2_Cons1)
  have t': "t \<in> owners s" using t by (auto simp: owners_def)
  have "u \<noteq> t" using u t by auto
  let ?a = "a\<lparr>sem_owners := insert u (sem_owners a - {t}), sem_waiting := us\<rparr>"
  have "sem_step a ?a"
    by (rule sem_hand) (use sim t' a in \<open>auto simp: pool_sim_def\<close>)
  moreover have s1: "s1 = s\<lparr>pl := (pl s)\<lparr>queue := q\<rparr>,
      heap := (heap s)(w := (heap s w)\<lparr>wdone := True\<rparr>)\<rparr>" and "ow = Some w"
    using sec hand by auto
  moreover from s1 have "owners s1 = insert u (owners s)"
    using owners_mark [OF qo u] by simp
  moreover have "list_all2 (\<lambda>w x. waiter_of (((pcs s)(t := Sending w' r)) x) = Some w) q us" for w'
    by (rule pool_sim_queue_cong [OF us]) (use t in auto)
  ultimately show ?thesis
    using sim \<open>u \<noteq> t\<close>
    by (intro exI [of _ ?a]) (auto simp: pool_sim_def owners_set_pc simp del: fun_upd_apply)
qed

lemma pool_sim_abandon:
  assumes inv: "pool_inv s" and sim: "pool_sim s a" and t: "pcs s t = Abandoning w e"
    and nd: "\<not> wdone (heap s w)"
  shows "\<exists>a'. sem_step a a' \<and> pool_sim (set_pc (s\<lparr>pl := (pl s)\<lparr>queue := remove1 w (queue (pl s))\<rparr>,
      heap := (heap s)(w := (heap s w)\<lparr>wdone := True\<rparr>)\<rparr>) t (Ended (Failed e))) a'" (is "\<exists>a'. _ \<and> pool_sim (set_pc ?s t _) a'")
proof -
  note qo = pool_invD(2) [OF inv]
  have wt: "waiter_of (pcs s t) = Some w" using t by simp
  then have wq: "w \<in> set (queue (pl s))" using queue_okD(4) [OF qo] nd by blast
  have t': "t \<notin> owners s" using t nd by (simp add: owners_def)
  have l: "list_all2 (\<lambda>w t. waiter_of (pcs s t) = Some w) (queue (pl s)) (sem_waiting a)"
    using sim by (simp add: pool_sim_def)
  from wq obtain i where i: "i < length (queue (pl s))" "queue (pl s) ! i = w"
    by (auto simp: in_set_conv_nth)
  with list_all2_nthD [OF l i(1)] have "waiter_of (pcs s (sem_waiting a ! i)) = Some w" by simp
  from queue_okD(6) [OF qo wt this] have "t \<in> set (sem_waiting a)"
    using i(1) list_all2_lengthD [OF l] nth_mem [of i "sem_waiting a"] by simp
  then have "sem_step a (a\<lparr>sem_waiting := remove1 t (sem_waiting a)\<rparr>)"
    by (rule sem_leave)
  moreover have ow: "owners ?s = insert t (owners s)" by (rule owners_mark [OF qo wt])
  then have "owners (set_pc ?s t (Ended (Failed e))) = owners s"
    using t' by (auto simp: owners_set_pc)
  moreover have l1: "list_all2 (\<lambda>w t. waiter_of (pcs s t) = Some w) (remove1 w (queue (pl s))) (remove1 t (sem_waiting a))"
  proof (rule list_all2_remove1 [OF l wt])
    fix v u assume "waiter_of (pcs s u) = Some v"
    then show "v = w \<longleftrightarrow> u = t" using queue_okD(6) [OF qo wt, of u] wt by auto
  qed
  moreover have "list_all2 (\<lambda>w x. waiter_of (((pcs s)(t := Ended (Failed e))) x) = Some w)
      (remove1 w (queue (pl s))) (remove1 t (sem_waiting a))"
    by (rule pool_sim_queue_cong [OF l1])
       (use t queue_okD(1) [OF qo] in \<open>auto simp: strict_sorted_iff\<close>)
  ultimately show ?thesis
    using sim by (intro exI [of _ "a\<lparr>sem_waiting := remove1 t (sem_waiting a)\<rparr>"])
      (simp add: pool_sim_def del: fun_upd_apply)
qed

lemma pool_sim_step:
  assumes step: "pool_step s s'" and inv: "pool_inv s" and sim: "pool_sim s a"
  shows "\<exists>a'. sem_step a a' \<and> pool_sim s' a'"
  using step
proof cases
  case (enter t s1 p)
  with pool_sim_enter [OF inv sim] show ?thesis by simp
next
  case (granted t w)
  have wd: "wdone (heap s w)" using granted chan_okD(1) [OF pool_invD(3) [OF inv]] by blast
  have "t \<in> owners s" using granted wd by (simp add: owners_def)
  moreover have "pool_sim (chan_recv s w) a" by (rule pool_sim_heap [OF sim]) simp_all
  moreover have "w \<notin> set (queue (pl s))" using queue_okD(2) [OF pool_invD(2) [OF inv]] wd by blast
  ultimately have "pool_sim s' a"
    using granted by (auto intro!: pool_sim_pc simp: owners_set_pc)
  then show ?thesis by (rule sem_skipI)
next
  case (abandon t w e s1 handed)
  show ?thesis
  proof (cases "wdone (heap s w)")
    case True
    have "t \<in> owners s" using abandon True by (simp add: owners_def)
    moreover have "w \<notin> set (queue (pl s))" using queue_okD(2) [OF pool_invD(2) [OF inv]] True by blast
    ultimately have "pool_sim s' a"
      using abandon True sim by (auto intro!: pool_sim_pc simp: owners_set_pc abandon_section_def)
    then show ?thesis by (rule sem_skipI)
  next
    case False
    with abandon pool_sim_abandon [OF inv sim] show ?thesis by (auto simp: abandon_section_def)
  qed
next
  case (pass_on t e s1 ow)
  with pool_sim_release [OF inv sim] show ?thesis by auto
next
  case (release t s1 ow)
  with pool_sim_release [OF inv sim] show ?thesis by auto
next
  case (send t w e)
  have "t \<notin> owners s" using send by (simp add: owners_def)
  moreover have "pool_sim (chan_send s w) a" by (rule pool_sim_heap [OF sim]) simp_all
  ultimately have "pool_sim s' a"
    using send by (auto intro!: pool_sim_pc simp: owners_set_pc)
  then show ?thesis by (rule sem_skipI)
next
  case (ctx_done t w)
  then have "pool_sim s' a"
    using sim by (auto intro!: pool_sim_pc simp: owners_abandoning)
  then show ?thesis by (rule sem_skipI)
next
  case (timed_out t w)
  then have "pool_sim s' a"
    using sim by (auto intro!: pool_sim_pc simp: owners_abandoning)
  then show ?thesis by (rule sem_skipI)
next
  case (release_again t)
  with sim show ?thesis by (simp add: sem_skipI)
qed



definition sem_init :: "int \<Rightarrow> sem" where
  "sem_init c = \<lparr>sem_owners = {}, sem_waiting = [], sem_cap = c\<rparr>"

lemma pool_sim_run:
  "pool_inv s \<Longrightarrow> pool_sim s a \<Longrightarrow> pool_run s as = Some s' \<Longrightarrow> \<exists>a'. sem_step\<^sup>*\<^sup>* a a' \<and> pool_sim s' a'"
proof (induction as arbitrary: s a)
  case Nil
  then show ?case by auto
next
  case (Cons x xs)
  then obtain s1 where s1: "pool_do s x = Some s1" "pool_run s1 xs = Some s'"
    by (auto split: option.splits)
  then have step: "pool_step s s1" by (simp add: pool_do_step)
  obtain a1 where a1: "sem_step a a1" "pool_sim s1 a1"
    using pool_sim_step [OF step Cons.prems(1,2)] by blast
  obtain a' where "sem_step\<^sup>*\<^sup>* a1 a'" "pool_sim s' a'"
    using Cons.IH [OF pool_step_inv [OF step Cons.prems(1)] a1(2) s1(2)] by blast
  with a1(1) show ?case by (meson converse_rtranclp_into_rtranclp)
qed

section \<open>The interface the pooled client uses\<close>

locale bounded_slots =
  fixes reach :: "'s \<Rightarrow> bool" and slot_holders :: "'s \<Rightarrow> nat set"
    and slot_queue :: "'s \<Rightarrow> nat list" and cap :: "'s \<Rightarrow> int"
  assumes holders_finite: "reach s \<Longrightarrow> finite (slot_holders s)"
    and holders_bound: "reach s \<Longrightarrow> int (card (slot_holders s)) \<le> cap s"
    and busy_when_queued: "reach s \<Longrightarrow> slot_queue s \<noteq> [] \<Longrightarrow> int (card (slot_holders s)) = cap s"
    and cap_positive: "reach s \<Longrightarrow> 0 < cap s"
begin

lemma subset_bound: "reach s \<Longrightarrow> A \<subseteq> slot_holders s \<Longrightarrow> int (card A) \<le> cap s"
  using card_mono [OF holders_finite, of s A] holders_bound [of s] by linarith

lemma queued_has_holder: "reach s \<Longrightarrow> slot_queue s \<noteq> [] \<Longrightarrow> \<exists>t. t \<in> slot_holders s"
proof -
  assume "reach s" and "slot_queue s \<noteq> []"
  then have "0 < int (card (slot_holders s))" using busy_when_queued cap_positive by simp
  then have "slot_holders s \<noteq> {}" by auto
  then show ?thesis by blast
qed

lemma idle_queue_empty: "reach s \<Longrightarrow> slot_holders s = {} \<Longrightarrow> slot_queue s = []"
  using queued_has_holder by blast

end

interpretation pool_slots: bounded_slots pool_reachable owners "\<lambda>s. queue (pl s)" "\<lambda>s. capacity (pl s)"
proof
  fix s assume "pool_reachable s"
  then have so: "slots_ok s" by (simp add: pool_reachable_inv pool_invD)
  from so show "finite (owners s)" "int (card (owners s)) \<le> capacity (pl s)" "0 < capacity (pl s)"
    by (auto simp: slots_ok_def)
  show "queue (pl s) \<noteq> [] \<Longrightarrow> int (card (owners s)) = capacity (pl s)"
    using so by (auto simp: slots_ok_def)
qed

section \<open>Properties\<close>

lemma reachable_slots: "pool_reachable s \<Longrightarrow> inflight (pl s) = int (card (owners s))"
  using pool_invD(1) [OF pool_reachable_inv] by (auto simp: slots_ok_def)

lemma holding_owner: "{t. pcs s t = Holding} \<subseteq> owners s"
  by (auto simp: owners_def)

text \<open>A schedule used by the witnesses: three calls enter a pool with one slot.\<close>

definition pool_demo :: "pool_action list \<Rightarrow> psys" where
  "pool_demo as = the (pool_run (pool_init ''gpu'' 1 0) as)"

lemmas pool_eval = pool_demo_def pool_init_def new_pool_named_def acquire_section_def Let_def
  abandon_section_def release_section_def

lemma pool_demo_reachable:
  "pool_run (pool_init ''gpu'' 1 0) as \<noteq> None \<Longrightarrow> pool_reachable (pool_demo as)"
  using pool_run_reachable [OF pool_reachable.initial] by (auto simp: pool_demo_def)

lemma pool_demo_step:
  "pool_do (pool_demo as) x = Some s' \<Longrightarrow> pool_step (pool_demo as) s'"
  by (rule pool_do_step)

text \<open>C3: in every reachable state at most \<open>capacity\<close> calls hold a slot, and the in-flight count
  stays between 0 and the capacity.\<close>
theorem pool_concurrency_bound:
  assumes "pool_reachable s"
  shows "int (card {t. pcs s t = Holding}) \<le> capacity (pl s) \<and>
         0 \<le> pool_inflight s \<and> pool_inflight s \<le> capacity (pl s)"
  using pool_slots.subset_bound [OF assms holding_owner] pool_slots.holders_bound [OF assms]
    reachable_slots [OF assms]
  by (simp add: pool_inflight_def)

theorem pool_concurrency_bound_witness:
  "int (card {t. pcs (pool_demo [AEnter 0, AEnter 1, AEnter 2]) t = Holding}) \<le> 1"
proof -
  have "pool_reachable (pool_demo [AEnter 0, AEnter 1, AEnter 2])"
    by (rule pool_demo_reachable) (simp add: pool_eval)
  from pool_concurrency_bound [OF this] show ?thesis by (simp add: pool_eval)
qed

lemma pool_sim_exists:
  assumes "pool_inv s"
  shows "\<exists>a. pool_sim s a"
proof -
  note qo = pool_invD(2) [OF assms]
  let ?f = "\<lambda>w. SOME t. waiter_of (pcs s t) = Some w"
  have "list_all2 (\<lambda>w t. waiter_of (pcs s t) = Some w) (queue (pl s)) (map ?f (queue (pl s)))"
    using queue_okD(3) [OF qo] by (auto simp: list_all2_conv_all_nth intro: someI_ex)
  then have "pool_sim s \<lparr>sem_owners = owners s, sem_waiting = map ?f (queue (pl s)), sem_cap = capacity (pl s)\<rparr>"
    by (simp add: pool_sim_def)
  then show ?thesis by blast
qed

lemma new_owner_was_first:
  assumes inv: "pool_inv s" and step: "pool_step s s'" and u: "waiter_of (pcs s u) = Some wu"
    and no: "u \<notin> owners s" and yes: "u \<in> owners s'"
  shows "\<exists>q. queue (pl s) = wu # q"
proof -
  have "\<not> wdone (heap s wu)" using u no by (simp add: owners_def owns_waiter_iff)
  with u have q: "queue (pl s) \<noteq> []" using queue_okD(4) [OF pool_invD(2) [OF inv]] by fastforce
  obtain a where sim: "pool_sim s a" using pool_sim_exists [OF inv] by blast
  obtain a' where a': "sem_step a a'" "pool_sim s' a'" using pool_sim_step [OF step inv sim] by blast
  have ow: "u \<notin> sem_owners a" "u \<in> sem_owners a'"
    using no yes sim a'(2) by (auto simp: pool_sim_def)
  have wq: "sem_waiting a \<noteq> []" using q sim by (auto simp: pool_sim_def)
  from a'(1) ow wq obtain us where "sem_waiting a = u # us"
    by (auto elim!: sem_step.cases split: if_splits)
  with sim obtain w q where "queue (pl s) = w # q" "waiter_of (pcs s u) = Some w"
    by (auto simp: pool_sim_def list_all2_Cons2)
  with u show ?thesis by simp
qed

text \<open>Slots are handed over in arrival order. When a step gives a slot to a waiting call,
  every call that is still waiting arrived (allocated its waiter) later.\<close>
theorem pool_fifo:
  assumes "pool_reachable s" and "pool_step s s'"
    and "waiter_of (pcs s u) = Some wu" and "u \<notin> owners s" and "u \<in> owners s'"
    and "waiter_of (pcs s v) = Some wv" and "v \<notin> owners s"
  shows "wu \<le> wv"
proof -
  note inv = pool_reachable_inv [OF assms(1)]
  note qo = pool_invD(2) [OF inv]
  have "\<not> wdone (heap s wv)" using assms(6,7) by (simp add: owners_def owns_waiter_iff)
  with assms(6) have vq: "wv \<in> set (queue (pl s))" using queue_okD(4) [OF qo] by blast
  obtain q where "queue (pl s) = wu # q"
    using new_owner_was_first [OF inv assms(2-5)] by blast
  then show ?thesis using queue_okD(1) [OF qo] vq by auto
qed

theorem pool_fifo_witness:
  "let s = pool_demo [AEnter 0, AEnter 1, AEnter 2]; s' = the (pool_do s (ARelease 0)) in
   waiter_of (pcs s 1) = Some 0 \<and> waiter_of (pcs s 2) = Some 1 \<and> 1 \<in> owners s' \<and> (0::nat) \<le> 1"
proof -
  let ?s = "pool_demo [AEnter 0, AEnter 1, AEnter 2]"
  have r: "pool_reachable ?s" by (rule pool_demo_reachable) (simp add: pool_eval)
  have d: "pool_do ?s (ARelease 0) = Some (the (pool_do ?s (ARelease 0)))"
    by (simp add: pool_eval)
  have w: "waiter_of (pcs ?s 1) = Some 0" "waiter_of (pcs ?s 2) = Some 1"
      "1 \<notin> owners ?s" "2 \<notin> owners ?s" "1 \<in> owners (the (pool_do ?s (ARelease 0)))"
    by (simp_all add: pool_eval owners_def)
  from pool_fifo [OF r pool_do_step [OF d] w(1,3,5,2,4)] w show ?thesis by (simp add: Let_def)
qed

text \<open>How many waiters stand before \<open>w\<close>, and how many slots a schedule gives back.\<close>

definition ahead :: "psys \<Rightarrow> nat \<Rightarrow> nat" where
  "ahead s w = length (takeWhile (\<lambda>x. x \<noteq> w) (queue (pl s)))"

definition gives_back :: "psys \<Rightarrow> pool_action \<Rightarrow> bool" where
  "gives_back s a = (case a of
     ARelease t \<Rightarrow> (case pcs s t of Holding \<Rightarrow> True | PassOn e \<Rightarrow> True | _ \<Rightarrow> False) | _ \<Rightarrow> False)"

fun releases :: "psys \<Rightarrow> pool_action list \<Rightarrow> nat" where
  "releases s [] = 0"
| "releases s (a # as) =
     (case pool_do s a of None \<Rightarrow> 0 | Some s' \<Rightarrow> (if gives_back s a then 1 else 0) + releases s' as)"

lemma takeWhile_remove1:
  "length (takeWhile (\<lambda>x. x \<noteq> w) (remove1 v q)) \<le> length (takeWhile (\<lambda>x. x \<noteq> w) q)" if "v \<noteq> w"
  using that by (induction q) auto

text \<open>What one action does to the queue.\<close>

lemma pool_do_queue:
  assumes "pool_do s a = Some s'" "queue_ok s"
  obtains (same) "queue (pl s') = queue (pl s)" "fresh s' = fresh s" "gives_back s a \<longrightarrow> queue (pl s) = []"
  | (joined) "queue (pl s') = queue (pl s) @ [fresh s]" "fresh s' = Suc (fresh s)" "\<not> gives_back s a"
  | (left) v where "queue (pl s') = remove1 v (queue (pl s))" "fresh s' = fresh s" "\<not> gives_back s a"
  | (handed) v where "queue (pl s) = v # queue (pl s')" "fresh s' = fresh s"
proof (cases "\<exists>t. a = ARelease t")
  case True
  then obtain t where a: "a = ARelease t" by blast
  from assms(2) show ?thesis
  proof (cases rule: release_section_cases)
    case idle
    with assms(1) a show ?thesis by (intro same) (auto split: pc.splits call_end.splits)
  next
    case (hand w q)
    show ?thesis
    proof (cases "gives_back s a")
      case True
      with assms(1) a hand show ?thesis by (intro handed [of w]) (auto simp: gives_back_def split: pc.splits)
    next
      case False
      with assms(1) a show ?thesis by (intro same) (auto simp: gives_back_def split: pc.splits call_end.splits)
    qed
  qed
next
  case False
  then have "\<not> gives_back s a" by (auto simp: gives_back_def split: pool_action.split)
  with assms(1) False show ?thesis
    using same joined left
    by (cases a) (auto simp: acquire_section_def abandon_section_def Let_def split: pc.splits if_splits)
qed

lemma ahead_step:
  assumes st: "pool_do s a = Some s'" and inv: "pool_inv s" and w: "w \<in> set (queue (pl s))" "w \<in> set (queue (pl s'))"
  shows "ahead s' w + (if gives_back s a then 1 else 0) \<le> ahead s w"
proof -
  have d: "distinct (queue (pl s))"
    using queue_okD(1) [OF pool_invD(2) [OF inv]] by (simp add: strict_sorted_iff)
  from st pool_invD(2) [OF inv] show ?thesis
  proof (cases rule: pool_do_queue)
    case (left v)
    then have "v \<noteq> w" using w(2) d by auto
    with left show ?thesis by (simp add: ahead_def takeWhile_remove1)
  next
    case (handed v)
    then have "v \<noteq> w" using w(2) d by auto
    with handed(1) show ?thesis by (simp add: ahead_def)
  qed (use w in \<open>auto simp: ahead_def\<close>)
qed

lemma not_queued_again:
  assumes "pool_do s a = Some s'" "queue_ok s" "w < fresh s" "w \<notin> set (queue (pl s))"
  shows "w < fresh s' \<and> w \<notin> set (queue (pl s'))"
  using assms(1,2) by (cases rule: pool_do_queue) (use assms(3,4) in \<open>auto dest: in_set_remove1\<close>)

lemma never_queued_again:
  "pool_run s as = Some s' \<Longrightarrow> pool_inv s \<Longrightarrow> w < fresh s \<Longrightarrow> w \<notin> set (queue (pl s)) \<Longrightarrow> w \<notin> set (queue (pl s'))"
proof (induction as arbitrary: s)
  case (Cons a as)
  then obtain s1 where "pool_do s a = Some s1" "pool_run s1 as = Some s'" by (auto split: option.splits)
  with Cons not_queued_again pool_invD(2) pool_step_inv [OF pool_do_step] show ?case by blast
qed simp

lemma ahead_run:
  "pool_run s as = Some s' \<Longrightarrow> pool_inv s \<Longrightarrow> w < fresh s \<Longrightarrow> w \<in> set (queue (pl s)) \<Longrightarrow> w \<in> set (queue (pl s')) \<Longrightarrow>
     ahead s' w + releases s as \<le> ahead s w"
proof (induction as arbitrary: s)
  case (Cons a as)
  then obtain s1 where s1: "pool_do s a = Some s1" "pool_run s1 as = Some s'" by (auto split: option.splits)
  have inv: "pool_inv s1" using pool_step_inv [OF pool_do_step [OF s1(1)] Cons.prems(2)] .
  have fr: "w < fresh s1"
    using s1(1) pool_invD(2) [OF Cons.prems(2)] by (cases rule: pool_do_queue) (use Cons.prems(3) in auto)
  have q: "w \<in> set (queue (pl s1))" using never_queued_again [OF s1(2) inv fr] Cons.prems(5) by blast
  from Cons.IH [OF s1(2) inv fr q Cons.prems(5)] ahead_step [OF s1(1) Cons.prems(2,4) q] s1(1)
  show ?case by simp
qed simp

text \<open>C10: no caller is starved. Whatever the other callers do, once more slots have been given back
  than there were waiters before it, a waiting call has been handed a slot, or it has given up
  itself.\<close>
theorem pool_served_in_turn:
  assumes "pool_reachable s" and "waiter_of (pcs s v) = Some w" and "v \<notin> owners s"
    and "pool_run s as = Some s'" and "ahead s w < releases s as"
  shows "waiter_of (pcs s' v) = Some w \<longrightarrow> v \<in> owners s'"
proof
  assume v: "waiter_of (pcs s' v) = Some w"
  note inv = pool_reachable_inv [OF assms(1)] pool_reachable_inv [OF pool_run_reachable [OF assms(1,4)]]
  have "w \<in> set (queue (pl s))" "w < fresh s"
    using queue_okD(4,5) [OF pool_invD(2) [OF inv(1)] assms(2)] assms(2,3) by (simp_all add: owners_def owns_waiter_iff)
  then have "w \<notin> set (queue (pl s'))" using ahead_run [OF assms(4) inv(1)] assms(5) by fastforce
  then show "v \<in> owners s'"
    using queue_okD(4) [OF pool_invD(2) [OF inv(2)] v] v by (auto simp: owners_def owns_waiter_iff)
qed

theorem pool_served_in_turn_witness:
  "waiter_of (pcs (pool_demo [AEnter 0, AEnter 1, AEnter 2, ARelease 0, ASend 0, AGrant 1, ARelease 1]) 2) = Some 1 \<and>
   2 \<in> owners (pool_demo [AEnter 0, AEnter 1, AEnter 2, ARelease 0, ASend 0, AGrant 1, ARelease 1])"
proof -
  let ?s = "pool_demo [AEnter 0, AEnter 1, AEnter 2]"
  let ?as = "[ARelease 0, ASend 0, AGrant 1, ARelease 1]"
  have r: "pool_reachable ?s" by (rule pool_demo_reachable) (simp add: pool_eval)
  have run: "pool_run ?s ?as = Some (pool_demo [AEnter 0, AEnter 1, AEnter 2, ARelease 0, ASend 0, AGrant 1, ARelease 1])"
    by (simp add: pool_eval release_section_def after_release_def)
  have "ahead ?s 1 < releases ?s ?as"
    by (simp add: pool_eval release_section_def after_release_def ahead_def gives_back_def)
  from pool_served_in_turn [OF r _ _ run this, of 2] show ?thesis
    by (simp add: pool_eval release_section_def after_release_def owners_def)
qed

text \<open>the pool is work conserving and nobody barges. Calls wait only while every slot is
  owned, and a call entering the pool takes a slot at once only when nobody waits.\<close>
theorem pool_work_conserving:
  assumes "pool_reachable s"
  shows "(queue (pl s) \<noteq> [] \<longrightarrow> int (card (owners s)) = capacity (pl s)) \<and>
         (\<forall>s' p. acquire_section s = (s', p) \<longrightarrow> p = Holding \<longrightarrow> queue (pl s) = [])"
proof -
  have "queue (pl s) = []" if "inflight (pl s) < capacity (pl s)"
    using that pool_slots.busy_when_queued [OF assms] reachable_slots [OF assms] by fastforce
  then show ?thesis
    using pool_slots.busy_when_queued [OF assms]
    by (auto simp: acquire_section_def Let_def split: if_splits)
qed

theorem pool_work_conserving_witness:
  "let s = pool_demo [AEnter 0, AEnter 1] in queue (pl s) = [0] \<and> int (card (owners s)) = 1"
proof -
  have "pool_reachable (pool_demo [AEnter 0, AEnter 1])"
    by (rule pool_demo_reachable) (simp add: pool_eval)
  from pool_work_conserving [OF this] show ?thesis by (simp add: pool_eval)
qed

text \<open>C11: no slot leaks, whatever the interleaving of hand-offs, cancellations and timeouts. Once
  every call has ended, nothing is in flight and nobody is queued.\<close>
theorem pool_no_leak:
  assumes "pool_reachable s" and "\<forall>t. pcs s t = Start \<or> (\<exists>e. pcs s t = Ended e)"
  shows "pool_inflight s = 0 \<and> pool_queued s = 0"
proof -
  have "owners s = {}"
  proof -
    have "\<not> owns_slot (heap s) (pcs s t)" for t using assms(2) by (metis owns_slot.simps(5,7))
    then show ?thesis by (simp add: owners_def)
  qed
  then show ?thesis
    using pool_slots.idle_queue_empty [OF assms(1)] reachable_slots [OF assms(1)]
    by (simp add: pool_inflight_def pool_queued_def)
qed

text \<open>
  The witness is the race the code comments on: call 1 is cancelled after the slot was handed
  to it and passes it on to call 2.
\<close>

definition pool_race :: "pool_action list" where
  "pool_race = [AEnter 0, AEnter 1, AEnter 2, ARelease 0, ACtx 1, AAbandon 1, ASend 0, ARelease 1,
     ASend 1, AGrant 2, ARelease 2]"

theorem pool_no_leak_witness:
  "let s = pool_demo pool_race in pcs s 1 = Ended (Failed CtxErr) \<and> pcs s 2 = Ended Released \<and>
     pool_inflight s = 0"
proof -
  have r: "pool_reachable (pool_demo pool_race)"
    by (rule pool_demo_reachable) (simp add: pool_eval pool_race_def)
  have e: "\<forall>t. pcs (pool_demo pool_race) t = Start \<or> (\<exists>e. pcs (pool_demo pool_race) t = Ended e)"
    by (simp add: pool_eval pool_race_def)
  from pool_no_leak [OF r e] show ?thesis by (simp add: pool_eval pool_race_def)
qed

text \<open>a slot handed to a call that still waits is never lost: the call can take it at once, or
  after the one pending send of the releasing call, which never blocks.\<close>
theorem pool_handoff_received:
  assumes "pool_reachable s" and "pcs s t = Parked w" and "t \<in> owners s"
  shows "(\<exists>s'. pool_do s (AGrant t) = Some s' \<and> pcs s' t = Holding) \<or>
         (\<exists>t' s'. pool_run s [ASend t', AGrant t] = Some s' \<and> pcs s' t = Holding)"
proof -
  note co = pool_invD(3) [OF pool_reachable_inv [OF assms(1)]]
  have "wdone (heap s w)" using assms(2,3) by (simp add: owners_def)
  from chan_okD(6) [OF co assms(2) this] show ?thesis
  proof
    assume "0 < ch (heap s w)"
    then show ?thesis using assms(2) by simp
  next
    assume "\<exists>t' e. pcs s t' = Sending w e"
    then obtain t' e where t': "pcs s t' = Sending w e" by blast
    then have "ch (heap s w) = 0" by (rule chan_okD(3) [OF co])
    moreover have "t' \<noteq> t" using t' assms(2) by auto
    ultimately show ?thesis using t' assms(2) by (intro disjI2 exI [of _ t']) simp
  qed
qed

theorem pool_handoff_received_witness:
  "let s = pool_demo [AEnter 0, AEnter 1, ARelease 0] in
   (\<exists>s'. pool_do s (AGrant 1) = Some s' \<and> pcs s' 1 = Holding) \<or>
   (\<exists>t' s'. pool_run s [ASend t', AGrant 1] = Some s' \<and> pcs s' 1 = Holding)"
proof -
  have r: "pool_reachable (pool_demo [AEnter 0, AEnter 1, ARelease 0])"
    by (rule pool_demo_reachable) (simp add: pool_eval)
  have w: "pcs (pool_demo [AEnter 0, AEnter 1, ARelease 0]) 1 = Parked 0"
      "1 \<in> owners (pool_demo [AEnter 0, AEnter 1, ARelease 0])"
    by (simp_all add: pool_eval owners_def)
  from pool_handoff_received [OF r w] show ?thesis by (simp add: Let_def)
qed



end
