(* ===== verification/Utf8.thy ===== *)
theory Utf8
  imports Prelude
begin

text \<open>
  Go's decoding of a string into runes (the \<open>range\<close> loop over a string, \<open>utf8.DecodeRune\<close>),
  with its treatment of invalid input: one byte at a time, each as the replacement character.
  On top of it \<open>strings.TrimSpace\<close> and the lower-casing of letters that end up in ASCII. The last
  section writes runes back (\<open>utf8.AppendRune\<close>) and characterises the strings that are valid UTF-8.
\<close>

definition byte_at :: "string \<Rightarrow> nat \<Rightarrow> nat" where
  "byte_at s i = (if i < length s then of_char (s ! i) else 0)"

definition cont :: "nat \<Rightarrow> bool" where
  "cont b \<longleftrightarrow> 128 \<le> b \<and> b \<le> 191"

text \<open>The rune at the front of a non-empty string and its width in bytes.\<close>

definition decode_rune :: "string \<Rightarrow> nat \<times> nat" where
  "decode_rune s =
     (let a = byte_at s 0; b = byte_at s 1; c = byte_at s 2; d = byte_at s 3 in
      if a < 128 then (a, 1)
      else if 194 \<le> a \<and> a \<le> 223 \<and> cont b then ((a - 192) * 64 + (b - 128), 2)
      else if 224 \<le> a \<and> a \<le> 239 \<and> cont b \<and> cont c \<and> (a = 224 \<longrightarrow> 160 \<le> b) \<and> (a = 237 \<longrightarrow> b \<le> 159)
        then (((a - 224) * 64 + (b - 128)) * 64 + (c - 128), 3)
      else if 240 \<le> a \<and> a \<le> 244 \<and> cont b \<and> cont c \<and> cont d \<and> (a = 240 \<longrightarrow> 144 \<le> b) \<and> (a = 244 \<longrightarrow> b \<le> 143)
        then ((((a - 240) * 64 + (b - 128)) * 64 + (c - 128)) * 64 + (d - 128), 4)
      else (0xFFFD, 1))"

lemma decode_rune_width: "1 \<le> snd (decode_rune s)"
  by (simp add: decode_rune_def Let_def)

function utf8_split :: "string \<Rightarrow> (nat \<times> string) list" where
  "utf8_split [] = []"
| "utf8_split (x # xs) =
     (case decode_rune (x # xs) of (r, w) \<Rightarrow> (r, take w (x # xs)) # utf8_split (drop w (x # xs)))"
  by pat_completeness auto
termination
proof (relation "measure length")
  fix x :: char and xs r w
  assume "(r, w) = decode_rune (x # xs)"
  then have "1 \<le> w" using decode_rune_width [of "x # xs"] by (metis snd_conv)
  then show "(drop w (x # xs), x # xs) \<in> measure length" by simp
qed simp

text \<open>The runes of a string, as the \<open>range\<close> loop delivers them.\<close>

definition runes :: "string \<Rightarrow> nat list" where
  "runes s = map fst (utf8_split s)"

lemma utf8_split_concat: "concat (map snd (utf8_split s)) = s"
  by (induction s rule: utf8_split.induct) (auto split: prod.splits)

lemma utf8_split_nonempty: "(r, b) \<in> set (utf8_split s) \<Longrightarrow> b \<noteq> []"
proof (induction s rule: utf8_split.induct)
  case (2 x xs)
  obtain r' w where d: "decode_rune (x # xs) = (r', w)" by (cases "decode_rune (x # xs)")
  then have "1 \<le> w" using decode_rune_width [of "x # xs"] by simp
  with 2 d show ?case by (auto split: prod.splits)
qed simp

lemma decode_rune_ascii: "(of_char x :: nat) < 128 \<Longrightarrow> decode_rune (x # xs) = (of_char x, 1)"
  by (simp add: decode_rune_def byte_at_def)

lemma utf8_split_ascii: "(of_char x :: nat) < 128 \<Longrightarrow> utf8_split (x # xs) = (of_char x, [x]) # utf8_split xs"
  by (simp add: decode_rune_ascii)

lemma runes_ascii: "list_all (\<lambda>c. (of_char c :: nat) < 128) s \<Longrightarrow> runes s = map of_char s"
  by (induction s) (simp_all add: runes_def utf8_split_ascii del: utf8_split.simps(2))

lemma runes_Nil [simp]: "runes [] = []"
  by (simp add: runes_def)

lemma runes_length: "length (runes s) \<le> length s"
proof (induction s rule: utf8_split.induct)
  case (2 x xs)
  obtain r w where d: "decode_rune (x # xs) = (r, w)" by (cases "decode_rune (x # xs)")
  then have "1 \<le> w" using decode_rune_width [of "x # xs"] by simp
  with 2 d show ?case by (simp add: runes_def)
qed simp

text \<open>\<open>unicode.IsSpace\<close>\<close>

definition is_space :: "nat \<Rightarrow> bool" where
  "is_space r \<longleftrightarrow> (9 \<le> r \<and> r \<le> 13) \<or> r = 32 \<or> r = 0x85 \<or> r = 0xA0 \<or> r = 0x1680 \<or>
     (0x2000 \<le> r \<and> r \<le> 0x200A) \<or> r = 0x2028 \<or> r = 0x2029 \<or> r = 0x202F \<or> r = 0x205F \<or> r = 0x3000"

definition trim_space :: "string \<Rightarrow> string" where
  "trim_space s =
     (let sp = (\<lambda>(r, _). is_space r);
          front = dropWhile sp (utf8_split s)
      in concat (map snd (rev (dropWhile sp (rev front)))))"

definition plain_char :: "char \<Rightarrow> bool" where
  "plain_char c \<longleftrightarrow> (of_char c :: nat) < 128 \<and> \<not> is_space (of_char c)"

lemma utf8_split_plain: "list_all plain_char s \<Longrightarrow> utf8_split s = map (\<lambda>c. (of_char c, [c])) s"
  by (induction s) (simp_all add: plain_char_def utf8_split_ascii del: utf8_split.simps(2))

lemma trim_space_blank: "utf8_split (CHR '' '' # s) = (32, '' '') # utf8_split s"
  using utf8_split_ascii [of "CHR '' ''" s] by simp

lemma dropWhile_none: "list_all (\<lambda>x. \<not> P x) xs \<Longrightarrow> dropWhile P xs = xs"
  by (cases xs) auto

lemma trim_space_plain: "list_all plain_char s \<Longrightarrow> trim_space s = s"
  by (simp add: trim_space_def utf8_split_plain dropWhile_none list_all_iff plain_char_def rev_map [symmetric]
      o_def)

text \<open>
  \<open>strings.ToLower\<close> as far as searching for lower-case ASCII text can tell: ASCII letters, and
  the Kelvin sign and the dotted capital I, whose lower case is ASCII.
\<close>

fun lower_rune :: "nat \<Rightarrow> nat" where
  "lower_rune r = (if 65 \<le> r \<and> r \<le> 90 then r + 32 else if r = 0x212A then 107 else if r = 0x130 then 105 else r)"

definition lower_runes :: "string \<Rightarrow> nat list" where
  "lower_runes s = map lower_rune (runes s)"

section \<open>Encoding runes\<close>

text \<open>\<open>utf8.AppendRune\<close>; what is not a Unicode scalar value is written as the replacement character.\<close>

definition encode_rune :: "nat \<Rightarrow> string" where
  "encode_rune r =
     (if r < 0x80 then [char_of r]
      else if r < 0x800 then [char_of (192 + r div 64), char_of (128 + r mod 64)]
      else if 0x10FFFF < r \<or> (0xD800 \<le> r \<and> r \<le> 0xDFFF) then [CHR 0xEF, CHR 0xBF, CHR 0xBD]
      else if r < 0x10000 then [char_of (224 + r div 4096), char_of (128 + r div 64 mod 64), char_of (128 + r mod 64)]
      else [char_of (240 + r div 262144), char_of (128 + r div 4096 mod 64), char_of (128 + r div 64 mod 64),
            char_of (128 + r mod 64)])"

definition invalid_rune :: "nat \<times> nat \<Rightarrow> bool" where
  "invalid_rune d \<longleftrightarrow> d = (0xFFFD, 1)"

definition valid_utf8 :: "string \<Rightarrow> bool" where
  "valid_utf8 s \<longleftrightarrow> list_all (\<lambda>(r, b). \<not> invalid_rune (r, length b)) (utf8_split s)"

lemma byte_at_simps [simp]:
  "byte_at (x # s) 0 = of_char x" "byte_at (x # y # s) (Suc 0) = of_char y"
  "byte_at (x # y # z # s) 2 = of_char z" "byte_at (x # y # z # u # s) 3 = of_char u"
  by (simp_all add: byte_at_def numeral_2_eq_2 numeral_3_eq_3)

lemma byte_at_cont: "cont (byte_at xs i) \<Longrightarrow> i < length xs"
  by (auto simp: byte_at_def cont_def split: if_splits)

text \<open>The four shapes of a rune.\<close>

definition shape2 :: "nat \<Rightarrow> nat \<Rightarrow> bool" where
  "shape2 a b \<longleftrightarrow> 194 \<le> a \<and> a \<le> 223 \<and> cont b"

definition shape3 :: "nat \<Rightarrow> nat \<Rightarrow> nat \<Rightarrow> bool" where
  "shape3 a b c \<longleftrightarrow> 224 \<le> a \<and> a \<le> 239 \<and> cont b \<and> cont c \<and> (a = 224 \<longrightarrow> 160 \<le> b) \<and> (a = 237 \<longrightarrow> b \<le> 159)"

definition shape4 :: "nat \<Rightarrow> nat \<Rightarrow> nat \<Rightarrow> nat \<Rightarrow> bool" where
  "shape4 a b c d \<longleftrightarrow> 240 \<le> a \<and> a \<le> 244 \<and> cont b \<and> cont c \<and> cont d \<and> (a = 240 \<longrightarrow> 144 \<le> b) \<and> (a = 244 \<longrightarrow> b \<le> 143)"

lemma decode_rune_shapes:
  "decode_rune s =
     (let a = byte_at s 0; b = byte_at s 1; c = byte_at s 2; d = byte_at s 3 in
      if a < 128 then (a, 1)
      else if shape2 a b then ((a - 192) * 64 + (b - 128), 2)
      else if shape3 a b c then (((a - 224) * 64 + (b - 128)) * 64 + (c - 128), 3)
      else if shape4 a b c d then ((((a - 240) * 64 + (b - 128)) * 64 + (c - 128)) * 64 + (d - 128), 4)
      else (0xFFFD, 1))"
  unfolding decode_rune_def shape2_def shape3_def shape4_def ..

lemma shapes_apart:
  "shape2 a b \<Longrightarrow> \<not> a < 128" "shape3 a b c \<Longrightarrow> \<not> a < 128" "shape4 a b c d \<Longrightarrow> \<not> a < 128"
  "shape3 a b c \<Longrightarrow> \<not> shape2 a b'" "shape4 a b c d \<Longrightarrow> \<not> shape2 a b'" "shape4 a b c d \<Longrightarrow> \<not> shape3 a b' c'"
  by (simp_all add: shape2_def shape3_def shape4_def)

lemma decode_rune_two: "shape2 (of_char x) (of_char y) \<Longrightarrow>
    decode_rune (x # y # s) = ((of_char x - 192) * 64 + (of_char y - 128), 2)"
  by (simp add: decode_rune_shapes shapes_apart)

lemma decode_rune_three: "shape3 (of_char x) (of_char y) (of_char z) \<Longrightarrow>
    decode_rune (x # y # z # s) = (((of_char x - 224) * 64 + (of_char y - 128)) * 64 + (of_char z - 128), 3)"
  by (simp add: decode_rune_shapes shapes_apart)

lemma decode_rune_four: "shape4 (of_char x) (of_char y) (of_char z) (of_char u) \<Longrightarrow>
    decode_rune (x # y # z # u # s) =
      ((((of_char x - 240) * 64 + (of_char y - 128)) * 64 + (of_char z - 128)) * 64 + (of_char u - 128), 4)"
  by (simp add: decode_rune_shapes shapes_apart)

lemma decode_rune_cases [consumes 3, case_names one two three four]:
  assumes "decode_rune s = (r, w)" "s \<noteq> []" "\<not> invalid_rune (r, w)"
  obtains x s' where "s = x # s'" "(of_char x :: nat) < 128" "w = 1" "r = of_char x"
  | x y s' where "s = x # y # s'" "shape2 (of_char x) (of_char y)" "w = 2"
      "r = (of_char x - 192) * 64 + (of_char y - 128)"
  | x y z s' where "s = x # y # z # s'" "shape3 (of_char x) (of_char y) (of_char z)" "w = 3"
      "r = ((of_char x - 224) * 64 + (of_char y - 128)) * 64 + (of_char z - 128)"
  | x y z u s' where "s = x # y # z # u # s'" "shape4 (of_char x) (of_char y) (of_char z) (of_char u)" "w = 4"
      "r = (((of_char x - 240) * 64 + (of_char y - 128)) * 64 + (of_char z - 128)) * 64 + (of_char u - 128)"
proof -
  note d = assms(1) [unfolded decode_rune_shapes Let_def]
  obtain x s1 where x: "s = x # s1" using assms(2) by (cases s) auto
  show thesis
  proof (cases "byte_at s 0 < 128")
    case True
    with d x show thesis using that(1) by simp
  next
    case n1: False
    show thesis
    proof (cases "shape2 (byte_at s 0) (byte_at s 1)")
      case True
      then have "1 < length s" by (auto simp: shape2_def dest: byte_at_cont)
      then obtain y s' where "s = x # y # s'" using x by (cases s1) auto
      with d n1 True show thesis using that(2) by simp
    next
      case n2: False
      show thesis
      proof (cases "shape3 (byte_at s 0) (byte_at s 1) (byte_at s 2)")
        case True
        then have "2 < length s" by (auto simp: shape3_def dest: byte_at_cont)
        then obtain y z s' where "s = x # y # z # s'" using x by (cases s1; cases "tl s1") auto
        with d n1 n2 True show thesis using that(3) by simp
      next
        case n3: False
        show thesis
        proof (cases "shape4 (byte_at s 0) (byte_at s 1) (byte_at s 2) (byte_at s 3)")
          case True
          then have "3 < length s" by (auto simp: shape4_def dest: byte_at_cont)
          then obtain y z u s' where "s = x # y # z # u # s'"
            using x by (cases s1; cases "tl s1"; cases "tl (tl s1)") auto
          with d n1 n2 n3 True show thesis using that(4) by simp
        next
          case False
          with d n1 n2 n3 assms(3) show thesis by (simp add: invalid_rune_def)
        qed
      qed
    qed
  qed
qed

text \<open>A rune that decodes is decoded wherever its bytes stand, and is written back to them.\<close>

lemma decode_rune_local:
  assumes "decode_rune s = (r, w)" "s \<noteq> []" "\<not> invalid_rune (r, w)"
  shows "decode_rune (take w s @ t) = (r, w) \<and> w \<le> length s"
  using assms
  by (cases rule: decode_rune_cases)
    (simp_all add: decode_rune_ascii decode_rune_two decode_rune_three decode_rune_four numeral_2_eq_2 numeral_3_eq_3
      eval_nat_numeral(3) [of "Num.Bit0 Num.One"])

lemma digits64:
  "c < 64 \<Longrightarrow> (n * 64 + c) mod 64 = c" "c < 64 \<Longrightarrow> (n * 64 + c) div 64 = n"
  "r div 4096 = r div 64 div 64" "r div 262144 = r div 64 div 64 div 64" for n c r :: nat
  by (simp_all add: div_mult2_eq [symmetric])

lemma encode_decode_rune:
  assumes "decode_rune s = (r, w)" "s \<noteq> []" "\<not> invalid_rune (r, w)"
  shows "encode_rune r = take w s"
  using assms
proof (cases rule: decode_rune_cases)
  case (one x s')
  then show ?thesis by (simp add: encode_rune_def)
next
  case (two x y s')
  define a b where "a = (of_char x :: nat) - 192" and "b = (of_char y :: nat) - 128"
  have "of_char x = 192 + a" "of_char y = 128 + b" "a < 32" "2 \<le> a" "b < 64" "r = a * 64 + b"
    using two by (auto simp: a_def b_def cont_def shape2_def)
  then have "encode_rune r = [char_of (of_char x :: nat), char_of (of_char y :: nat)]"
    by (auto simp: encode_rune_def)
  with two show ?thesis by simp
next
  case (three x y z s')
  define a b c where "a = (of_char x :: nat) - 224" and "b = (of_char y :: nat) - 128" and "c = (of_char z :: nat) - 128"
  have v: "of_char x = 224 + a" "of_char y = 128 + b" "of_char z = 128 + c" "a < 16" "b < 64" "c < 64"
      "r = (a * 64 + b) * 64 + c" "a = 0 \<longrightarrow> 32 \<le> b" "a = 13 \<longrightarrow> b < 32"
    using three by (auto simp: a_def b_def c_def cont_def shape3_def)
  have "r div 4096 = a" "r div 64 mod 64 = b" "r mod 64 = c"
    by (simp_all only: v(7) digits64 v(5,6))
  moreover have "2048 \<le> r" using v(7,8) by (cases "a = 0") auto
  moreover have "r < 65536" using v(4-7) by auto
  moreover have "(0xD800 \<le> r \<and> r \<le> 0xDFFF) = False"
    using v(5-7,9) by (cases "a \<le> 12"; cases "a = 13") auto
  ultimately have "encode_rune r = [char_of (of_char x :: nat), char_of (of_char y :: nat), char_of (of_char z :: nat)]"
    by (auto simp: encode_rune_def v(1-3))
  with three show ?thesis by simp
next
  case (four x y z u s')
  define a b c d where "a = (of_char x :: nat) - 240" and "b = (of_char y :: nat) - 128"
    and "c = (of_char z :: nat) - 128" and "d = (of_char u :: nat) - 128"
  have v: "of_char x = 240 + a" "of_char y = 128 + b" "of_char z = 128 + c" "of_char u = 128 + d" "a < 5" "b < 64" "c < 64"
      "d < 64" "r = ((a * 64 + b) * 64 + c) * 64 + d" "a = 0 \<longrightarrow> 16 \<le> b" "a = 4 \<longrightarrow> b < 16"
    using four by (auto simp: a_def b_def c_def d_def cont_def shape4_def)
  have "r div 262144 = a" "r div 4096 mod 64 = b" "r div 64 mod 64 = c" "r mod 64 = d"
    by (simp_all only: v(9) digits64 v(6-8))
  moreover have "65536 \<le> r" using v(9,10) by (cases "a = 0") auto
  moreover have "r \<le> 0x10FFFF" using v(5-9,11) by (cases "a = 4") auto
  ultimately have "encode_rune r = [char_of (of_char x :: nat), char_of (of_char y :: nat), char_of (of_char z :: nat),
      char_of (of_char u :: nat)]"
    by (auto simp: encode_rune_def v(1-4))
  with four show ?thesis by simp
qed

text \<open>
  A string written back rune by rune: each byte that belongs to no rune becomes the replacement
  character, and nothing else changes.
\<close>

definition replace_invalid :: "string \<Rightarrow> string" where
  "replace_invalid s = concat (map encode_rune (runes s))"

lemma utf8_split_decode:
  assumes "decode_rune (x # xs) = (r, w)"
  shows "utf8_split (x # xs) = (r, take w (x # xs)) # utf8_split (drop w (x # xs))"
  using assms by simp

lemma decode_rune_length: "decode_rune s = (r, w) \<Longrightarrow> s \<noteq> [] \<Longrightarrow> w \<le> length s"
  using decode_rune_local [of s r w] by (cases "invalid_rune (r, w)") (auto simp: invalid_rune_def neq_Nil_conv)

lemma replace_invalid_valid: "valid_utf8 s \<Longrightarrow> replace_invalid s = s"
proof (induction s rule: utf8_split.induct)
  case 1
  then show ?case by (simp add: replace_invalid_def)
next
  case (2 x xs)
  obtain r w where d: "decode_rune (x # xs) = (r, w)" by (cases "decode_rune (x # xs)")
  then have w: "w \<le> length (x # xs)" by (rule decode_rune_length) simp
  from "2.prems" w have v: "\<not> invalid_rune (r, w)" "valid_utf8 (drop w (x # xs))"
    by (simp_all add: valid_utf8_def utf8_split_decode [OF d] min_absorb2 del: utf8_split.simps take_Cons drop_Cons)
  have "replace_invalid (x # xs) = encode_rune r @ replace_invalid (drop w (x # xs))"
    by (simp add: replace_invalid_def runes_def utf8_split_decode [OF d] del: utf8_split.simps)
  also have "\<dots> = take w (x # xs) @ drop w (x # xs)"
    using "2.IH" [OF d [symmetric] v(2)] encode_decode_rune [OF d _ v(1)] by simp
  finally show ?case by simp
qed

text \<open>Valid text in front is decoded first.\<close>

lemma utf8_split_append: "valid_utf8 a \<Longrightarrow> utf8_split (a @ b) = utf8_split a @ utf8_split b"
proof (induction a rule: utf8_split.induct)
  case (2 x xs)
  obtain r w where d: "decode_rune (x # xs) = (r, w)" by (cases "decode_rune (x # xs)")
  have w: "w \<le> length (x # xs)" using decode_rune_length [OF d] by simp
  from "2.prems" w have v: "\<not> invalid_rune (r, w)" "valid_utf8 (drop w (x # xs))"
    by (simp_all add: valid_utf8_def utf8_split_decode [OF d] min_absorb2 del: utf8_split.simps take_Cons drop_Cons)
  have "decode_rune (take w (x # xs) @ drop w (x # xs) @ b) = (r, w)"
    using decode_rune_local [OF d _ v(1)] by blast
  then have "decode_rune (x # xs @ b) = (r, w)"
    by (metis append_Cons append_assoc append_take_drop_id)
  from utf8_split_decode [OF this]
  have "utf8_split (x # xs @ b) = (r, take w (x # xs @ b)) # utf8_split (drop w (x # xs @ b))" .
  moreover have "take w (x # xs @ b) = take w (x # xs)" "drop w (x # xs @ b) = drop w (x # xs) @ b"
    using w by (metis append_Cons take_append diff_is_0_eq take_0 append_Nil2)
      (metis append_Cons drop_append w diff_is_0_eq drop_0)
  ultimately show ?case
    using "2.IH" [OF d [symmetric] v(2)] by (simp add: utf8_split_decode [OF d] del: utf8_split.simps)
qed simp

lemma valid_utf8_append: "valid_utf8 a \<Longrightarrow> valid_utf8 b \<Longrightarrow> valid_utf8 (a @ b)"
  by (simp add: valid_utf8_def utf8_split_append [unfolded valid_utf8_def])

lemma valid_utf8_ascii: "list_all (\<lambda>c. (of_char c :: nat) < 128) s \<Longrightarrow> valid_utf8 s"
  by (induction s) (simp_all add: valid_utf8_def utf8_split_ascii invalid_rune_def del: utf8_split.simps(2))

text \<open>A byte of ASCII ends whatever is before it, valid or not.\<close>

lemma byte_at_append:
  "byte_at (s @ t) i = (if i < length s then byte_at s i else byte_at t (i - length s))"
  by (auto simp: byte_at_def nth_append)

lemma ascii_not_cont: "(of_char c :: nat) < 128 \<Longrightarrow> \<not> cont (of_char c)" "\<not> cont 0"
  by (simp_all add: cont_def)

lemma decode_rune_before_ascii:
  assumes "s \<noteq> []" and c: "(of_char c :: nat) < 128"
  shows "decode_rune (s @ c # t) = decode_rune s"
proof -
  have beyond: "byte_at s i = 0" if "length s \<le> i" for i using that by (simp add: byte_at_def)
  have at: "byte_at (s @ c # t) (length s) = of_char c" by (simp add: byte_at_append)
  have inside: "byte_at (s @ c # t) i = byte_at s i" if "i < length s" for i using that by (simp add: byte_at_append)
  consider "length s = 1" | "length s = 2" | "length s = 3" | "4 \<le> length s"
    using assms(1) by (cases "length s") (auto, linarith)
  then show ?thesis
  proof cases
    case 1
    then show ?thesis using inside [of 0] at beyond [of 1] c
      by (simp add: decode_rune_shapes Let_def shape2_def shape3_def shape4_def ascii_not_cont)
  next
    case 2
    then show ?thesis using inside [of 0] inside [of 1] at beyond [of 2] c
      by (simp add: decode_rune_shapes Let_def shape2_def shape3_def shape4_def ascii_not_cont)
  next
    case 3
    then show ?thesis using inside [of 0] inside [of 1] inside [of 2] at beyond [of 3] c
      by (simp add: decode_rune_shapes Let_def shape2_def shape3_def shape4_def ascii_not_cont)
  next
    case 4
    then show ?thesis using inside [of 0] inside [of 1] inside [of 2] inside [of 3] assms(1)
      by (simp add: decode_rune_shapes)
  qed
qed

lemma utf8_split_before_ascii:
  "(of_char c :: nat) < 128 \<Longrightarrow> utf8_split (s @ c # t) = utf8_split s @ utf8_split (c # t)"
proof (induction s rule: utf8_split.induct)
  case (2 x xs)
  obtain r w where d: "decode_rune (x # xs) = (r, w)" by (cases "decode_rune (x # xs)")
  have w: "w \<le> length (x # xs)" using decode_rune_length [OF d] by simp
  have d': "decode_rune (x # xs @ c # t) = (r, w)"
    using decode_rune_before_ascii [OF _ "2.prems", of "x # xs" t] d by simp
  have "take w (x # xs @ c # t) = take w (x # xs)" "drop w (x # xs @ c # t) = drop w (x # xs) @ c # t"
    using w by (simp_all add: take_append [of w "x # xs", simplified] drop_append [of w "x # xs", simplified])
  with "2.IH" [OF d [symmetric] "2.prems"] show ?case
    by (simp add: utf8_split_decode [OF d] utf8_split_decode [OF d'] del: utf8_split.simps)
qed simp

lemma decode_rune_low:
  assumes "decode_rune (x # xs) = (r, w)" "r < 128"
  shows "r = of_char x"
proof -
  have "\<not> invalid_rune (r, w)" using assms(2) by (simp add: invalid_rune_def)
  from assms(1) _ this show ?thesis
    by (cases rule: decode_rune_cases) (use assms(2) in \<open>auto simp: shape2_def shape3_def shape4_def cont_def\<close>)
qed

lemma low_rune_in: "(r, b) \<in> set (utf8_split s) \<Longrightarrow> r < 128 \<Longrightarrow> r \<in> of_char ` set s"
proof (induction s rule: utf8_split.induct)
  case (2 x xs)
  obtain r' w where d: "decode_rune (x # xs) = (r', w)" by (cases "decode_rune (x # xs)")
  from "2.prems"(1) consider "r = r'" | "(r, b) \<in> set (utf8_split (drop w (x # xs)))"
    by (auto simp: utf8_split_decode [OF d] simp del: utf8_split.simps drop_Cons)
  then show ?case
  proof cases
    case 1
    then show ?thesis using decode_rune_low [OF d] "2.prems"(2) by auto
  next
    case 2
    with "2.IH" [OF d [symmetric]] "2.prems"(2) show ?thesis using set_drop_subset [of w "x # xs"] by blast
  qed
qed simp

end
