(* ===== verification/Json.thy ===== *)
theory Json
  imports Utf8
begin

text \<open>
  What the program uses of Go's \<open>encoding/json\<close>: a value as a tree, decoding a struct field
  out of an object (keys compared without regard to case, a repeated key decoded again, an
  unknown key ignored, \<open>null\<close> leaving the zero value), and the compact rendering of
  \<open>json.Marshal\<close> with its string escapes. A number is carried as the literal that stands
  for it in the text. The
  parser of the text is in theory \<open>JsonText\<close>.
\<close>

section \<open>Values\<close>

datatype json =
    JNull
  | JBool bool
  | JNum string
  | JStr string
  | JArr "json list"
  | JObj "(string \<times> json) list"

datatype json_error = TypeMismatch string | SyntaxError

fun is_jstr :: "json \<Rightarrow> bool" where
  "is_jstr (JStr _) = True"
| "is_jstr _ = False"

fun jstr :: "json \<Rightarrow> string" where
  "jstr (JStr s) = s"
| "jstr _ = []"

section \<open>Struct fields\<close>

text \<open>
  \<open>foldName\<close>: ASCII letters in upper case, and the two other characters whose case folding
  is an ASCII letter (the Kelvin sign and the long s, in UTF-8).
\<close>

definition upper_ascii :: "char \<Rightarrow> char" where
  "upper_ascii c = (let n = (of_char c :: nat) in if 97 \<le> n \<and> n \<le> 122 then char_of (n - 32) else c)"

fun fold_key :: "string \<Rightarrow> string" where
  "fold_key (a # b # c # r) =
     (if a = CHR 0xE2 \<and> b = CHR 0x84 \<and> c = CHR 0xAA then CHR ''K'' # fold_key r
      else if a = CHR 0xC5 \<and> b = CHR 0xBF then CHR ''S'' # fold_key (c # r)
      else upper_ascii a # fold_key (b # c # r))"
| "fold_key [a, b] =
     (if a = CHR 0xC5 \<and> b = CHR 0xBF then [CHR ''S''] else [upper_ascii a, upper_ascii b])"
| "fold_key [a] = [upper_ascii a]"
| "fold_key [] = []"

declare fold_key.simps [simp del]

text \<open>Keys that are distinct up to case select distinct fields.\<close>

lemma fold_key_distinct:
  assumes "distinct (map fold_key ks)" and "a \<in> set ks" and "b \<in> set ks"
  shows "fold_key a = fold_key b \<longleftrightarrow> a = b"
  using assms by (auto simp: distinct_map inj_on_def)

definition field_values :: "string \<Rightarrow> (string \<times> json) list \<Rightarrow> json list" where
  "field_values n ms = map snd (filter (\<lambda>(k, _). fold_key k = fold_key n) ms)"

text \<open>
  A \<open>string\<close> field: every value under its key has to be a string or \<open>null\<close>; the last
  string counts. A field that takes any value (\<open>json.RawMessage\<close>, a slice or a pointer
  before its contents are looked at) keeps the last value.
\<close>

definition str_field :: "string \<Rightarrow> (string \<times> json) list \<Rightarrow> json_error + string" where
  "str_field n ms =
     (let vs = field_values n ms
      in if list_all (\<lambda>v. v = JNull \<or> is_jstr v) vs
         then Inr (case filter is_jstr vs of [] \<Rightarrow> [] | s # r \<Rightarrow> jstr (last (s # r)))
         else Inl (TypeMismatch n))"

definition raw_field :: "string \<Rightarrow> (string \<times> json) list \<Rightarrow> json option" where
  "raw_field n ms = (case field_values n ms of [] \<Rightarrow> None | v # r \<Rightarrow> Some (last (v # r)))"

text \<open>The members of the object a struct is decoded from; \<open>null\<close> decodes to the zero struct.\<close>

fun members :: "string \<Rightarrow> json \<Rightarrow> json_error + (string \<times> json) list" where
  "members n (JObj ms) = Inr ms"
| "members n JNull = Inr []"
| "members n _ = Inl (TypeMismatch n)"

fun elements :: "string \<Rightarrow> json option \<Rightarrow> json_error + json list" where
  "elements n None = Inr []"
| "elements n (Some JNull) = Inr []"
| "elements n (Some (JArr xs)) = Inr xs"
| "elements n (Some _) = Inl (TypeMismatch n)"

lemma field_values_simps [simp]:
  "field_values n [] = []"
  "field_values n ((k, v) # ms) =
     (if fold_key k = fold_key n then v # field_values n ms else field_values n ms)"
  by (simp_all add: field_values_def)

lemma field_values_append [simp]:
  "field_values n (ms @ ms') = field_values n ms @ field_values n ms'"
  by (simp add: field_values_def)

text \<open>\<open>omitempty\<close> on a string field.\<close>

definition omit_empty :: "string \<Rightarrow> string \<Rightarrow> (string \<times> json) list" where
  "omit_empty n s = (if s = [] then [] else [(n, JStr s)])"

lemma field_values_omit_empty [simp]:
  "field_values n (omit_empty k s) = (if fold_key k = fold_key n \<and> s \<noteq> [] then [JStr s] else [])"
  by (simp add: omit_empty_def)

section \<open>Rendering\<close>

definition hex_digit :: "nat \<Rightarrow> char" where
  "hex_digit d = (if d < 10 then char_of (48 + d) else char_of (87 + d))"

text \<open>
  The escapes of \<open>json.Marshal\<close>: quote, backslash, the named and numbered control
  characters, the three characters escaped for HTML, and the two line separators of Unicode; a
  byte that belongs to no rune is written as the escape of the replacement character. All other
  bytes of a UTF-8 string are written as they are.
\<close>

fun json_escape :: "char \<Rightarrow> string" where
  "json_escape c =
     (let n = (of_char c :: nat) in
      if c = CHR 34 then [CHR 92, CHR 34]
      else if c = CHR 92 then [CHR 92, CHR 92]
      else if n = 8 then [CHR 92, CHR ''b'']
      else if n = 12 then [CHR 92, CHR ''f'']
      else if n = 10 then [CHR 92, CHR ''n'']
      else if n = 13 then [CHR 92, CHR ''r'']
      else if n = 9 then [CHR 92, CHR ''t'']
      else if n < 32 \<or> c = CHR ''<'' \<or> c = CHR ''>'' \<or> c = CHR ''&''
        then [CHR 92, CHR ''u'', CHR ''0'', CHR ''0'', hex_digit (n div 16), hex_digit (n mod 16)]
      else [c])"

definition json_rune :: "nat \<times> string \<Rightarrow> string" where
  "json_rune = (\<lambda>(r, b).
     if r < 128 then json_escape (char_of r)
     else if invalid_rune (r, length b) then CHR 92 # ''ufffd''
     else if r = 0x2028 \<or> r = 0x2029 then CHR 92 # ''u202'' @ [hex_digit (r mod 16)]
     else b)"

definition json_quoted :: "string \<Rightarrow> string" where
  "json_quoted s = concat (map json_rune (utf8_split s))"

fun join :: "string \<Rightarrow> string list \<Rightarrow> string" where
  "join sep [] = []"
| "join sep [x] = x"
| "join sep (x # y # r) = x @ sep @ join sep (y # r)"

fun json_render :: "json \<Rightarrow> string" where
  "json_render JNull = ''null''"
| "json_render (JBool b) = (if b then ''true'' else ''false'')"
| "json_render (JNum s) = s"
| "json_render (JStr s) = [CHR 34] @ json_quoted s @ [CHR 34]"
| "json_render (JArr xs) = ''['' @ join '','' (map json_render xs) @ '']''"
| "json_render (JObj ms) =
     ''{'' @ join '','' (map (\<lambda>(k, v). [CHR 34] @ json_quoted k @ [CHR 34] @ '':'' @ json_render v) ms) @ ''}''"

text \<open>
  A value decoded into \<open>any\<close> holds objects as maps, which \<open>json.Marshal\<close> writes with their
  keys sorted and each once (the last value of a repeated key).
\<close>

fun str_less_eq :: "string \<Rightarrow> string \<Rightarrow> bool" where
  "str_less_eq [] _ = True"
| "str_less_eq (_ # _) [] = False"
| "str_less_eq (a # as) (b # bs) =
     ((of_char a :: nat) < of_char b \<or> (a = b \<and> str_less_eq as bs))"

fun map_insert :: "string \<Rightarrow> 'a \<Rightarrow> (string \<times> 'a) list \<Rightarrow> (string \<times> 'a) list" where
  "map_insert k v [] = [(k, v)]"
| "map_insert k v ((k', v') # r) =
     (if k = k' then (k, v) # r
      else if str_less_eq k k' then (k, v) # (k', v') # r
      else (k', v') # map_insert k v r)"

fun json_any :: "json \<Rightarrow> json" where
  "json_any (JArr xs) = JArr (map json_any xs)"
| "json_any (JObj ms) = JObj (foldl (\<lambda>acc (k, v). map_insert k v acc) [] (map (\<lambda>(k, v). (k, json_any v)) ms))"
| "json_any v = v"

lemma map_of_map_insert: "map_of (map_insert k v ms) = (map_of ms)(k \<mapsto> v)"
  by (induction ms) auto

section \<open>The text of an object\<close>

lemma join_append: "xs \<noteq> [] \<Longrightarrow> join s (xs @ ys) = join s xs @ concat (map (\<lambda>y. s @ y) ys)"
proof (induction xs rule: induct_list012)
  case (2 x)
  then show ?case by (induction ys arbitrary: x rule: induct_list012) simp_all
qed simp_all


lemma join_Cons: "xs \<noteq> [] \<Longrightarrow> join s (x # xs) = x @ s @ join s xs"
  by (cases xs) simp_all

definition field_text :: "string \<times> json \<Rightarrow> string" where
  "field_text f = [CHR 34] @ json_quoted (fst f) @ [CHR 34] @ '':'' @ json_render (snd f)"

lemma object_text: "json_render (JObj ms) = ''{'' @ join '','' (map field_text ms) @ ''}''"
  by (simp add: field_text_def [abs_def] case_prod_unfold)

end
