(* ===== verification/Base64.thy ===== *)
theory Base64
  imports Prelude
begin

text \<open>
  \<open>base64.StdEncoding\<close> of Go's standard library, as the wire formats of llm use it: padded
  base64 over the standard alphabet. Decoding ignores carriage returns and line feeds,
  requires the padding, and (not being in strict mode) does not look at the unused low bits
  of the last character.
\<close>

definition b64_alphabet :: string where
  "b64_alphabet = ''ABCDEFGHIJKLMNOPQRSTUVWXYZabcdefghijklmnopqrstuvwxyz0123456789+/''"

definition b64_char :: "nat \<Rightarrow> char" where
  "b64_char i = b64_alphabet ! i"

fun index_of :: "'a \<Rightarrow> 'a list \<Rightarrow> nat option" where
  "index_of x [] = None"
| "index_of x (y # ys) = (if x = y then Some 0 else map_option Suc (index_of x ys))"

definition b64_val :: "char \<Rightarrow> nat option" where
  "b64_val c = index_of c b64_alphabet"

fun b64_encode :: "byte list \<Rightarrow> string" where
  "b64_encode [] = []"
| "b64_encode [a] =
     (let n = unat a * 16 in [b64_char (n div 64), b64_char (n mod 64), CHR ''='', CHR ''=''])"
| "b64_encode [a, b] =
     (let n = (unat a * 256 + unat b) * 4
      in [b64_char (n div 4096), b64_char (n div 64 mod 64), b64_char (n mod 64), CHR ''=''])"
| "b64_encode (a # b # c # r) =
     (let n = (unat a * 256 + unat b) * 256 + unat c
      in [b64_char (n div 262144), b64_char (n div 4096 mod 64), b64_char (n div 64 mod 64),
          b64_char (n mod 64)] @ b64_encode r)"

definition b64_pair :: "char \<Rightarrow> char \<Rightarrow> nat option" where
  "b64_pair w x =
     (case b64_val w of None \<Rightarrow> None
      | Some i \<Rightarrow> (case b64_val x of None \<Rightarrow> None | Some j \<Rightarrow> Some (i * 64 + j)))"

text \<open>One quantum of four characters; a padded one has to be the last.\<close>

fun b64_quanta :: "string \<Rightarrow> byte list option" where
  "b64_quanta [] = Some []"
| "b64_quanta (w # x # y # z # r) =
     (case b64_pair w x of
        None \<Rightarrow> None
      | Some i \<Rightarrow>
          if z = CHR ''='' then
            if r \<noteq> [] then None
            else if y = CHR ''='' then Some [of_nat (i div 16)]
            else (case b64_val y of
                    None \<Rightarrow> None
                  | Some k \<Rightarrow> Some [of_nat ((i * 64 + k) div 1024), of_nat ((i * 64 + k) div 4 mod 256)])
          else (case b64_pair y z of
                  None \<Rightarrow> None
                | Some j \<Rightarrow>
                    map_option (\<lambda>bs. of_nat ((i * 4096 + j) div 65536) #
                        of_nat ((i * 4096 + j) div 256 mod 256) # of_nat ((i * 4096 + j) mod 256) # bs)
                      (b64_quanta r)))"
| "b64_quanta _ = None"

definition b64_decode :: "string \<Rightarrow> byte list option" where
  "b64_decode s = b64_quanta (filter (\<lambda>c. c \<noteq> CHR 10 \<and> c \<noteq> CHR 13) s)"

lemma b64_chars_ok:
  "list_all (\<lambda>i. b64_val (b64_char i) = Some i \<and> b64_char i \<noteq> CHR ''='' \<and>
     b64_char i \<noteq> CHR 10 \<and> b64_char i \<noteq> CHR 13) [0..<64]"
  by code_simp

lemma b64_char_props:
  assumes "i < 64"
  shows "b64_val (b64_char i) = Some i" "b64_char i \<noteq> CHR ''=''"
    "b64_char i \<noteq> CHR 10" "b64_char i \<noteq> CHR 13"
  using b64_chars_ok assms unfolding list_all_iff by auto

lemma unat_byte_less [simp]: "unat (a :: byte) < 256"
  using unsigned_less [of a] by simp

lemma byte_pair_less: "unat (a :: byte) * 256 + unat (b :: byte) < 65536"
proof -
  have "m * 256 + n < 65536" if "m < 256" "n < 256" for m n :: nat using that by linarith
  from this [OF unat_byte_less unat_byte_less] show ?thesis .
qed

lemma byte_triple_less: "(unat (a :: byte) * 256 + unat (b :: byte)) * 256 + unat (c :: byte) < 16777216"
proof -
  have "m * 256 + n < 16777216" if "m < 65536" "n < 256" for m n :: nat using that by linarith
  from this [OF byte_pair_less unat_byte_less] show ?thesis .
qed

lemma b64_first_less:
  "unat (a :: byte) * 16 div 64 < 64"
  "(unat a * 256 + unat (b :: byte)) * 4 div 4096 < 64"
  "((unat a * 256 + unat b) * 256 + unat (c :: byte)) div 262144 < 64"
  by (rule less_mult_imp_div_less, use unat_byte_less [of a] byte_pair_less [of a b] byte_triple_less [of a b c]
      in \<open>simp del: unat_byte_less\<close>)+

lemma b64_pair_chars:
  "i < 64 \<Longrightarrow> j < 64 \<Longrightarrow> b64_pair (b64_char i) (b64_char j) = Some (i * 64 + j)"
  by (simp add: b64_pair_def b64_char_props)

lemma b64_encode_filter:
  "filter (\<lambda>c. c \<noteq> CHR 10 \<and> c \<noteq> CHR 13) (b64_encode d) = b64_encode d"
proof (induction d rule: b64_encode.induct)
  case (2 a)
  note b64_first_less(1) [of a]
  then show ?case by (simp add: Let_def b64_char_props)
next
  case (3 a b)
  note b64_first_less(2) [of a b]
  then show ?case by (simp add: Let_def b64_char_props)
next
  case (4 a b c r)
  note b64_first_less(3) [of a b c]
  with 4 show ?case by (simp add: Let_def b64_char_props)
qed simp

lemma sextets: "(n div 262144 * 64 + n div 4096 mod 64) * 4096 + (n div 64 mod 64 * 64 + n mod 64) = (n :: nat)"
proof -
  define q where "q = n div 64"
  define p where "p = q div 64"
  have eqs: "n div 4096 = p" "n div 262144 = p div 64"
    by (simp_all add: p_def q_def div_mult2_eq [symmetric])
  have "p div 64 * 64 + p mod 64 = p" "p * 64 + q mod 64 = q" "q * 64 + n mod 64 = n"
    by (simp_all add: p_def q_def)
  moreover have "p * 4096 + (u * 64 + v) = (p * 64 + u) * 64 + v" for u v :: nat by simp
  ultimately show ?thesis unfolding eqs q_def [symmetric] by (simp only:)
qed

lemma b64_quanta_encode: "b64_quanta (b64_encode d) = Some d"
proof (induction d rule: b64_encode.induct)
  case 1
  then show ?case by simp
next
  case (2 a)
  note b64_first_less(1) [of a]
  then have "b64_pair (b64_char (unat a * 16 div 64)) (b64_char (unat a * 16 mod 64)) =
      Some (unat a * 16 div 64 * 64 + unat a * 16 mod 64)"
    by (intro b64_pair_chars) simp_all
  then have "b64_pair (b64_char (unat a * 16 div 64)) (b64_char (unat a * 16 mod 64)) = Some (unat a * 16)"
    by (simp only: div_mult_mod_eq)
  then show ?case by (simp add: Let_def)
next
  case (3 a b)
  define n where "n = (unat a * 256 + unat b) * 4"
  have lt: "n div 4096 < 64" unfolding n_def by (rule b64_first_less)
  have "n div 4096 = n div 64 div 64" by (simp add: div_mult2_eq [symmetric])
  then have "(n div 4096 * 64 + n div 64 mod 64) * 64 + n mod 64 = n" by simp
  moreover have "n div 1024 = unat a" "n div 4 mod 256 = unat b"
    using unat_byte_less [of b] by (simp_all add: n_def)
  moreover have "b64_encode [a, b] =
      [b64_char (n div 4096), b64_char (n div 64 mod 64), b64_char (n mod 64), CHR ''='']"
    by (simp only: b64_encode.simps Let_def n_def)
  ultimately show ?case
    using lt by (simp add: b64_pair_chars b64_char_props del: b64_encode.simps)
next
  case (4 a b c r)
  define n where "n = (unat a * 256 + unat b) * 256 + unat c"
  have lt: "n div 262144 < 64" unfolding n_def by (rule b64_first_less)
  have q: "n div 256 = unat a * 256 + unat b" 
  proof -
    have "(m * 256 + k) div 256 = m" if "k < 256" for m k :: nat using that by simp
    from this [OF unat_byte_less] show ?thesis unfolding n_def .
  qed
  moreover have "n div 65536 = n div 256 div 256" by (simp add: div_mult2_eq [symmetric])
  ultimately have "n div 65536 = unat a" "n div 256 mod 256 = unat b"
    using unat_byte_less [of b] by simp_all
  moreover have "n mod 256 = unat c" unfolding n_def using unat_byte_less [of c]
    by (simp only: mod_mult_self3 mod_less)
  moreover have "b64_encode (a # b # c # r) =
      [b64_char (n div 262144), b64_char (n div 4096 mod 64), b64_char (n div 64 mod 64),
       b64_char (n mod 64)] @ b64_encode r"
    by (simp only: b64_encode.simps Let_def n_def)
  moreover have "b64_quanta (b64_encode r) = Some r" by (rule 4) (simp add: n_def)
  ultimately show ?case
    using lt sextets [of n] by (simp add: b64_pair_chars b64_char_props del: b64_encode.simps)
qed

lemma b64_roundtrip [simp]: "b64_decode (b64_encode d) = Some d"
  by (simp add: b64_decode_def b64_encode_filter b64_quanta_encode)

lemma b64_encode_nonempty [simp]: "b64_encode d = [] \<longleftrightarrow> d = []"
  by (cases d rule: b64_encode.cases) (auto simp: Let_def)

end
