(* ===== verification/Messages.thy ===== *)
theory Messages
  imports Json Base64
begin

text \<open>
  The message model of llm/messages.go and llm/tokens.go: messages with their parts and tool
  calls, the OpenAI wire shape they are marshalled to and unmarshalled from (as JSON trees),
  the filter on audit rows, usage accounting and the token estimate.
\<close>

section \<open>Data\<close>

text \<open>\<open>MessagePart\<close>, with its three constructors' records.\<close>

record message_part =
  part_type :: string
  part_text :: string
  mime_type :: string
  part_data :: "byte list"
  part_uri :: string

definition empty_part :: message_part where
  "empty_part = \<lparr>part_type = [], part_text = [], mime_type = [], part_data = [], part_uri = []\<rparr>"

definition new_text_part :: "string \<Rightarrow> message_part" where
  "new_text_part t = empty_part\<lparr>part_type := ''text'', part_text := t\<rparr>"

definition new_image_part :: "string \<Rightarrow> byte list \<Rightarrow> message_part" where
  "new_image_part mime d = empty_part\<lparr>part_type := ''image'', mime_type := mime, part_data := d\<rparr>"

definition new_image_part_uri :: "string \<Rightarrow> message_part" where
  "new_image_part_uri uri = empty_part\<lparr>part_type := ''image'', part_uri := uri\<rparr>"

definition new_document_part :: "string \<Rightarrow> byte list \<Rightarrow> message_part" where
  "new_document_part mime d = empty_part\<lparr>part_type := ''document'', mime_type := mime, part_data := d\<rparr>"

record function_call =
  fn_name :: string
  arguments :: string

record tool_call =
  call_id :: string
  call_type :: string
  fn :: function_call

record message =
  role :: string
  content :: string
  parts :: "message_part list"
  tool_calls :: "tool_call list"
  tool_call_id :: string
  msg_name :: string
  synthetic :: bool
  ignored :: bool
  reasoning :: string

text \<open>The zero \<open>Message\<close>.\<close>

definition empty_message :: message where
  "empty_message = \<lparr>role = [], content = [], parts = [], tool_calls = [], tool_call_id = [],
     msg_name = [], synthetic = False, ignored = False, reasoning = []\<rparr>"

section \<open>Filtering\<close>

text \<open>\<open>FilterForRequest\<close>: the scan that keeps the slice as it is, then the copy.\<close>

fun any_ignored :: "message list \<Rightarrow> bool" where
  "any_ignored [] = False"
| "any_ignored (m # ms) = (ignored m \<or> any_ignored ms)"

fun copy_kept :: "message list \<Rightarrow> message list" where
  "copy_kept [] = []"
| "copy_kept (m # ms) = (if ignored m then copy_kept ms else m # copy_kept ms)"

definition filter_for_request :: "message list \<Rightarrow> message list" where
  "filter_for_request msgs = (if any_ignored msgs then copy_kept msgs else msgs)"

lemma copy_kept_filter: "copy_kept ms = filter (\<lambda>m. \<not> ignored m) ms"
  by (induction ms) auto

lemma not_any_ignored: "\<not> any_ignored ms \<Longrightarrow> filter (\<lambda>m. \<not> ignored m) ms = ms"
  by (induction ms) auto

lemma filter_for_request_filter: "filter_for_request ms = filter (\<lambda>m. \<not> ignored m) ms"
  by (simp add: filter_for_request_def copy_kept_filter not_any_ignored)

section \<open>Marshalling\<close>

text \<open>\<open>MessagePart.dataURL\<close>\<close>

definition data_url :: "message_part \<Rightarrow> string" where
  "data_url p =
     (if part_data p = [] \<or> mime_type p = [] then []
      else ''data:'' @ mime_type p @ '';base64,'' @ b64_encode (part_data p))"

definition tool_call_json :: "tool_call \<Rightarrow> json" where
  "tool_call_json t = JObj [(''id'', JStr (call_id t)), (''type'', JStr (call_type t)),
     (''function'', JObj [(''name'', JStr (fn_name (fn t))), (''arguments'', JStr (arguments (fn t)))])]"

text \<open>The members every shape ends with.\<close>

definition tail_members :: "message \<Rightarrow> (string \<times> json) list" where
  "tail_members m =
     (if tool_calls m = [] then [] else [(''tool_calls'', JArr (map tool_call_json (tool_calls m)))]) @
     omit_empty ''tool_call_id'' (tool_call_id m) @ omit_empty ''name'' (msg_name m)"

text \<open>One part as a content block; a part of an unknown type writes nothing.\<close>

definition text_block :: "string \<Rightarrow> json" where
  "text_block t = JObj ((''type'', JStr ''text'') # omit_empty ''text'' t)"

definition part_block :: "message_part \<Rightarrow> json list" where
  "part_block p =
     (if part_type p = ''text'' then [text_block (part_text p)]
      else if part_type p = ''image'' then
        [JObj [(''type'', JStr ''image_url''),
               (''image_url'', JObj [(''url'', JStr (if part_uri p = [] then data_url p else part_uri p))])]]
      else if part_type p = ''document'' then
        [JObj [(''type'', JStr ''file''),
               (''file'', JObj (if part_uri p \<noteq> [] then omit_empty ''file_id'' (part_uri p)
                              else omit_empty ''file_data'' (data_url p)))]]
      else [])"

definition content_blocks :: "message \<Rightarrow> json list" where
  "content_blocks m =
     (if content m \<noteq> [] then [text_block (content m)] else []) @ concat (map part_block (parts m))"

definition marshal_multimodal :: "message \<Rightarrow> json" where
  "marshal_multimodal m =
     JObj ((''role'', JStr (role m)) # (''content'', JArr (content_blocks m)) # tail_members m)"

definition marshal_message :: "message \<Rightarrow> json" where
  "marshal_message m =
     (if parts m \<noteq> [] then marshal_multimodal m
      else JObj ((''role'', JStr (role m)) #
        (if role m = ''assistant'' \<and> content m = [] \<and> tool_calls m \<noteq> [] then []
         else [(''content'', JStr (content m))]) @ tail_members m))"

section \<open>Unmarshalling\<close>

text \<open>\<open>partFromURL\<close>\<close>

definition part_from_url :: "string \<Rightarrow> string \<Rightarrow> message_part" where
  "part_from_url typ url =
     (let uri = empty_part\<lparr>part_type := typ, part_uri := url\<rparr> in
      case strip_prefix ''data:'' url of
        None \<Rightarrow> uri
      | Some rest \<Rightarrow>
          (case cut_at rest '';base64,'' of
             None \<Rightarrow> uri
           | Some (mime, enc) \<Rightarrow>
               (case b64_decode enc of
                  None \<Rightarrow> uri
                | Some d \<Rightarrow> empty_part\<lparr>part_type := typ, mime_type := mime, part_data := d\<rparr>)))"

text \<open>
  A struct field: the values under its key are decoded into the same struct, one after the other. A
  pointer to a struct: \<open>null\<close> resets it, an object is decoded into what it points to.
\<close>

definition struct_field :: "string \<Rightarrow> (string \<times> json) list \<Rightarrow> json_error + (string \<times> json) list" where
  "struct_field n ms = result_bind (result_map (members n) (field_values n ms)) (\<lambda>mss. Inr (concat mss))"

fun pointer_values :: "string \<Rightarrow> ((string \<times> json) list \<Rightarrow> json_error + 'a) \<Rightarrow> json list \<Rightarrow>
    ((string \<times> json) list \<times> 'a) option \<Rightarrow> json_error + ((string \<times> json) list \<times> 'a) option" where
  "pointer_values n f [] p = Inr p"
| "pointer_values n f (v # vs) p =
     (if v = JNull then pointer_values n f vs None
      else result_bind (members n v) (\<lambda>new.
        let ms = (case p of None \<Rightarrow> new | Some (old, _) \<Rightarrow> old @ new)
        in result_bind (f ms) (\<lambda>x. pointer_values n f vs (Some (ms, x)))))"

definition pointer_field :: "string \<Rightarrow> (string \<times> json) list \<Rightarrow>
    ((string \<times> json) list \<Rightarrow> json_error + 'a) \<Rightarrow> json_error + 'a option" where
  "pointer_field n ms f =
     result_bind (pointer_values n f (field_values n ms) None) (\<lambda>p. Inr (map_option snd p))"

definition unmarshal_function :: "(string \<times> json) list \<Rightarrow> json_error + function_call" where
  "unmarshal_function ms =
     result_bind (str_field ''name'' ms) (\<lambda>n.
     result_bind (str_field ''arguments'' ms) (\<lambda>a. Inr \<lparr>fn_name = n, arguments = a\<rparr>))"

definition unmarshal_tool_call :: "json \<Rightarrow> json_error + tool_call" where
  "unmarshal_tool_call j =
     result_bind (members ''tool_calls'' j) (\<lambda>ms.
     result_bind (str_field ''id'' ms) (\<lambda>i.
     result_bind (str_field ''type'' ms) (\<lambda>t.
     result_bind (result_bind (struct_field ''function'' ms) unmarshal_function) (\<lambda>f.
       Inr \<lparr>call_id = i, call_type = t, fn = f\<rparr>))))"

text \<open>A content block, its two pointers \<open>None\<close> when the key is absent or \<open>null\<close>.\<close>

record block =
  btype :: string
  btext :: string
  image_url :: "string option"
  bfile :: "(string \<times> string) option"

definition unmarshal_block :: "json \<Rightarrow> json_error + block" where
  "unmarshal_block j =
     result_bind (members ''content'' j) (\<lambda>ms.
     result_bind (str_field ''type'' ms) (\<lambda>ty.
     result_bind (str_field ''text'' ms) (\<lambda>tx.
     result_bind (pointer_field ''image_url'' ms (str_field ''url'')) (\<lambda>iu.
     result_bind (pointer_field ''file'' ms (\<lambda>fs.
         result_bind (str_field ''file_data'' fs) (\<lambda>fd.
         result_bind (str_field ''file_id'' fs) (\<lambda>fi. Inr (fd, fi))))) (\<lambda>fb.
       Inr \<lparr>btype = ty, btext = tx, image_url = iu, bfile = fb\<rparr>)))))"

text \<open>The switch on a block that is not a leading text block.\<close>

definition block_part :: "block \<Rightarrow> message_part list" where
  "block_part b =
     (if btype b = ''text'' then [new_text_part (btext b)]
      else case (btype b = ''image_url'', image_url b, btype b = ''file'', bfile b) of
        (True, Some u, _, _) \<Rightarrow> [part_from_url ''image'' u]
      | (_, _, True, Some (fd, fi)) \<Rightarrow>
          [if fi \<noteq> [] then empty_part\<lparr>part_type := ''document'', part_uri := fi\<rparr>
           else part_from_url ''document'' fd]
      | _ \<Rightarrow> [])"

fun blocks_content :: "block list \<Rightarrow> string \<times> message_part list" where
  "blocks_content [] = ([], [])"
| "blocks_content (b # bs) =
     (if btype b = ''text'' then (btext b, concat (map block_part bs))
      else ([], concat (map block_part (b # bs))))"

definition unmarshal_content :: "json option \<Rightarrow> json_error + string \<times> message_part list" where
  "unmarshal_content c =
     (case c of
        None \<Rightarrow> Inr ([], [])
      | Some JNull \<Rightarrow> Inr ([], [])
      | Some (JStr s) \<Rightarrow> Inr (s, [])
      | Some (JArr xs) \<Rightarrow> result_bind (result_map unmarshal_block xs) (\<lambda>bs. Inr (blocks_content bs))
      | Some _ \<Rightarrow> Inl (TypeMismatch ''content''))"

text \<open>
  \<open>UnmarshalJSON\<close> into a message; the fields that are not on the wire keep their value.
\<close>

definition unmarshal_message :: "message \<Rightarrow> json \<Rightarrow> json_error + message" where
  "unmarshal_message m j =
     result_bind (members ''message'' j) (\<lambda>ms.
     result_bind (str_field ''role'' ms) (\<lambda>ro.
     result_bind (result_bind (elements ''tool_calls'' (raw_field ''tool_calls'' ms))
        (result_map unmarshal_tool_call)) (\<lambda>tcs.
     result_bind (str_field ''tool_call_id'' ms) (\<lambda>tid.
     result_bind (str_field ''name'' ms) (\<lambda>na.
     result_bind (unmarshal_content (raw_field ''content'' ms)) (\<lambda>(ct, ps).
       Inr (m\<lparr>role := ro, content := ct, parts := ps, tool_calls := tcs, tool_call_id := tid,
             msg_name := na\<rparr>)))))))"

section \<open>Usage and estimates\<close>

record message_usage =
  input_tokens :: int
  output_tokens :: int
  cache_read_tokens :: int
  cache_write_tokens :: int
  reasoning_tokens :: int
  total_tokens :: int

definition effective_input_tokens :: "message_usage \<Rightarrow> int" where
  "effective_input_tokens u =
     (if 0 < total_tokens u \<and> output_tokens u \<le> total_tokens u
      then wrap64 (total_tokens u - output_tokens u)
      else wrap64 (wrap64 (input_tokens u + cache_read_tokens u) + cache_write_tokens u))"

definition usage_empty :: "message_usage \<Rightarrow> bool" where
  "usage_empty u \<longleftrightarrow> input_tokens u = 0 \<and> output_tokens u = 0 \<and> cache_read_tokens u = 0 \<and>
     cache_write_tokens u = 0 \<and> reasoning_tokens u = 0 \<and> total_tokens u = 0"

text \<open>\<open>Estimate\<close> (llm/tokens.go): each field's bytes divided by four, rounded down.\<close>

definition estimate_call :: "tool_call \<Rightarrow> nat" where
  "estimate_call t = length (call_id t) div 4 + length (fn_name (fn t)) div 4 + length (arguments (fn t)) div 4"

fun estimate :: "message list \<Rightarrow> nat" where
  "estimate [] = 0"
| "estimate (m # ms) =
     length (content m) div 4 + length (role m) div 4 +
     (if tool_call_id m \<noteq> [] then length (tool_call_id m) div 4 else 0) +
     sum_list (map estimate_call (tool_calls m)) + estimate ms"



section \<open>The wire round trip\<close>

text \<open>The keys of the wire format are distinct up to case.\<close>

definition wire_keys :: "string list" where
  "wire_keys = [''role'', ''content'', ''tool_calls'', ''tool_call_id'', ''name'', ''id'', ''type'',
     ''function'', ''arguments'', ''text'', ''image_url'', ''url'', ''file'', ''file_id'', ''file_data'']"

lemma wire_keys_distinct: "distinct (map fold_key wire_keys)"
  by code_simp

lemma fold_wire_keys [simp]:
  "a \<in> set wire_keys \<Longrightarrow> b \<in> set wire_keys \<Longrightarrow> fold_key a = fold_key b \<longleftrightarrow> a = b"
  using fold_key_distinct [OF wire_keys_distinct] .

lemma wire_key_mems [simp]:
  "\<forall>k \<in> set [''role'', ''content'', ''tool_calls'', ''tool_call_id'', ''name'', ''id'', ''type'',
     ''function'', ''arguments'', ''text'', ''image_url'', ''url'', ''file'', ''file_id'', ''file_data''].
     k \<in> set wire_keys"
  by (simp add: wire_keys_def)

lemmas wire_key_mem [simp] = wire_key_mems [simplified]

lemma unmarshal_tool_call_json [simp]: "unmarshal_tool_call (tool_call_json t) = Inr t"
  by (simp add: unmarshal_tool_call_def tool_call_json_def str_field_def struct_field_def
      unmarshal_function_def)

text \<open>
  A part the constructors build, with inline bytes that \<open>dataURL\<close> can express (a media type
  that does not contain the base64 marker) or a reference that is not itself a data URL.
\<close>

definition part_ok :: "message_part \<Rightarrow> bool" where
  "part_ok p \<longleftrightarrow>
     (\<exists>t. p = new_text_part t) \<or>
     (\<exists>mime d. (p = new_image_part mime d \<or> p = new_document_part mime d) \<and>
        mime \<noteq> [] \<and> \<not> contains mime '';base64,'' \<and> d \<noteq> []) \<or>
     (\<exists>uri. (p = new_image_part_uri uri \<or> p = empty_part\<lparr>part_type := ''document'', part_uri := uri\<rparr>) \<and>
        uri \<noteq> [] \<and> \<not> has_prefix ''data:'' uri)"

lemma part_ok_intros [intro]:
  "part_ok (new_text_part t)"
  "mime \<noteq> [] \<Longrightarrow> \<not> contains mime '';base64,'' \<Longrightarrow> d \<noteq> [] \<Longrightarrow> part_ok (new_image_part mime d)"
  "mime \<noteq> [] \<Longrightarrow> \<not> contains mime '';base64,'' \<Longrightarrow> d \<noteq> [] \<Longrightarrow> part_ok (new_document_part mime d)"
  "uri \<noteq> [] \<Longrightarrow> \<not> has_prefix ''data:'' uri \<Longrightarrow> part_ok (new_image_part_uri uri)"
  unfolding part_ok_def by blast+

lemma semicolon_once:
  "i < 8 \<Longrightarrow> '';base64,'' ! i = CHR '';'' \<Longrightarrow> i = 0"
  by (auto simp: less_Suc_eq numeral_eq_Suc)

lemma marker_first:
  assumes "\<not> contains mime '';base64,''" and i: "i < length mime"
  shows "\<not> has_prefix '';base64,'' (drop i (mime @ '';base64,'' @ enc))"
proof
  let ?m = "'';base64,''"
  assume p: "has_prefix ?m (drop i (mime @ ?m @ enc))"
  then obtain r where r: "drop i mime @ ?m @ enc = ?m @ r" using i by (auto simp: has_prefix_iff)
  show False
  proof (cases "length mime - i < 8")
    case True
    let ?k = "length mime - i"
    have "(drop i mime @ ?m @ enc) ! ?k = CHR '';''" by (simp add: nth_append)
    then have "(?m @ r) ! ?k = CHR '';''" by (simp only: r)
    moreover have "(?m @ r) ! ?k = ?m ! ?k" using True by (subst nth_append) simp
    ultimately have "?m ! ?k = CHR '';''" by simp
    from semicolon_once [OF True this] i show False by simp
  next
    case False
    then have "take 8 (drop i mime @ ?m @ enc) = take 8 (drop i mime)" by (subst take_append) simp
    moreover have "take 8 (?m @ r) = ?m" by simp
    ultimately have "take 8 (drop i mime) = ?m" by (simp only: r)
    moreover have "take i mime @ take 8 (drop i mime) @ drop 8 (drop i mime) = mime"
      by (simp only: append_take_drop_id)
    ultimately have "mime = take i mime @ ?m @ drop 8 (drop i mime)" by simp
    with assms(1) show False unfolding contains_iff by blast
  qed
qed

lemma cut_marker:
  "\<not> contains mime '';base64,'' \<Longrightarrow> cut_at (mime @ '';base64,'' @ enc) '';base64,'' = Some (mime, enc)"
  by (rule cut_at_first) (use marker_first in auto)

lemma part_from_data_url:
  assumes "\<not> contains (mime_type p) '';base64,''" "mime_type p \<noteq> []" "part_data p \<noteq> []"
  shows "part_from_url typ (data_url p) =
    empty_part\<lparr>part_type := typ, mime_type := mime_type p, part_data := part_data p\<rparr>"
proof -
  have "strip_prefix ''data:'' (''data:'' @ mime_type p @ '';base64,'' @ b64_encode (part_data p)) =
      Some (mime_type p @ '';base64,'' @ b64_encode (part_data p))"
    by (rule strip_prefix_append)
  then show ?thesis
    using assms cut_marker [OF assms(1), of "b64_encode (part_data p)"]
    by (simp add: part_from_url_def data_url_def)
qed

lemma data_url_nonempty [simp]: "data_url p = [] \<longleftrightarrow> part_data p = [] \<or> mime_type p = []"
  by (simp add: data_url_def)

lemma part_from_plain_url:
  "\<not> has_prefix ''data:'' uri \<Longrightarrow> part_from_url typ uri = empty_part\<lparr>part_type := typ, part_uri := uri\<rparr>"
proof -
  assume "\<not> has_prefix ''data:'' uri"
  then have "strip_prefix ''data:'' uri = None"
    unfolding has_prefix_iff strip_prefix_Some [symmetric] by simp
  then show ?thesis by (simp add: part_from_url_def)
qed

lemmas part_defs = new_text_part_def new_image_part_def new_image_part_uri_def new_document_part_def
  empty_part_def
lemmas block_defs = unmarshal_block_def pointer_field_def str_field_def raw_field_def omit_empty_def

lemma unmarshal_text_block:
  "unmarshal_block (text_block t) = Inr \<lparr>btype = ''text'', btext = t, image_url = None, bfile = None\<rparr>"
  by (simp add: text_block_def block_defs)

lemma block_part_text [simp]:
  "block_part \<lparr>btype = ''text'', btext = t, image_url = None, bfile = None\<rparr> = [new_text_part t]"
  by (simp add: block_part_def)

text \<open>One part survives the wire, and is a text block only if it was a text part.\<close>

lemma part_block_roundtrip:
  assumes "part_ok p"
  shows "\<exists>j b. part_block p = [j] \<and> unmarshal_block j = Inr b \<and> block_part b = [p] \<and>
    (btype b = ''text'' \<longleftrightarrow> part_type p = ''text'') \<and> (btype b = ''text'' \<longrightarrow> btext b = part_text p)"
  using assms unfolding part_ok_def
proof (elim disjE exE conjE)
  fix t assume "p = new_text_part t"
  then show ?thesis by (simp add: part_block_def unmarshal_text_block part_defs)
next
  fix mime d assume p: "p = new_image_part mime d" and m: "mime \<noteq> []" "\<not> contains mime '';base64,''" "d \<noteq> []"
  then have "part_from_url ''image'' (data_url p) = p"
    by (subst part_from_data_url) (simp_all add: part_defs)
  with p show ?thesis by (simp add: part_block_def block_defs block_part_def part_defs)
next
  fix mime d assume p: "p = new_document_part mime d" and m: "mime \<noteq> []" "\<not> contains mime '';base64,''" "d \<noteq> []"
  then have "part_from_url ''document'' (data_url p) = p"
    by (subst part_from_data_url) (simp_all add: part_defs)
  with p m show ?thesis by (simp add: part_block_def block_defs block_part_def part_defs)
next
  fix uri assume p: "p = new_image_part_uri uri" and "uri \<noteq> []" "\<not> has_prefix ''data:'' uri"
  then show ?thesis
    by (simp add: part_block_def block_defs block_part_def part_defs part_from_plain_url)
next
  fix uri assume p: "p = empty_part\<lparr>part_type := ''document'', part_uri := uri\<rparr>" and "uri \<noteq> []"
  then show ?thesis
    by (simp add: part_block_def block_defs block_part_def part_defs)
qed

lemma part_blocks_roundtrip:
  assumes "list_all part_ok ps"
  shows "\<exists>bs. result_map unmarshal_block (concat (map part_block ps)) = Inr bs \<and>
    concat (map block_part bs) = ps \<and> length bs = length ps \<and>
    (\<forall>i < length ps. (btype (bs ! i) = ''text'' \<longleftrightarrow> part_type (ps ! i) = ''text'') \<and>
       (btype (bs ! i) = ''text'' \<longrightarrow> btext (bs ! i) = part_text (ps ! i)))"
  using assms
proof (induction ps)
  case Nil
  then show ?case by simp
next
  case (Cons p ps)
  then obtain bs where bs: "result_map unmarshal_block (concat (map part_block ps)) = Inr bs"
      "concat (map block_part bs) = ps" "length bs = length ps"
      "\<forall>i < length ps. (btype (bs ! i) = ''text'' \<longleftrightarrow> part_type (ps ! i) = ''text'') \<and>
       (btype (bs ! i) = ''text'' \<longrightarrow> btext (bs ! i) = part_text (ps ! i))" by auto
  from Cons.prems part_block_roundtrip [of p] obtain j b where
    j: "part_block p = [j]" "unmarshal_block j = Inr b" "block_part b = [p]"
    "btype b = ''text'' \<longleftrightarrow> part_type p = ''text''" "btype b = ''text'' \<longrightarrow> btext b = part_text p" by auto
  show ?case
    using j bs by (intro exI [of _ "b # bs"]) (auto simp: nth_Cons split: nat.splits)
qed

text \<open>
  What comes back: a leading text part of a message without content becomes its content.
\<close>

definition wire_split :: "message \<Rightarrow> string \<times> message_part list" where
  "wire_split m =
     (if content m \<noteq> [] then (content m, parts m)
      else case parts m of [] \<Rightarrow> ([], [])
           | p # ps \<Rightarrow> if part_type p = ''text'' then (part_text p, ps) else ([], p # ps))"

lemma content_blocks_roundtrip:
  assumes ok: "list_all part_ok (parts m)"
  shows "unmarshal_content (Some (JArr (content_blocks m))) = Inr (wire_split m)"
proof -
  from part_blocks_roundtrip [OF ok] obtain bs where
    bs: "result_map unmarshal_block (concat (map part_block (parts m))) = Inr bs"
      "concat (map block_part bs) = parts m" "length bs = length (parts m)"
    and ty: "\<And>i. i < length (parts m) \<Longrightarrow> btype (bs ! i) = ''text'' \<longleftrightarrow> part_type (parts m ! i) = ''text''"
    and tx: "\<And>i. i < length (parts m) \<Longrightarrow> btype (bs ! i) = ''text'' \<Longrightarrow> btext (bs ! i) = part_text (parts m ! i)"
    by blast
  show ?thesis
  proof (cases "content m = []")
    case False
    with bs show ?thesis
      by (simp add: unmarshal_content_def content_blocks_def unmarshal_text_block wire_split_def)
  next
    case True
    show ?thesis
    proof (cases bs)
      case Nil
      with True bs show ?thesis
        by (simp add: unmarshal_content_def content_blocks_def wire_split_def)
    next
      case (Cons b bs')
      with bs obtain p ps where ps: "parts m = p # ps" by (cases "parts m") auto
      have "part_ok p" using ok ps by simp
      have t0: "btype b = ''text'' \<longleftrightarrow> part_type p = ''text''" using ty [of 0] Cons ps by simp
      have x0: "btype b = ''text'' \<Longrightarrow> btext b = part_text p" using tx [of 0] Cons ps by simp
      have "block_part b = [new_text_part (btext b)]" if "btype b = ''text''"
        using that by (simp add: block_part_def)
      then have "btype b = ''text'' \<Longrightarrow> concat (map block_part bs') = ps"
        using bs(2) Cons ps by simp
      with True bs Cons ps t0 x0 show ?thesis
        by (auto simp: unmarshal_content_def content_blocks_def wire_split_def)
    qed
  qed
qed

lemma tool_calls_roundtrip [simp]:
  "result_map unmarshal_tool_call (map tool_call_json ts) = Inr ts"
  by (induction ts) simp_all

lemma elements_tail:
  "elements n (raw_field ''tool_calls'' ((''role'', r) # (''content'', c) # tail_members m)) =
     Inr (map tool_call_json (tool_calls m))"
  "elements n (raw_field ''tool_calls'' ((''role'', r) # tail_members m)) =
     Inr (map tool_call_json (tool_calls m))"
  by (simp_all add: raw_field_def tail_members_def)

lemmas wire_defs = str_field_def raw_field_def tail_members_def

lemma unmarshal_marshal:
  assumes "list_all part_ok (parts m)"
  shows "unmarshal_message m0 (marshal_message m) =
    Inr (m0\<lparr>role := role m, content := fst (wire_split m), parts := snd (wire_split m),
      tool_calls := tool_calls m, tool_call_id := tool_call_id m, msg_name := msg_name m\<rparr>)"
proof (cases "parts m = []")
  case False
  then have "marshal_message m =
      JObj ((''role'', JStr (role m)) # (''content'', JArr (content_blocks m)) # tail_members m)"
    by (simp add: marshal_message_def marshal_multimodal_def)
  moreover have "raw_field ''content'' ((''role'', JStr (role m)) # (''content'', JArr (content_blocks m)) # tail_members m) =
      Some (JArr (content_blocks m))"
    by (simp add: wire_defs)
  ultimately show ?thesis
    using content_blocks_roundtrip [OF assms]
    by (simp add: unmarshal_message_def elements_tail split_beta) (simp add: wire_defs)
next
  case True
  then show ?thesis
    by (simp add: marshal_message_def unmarshal_message_def unmarshal_content_def wire_split_def
        wire_defs)
qed

text \<open>A message in the form \<open>UnmarshalJSON\<close> produces.\<close>

definition wire_normal :: "message \<Rightarrow> bool" where
  "wire_normal m \<longleftrightarrow> list_all part_ok (parts m) \<and>
     (content m = [] \<longrightarrow> (case parts m of [] \<Rightarrow> True | p # _ \<Rightarrow> part_type p \<noteq> ''text''))"

lemma wire_split_normal: "wire_normal m \<Longrightarrow> wire_split m = (content m, parts m)"
  by (auto simp: wire_normal_def wire_split_def split: list.splits)

lemma unmarshal_marshal_normal:
  "wire_normal m \<Longrightarrow> unmarshal_message m0 (marshal_message m) =
    Inr (m0\<lparr>role := role m, content := content m, parts := parts m, tool_calls := tool_calls m,
      tool_call_id := tool_call_id m, msg_name := msg_name m\<rparr>)"
  by (simp add: unmarshal_marshal wire_split_normal wire_normal_def)

text \<open>The keys of the object a message is marshalled to.\<close>

fun object_keys :: "json \<Rightarrow> string list" where
  "object_keys (JObj ms) = map fst ms"
| "object_keys _ = []"

text \<open>
  A single text part without content comes back as plain content, so marshalling it again
  writes a string where the first text had an array.
\<close>

definition text_part_message :: message where
  "text_part_message = empty_message\<lparr>role := ''user'', parts := [new_text_part ''hi'']\<rparr>"

lemma text_part_not_wire_stable:
  "unmarshal_message empty_message (marshal_message text_part_message) =
     Inr (empty_message\<lparr>role := ''user'', content := ''hi''\<rparr>)"
  "marshal_message (empty_message\<lparr>role := ''user'', content := ''hi''\<rparr>) \<noteq> marshal_message text_part_message"
proof -
  have "list_all part_ok (parts text_part_message)"
    by (auto simp: text_part_message_def part_ok_def)
  then show "unmarshal_message empty_message (marshal_message text_part_message) =
     Inr (empty_message\<lparr>role := ''user'', content := ''hi''\<rparr>)"
    by (simp add: unmarshal_marshal)
      (simp add: text_part_message_def wire_split_def part_defs empty_message_def)
qed (simp add: marshal_message_def text_part_message_def empty_message_def marshal_multimodal_def content_blocks_def)

section \<open>Properties\<close>

text \<open>A message survives the hop over a JSON tree. Whatever its role, content, tool calls, ids and name,
  and for parts the constructors build (text, inline image or document bytes with a media type,
  references that are not data URLs), unmarshalling what \<open>MarshalJSON\<close> emits succeeds and
  restores every wire field, the inline bytes included; the only change is that a leading text
  part of a message without content becomes its content. The fields that are not on the wire
  keep the receiver's value.\<close>
theorem message_roundtrip:
  assumes "list_all part_ok (parts m)"
  shows "unmarshal_message m0 (marshal_message m) =
    Inr (m0\<lparr>role := role m, content := fst (wire_split m), parts := snd (wire_split m),
      tool_calls := tool_calls m, tool_call_id := tool_call_id m, msg_name := msg_name m\<rparr>)
    \<and> (wire_normal m \<longrightarrow> wire_split m = (content m, parts m))"
  using unmarshal_marshal [OF assms] wire_split_normal by blast

definition image_message :: message where
  "image_message = empty_message\<lparr>role := ''user'', content := ''look'',
     parts := [new_image_part ''image/png'' [0x89, 0x50], new_text_part ''and'',
       new_image_part_uri ''https://x/y''],
     tool_calls := [\<lparr>call_id = ''1'', call_type = ''function'', fn = \<lparr>fn_name = ''f'', arguments = ''{}''\<rparr>\<rparr>]\<rparr>"

lemma image_message_ok: "list_all part_ok (parts image_message)"
  by (auto intro!: part_ok_intros simp: image_message_def contains_def has_prefix_def)

theorem message_roundtrip_witness:
  "is_ok (unmarshal_message empty_message (marshal_message image_message)) \<and>
   wire_split image_message = (content image_message, parts image_message)"
  using message_roundtrip [OF image_message_ok, of empty_message] image_message_ok
  by (simp add: wire_normal_def image_message_def)

text \<open>The \<open>content\<close> key is missing on the wire exactly for an assistant message that has
  neither content nor parts and delegates to tool calls; every other message, a tool result with
  empty content included, carries it.\<close>
theorem content_key_on_wire:
  "''content'' \<in> set (object_keys (marshal_message m)) \<longleftrightarrow>
     \<not> (role m = ''assistant'' \<and> content m = [] \<and> parts m = [] \<and> tool_calls m \<noteq> [])"
  by (auto simp: marshal_message_def marshal_multimodal_def tail_members_def omit_empty_def)

text \<open>The prompt-side token count is the same for both accounting shapes: when the total is
  the sum of fresh input, output and cache traffic (Anthropic, Bedrock) it is input plus cache
  reads and writes, and when the total is prompt plus output with cached tokens a part of the
  prompt (OpenAI, Gemini) it is the prompt, cached tokens not counted twice.\<close>
theorem effective_input_tokens_shapes:
  assumes "0 \<le> input_tokens u" "0 \<le> output_tokens u" "0 \<le> cache_read_tokens u"
    "0 \<le> cache_write_tokens u" "0 < total_tokens u" "total_tokens u < 2 ^ 63"
  shows "(total_tokens u = input_tokens u + output_tokens u + cache_read_tokens u + cache_write_tokens u \<longrightarrow>
      effective_input_tokens u = input_tokens u + cache_read_tokens u + cache_write_tokens u) \<and>
    (total_tokens u = input_tokens u + output_tokens u \<longrightarrow> effective_input_tokens u = input_tokens u)"
  using assms by (auto simp: effective_input_tokens_def wrap64_def)

definition cached_usage :: message_usage where
  "cached_usage = \<lparr>input_tokens = 1000, output_tokens = 50, cache_read_tokens = 900,
     cache_write_tokens = 0, reasoning_tokens = 0, total_tokens = 1050\<rparr>"

theorem effective_input_tokens_shapes_witness: "effective_input_tokens cached_usage = 1000"
  using effective_input_tokens_shapes [of cached_usage] by (simp add: cached_usage_def)

end
