(* ===== verification/Registry.thy ===== *)
theory Registry
  imports Json "HOL-Library.AList" "HOL-Library.List_Lexorder" "HOL-Library.Char_ord"
begin

text \<open>
  The tool registry of tools/registry.go: a map from names to tools with a memoised, sorted
  list of definitions. The Go map is an association list with distinct keys; each method is one
  critical section of the registry's lock, except \<open>ToolDefs\<close>, whose read-locked fast path and
  write-locked slow path are two, so that operations of other goroutines can fall in between.
\<close>

section \<open>State and operations\<close>

text \<open>\<open>Tool\<close>: the methods of the interface; \<open>llm.ToolDef\<close> with its function part.\<close>

record 'run tool =
  tool_name :: string
  tool_desc :: string
  tool_params :: json
  tool_run :: 'run

record tool_def =
  def_type :: string
  def_name :: string
  def_desc :: string
  def_params :: json

record 'run registry =
  tools :: "(string \<times> 'run tool) list"
  defs_cache :: "tool_def list option"

definition new_registry :: "'run registry" where
  "new_registry = \<lparr>tools = [], defs_cache = None\<rparr>"

definition register :: "'run tool \<Rightarrow> 'run registry \<Rightarrow> 'run registry" where
  "register t r = r\<lparr>tools := AList.update (tool_name t) t (tools r), defs_cache := None\<rparr>"

definition unregister :: "string list \<Rightarrow> 'run registry \<Rightarrow> 'run registry" where
  "unregister names r = r\<lparr>tools := foldl (\<lambda>ts n. AList.delete n ts) (tools r) names, defs_cache := None\<rparr>"

definition get_tool :: "'run registry \<Rightarrow> string \<Rightarrow> 'run tool option" where
  "get_tool r n = map_of (tools r) n"

definition list_tools :: "'run registry \<Rightarrow> 'run tool list" where
  "list_tools r = map snd (tools r)"

text \<open>\<open>Filter\<close> walks the requested names, \<open>Without\<close> the registered tools.\<close>

definition filter_registry :: "string list \<Rightarrow> 'run registry \<Rightarrow> 'run registry" where
  "filter_registry names r =
     foldl (\<lambda>c n. case map_of (tools r) n of None \<Rightarrow> c | Some t \<Rightarrow> c\<lparr>tools := AList.update n t (tools c)\<rparr>)
       new_registry names"

definition without_registry :: "string list \<Rightarrow> 'run registry \<Rightarrow> 'run registry" where
  "without_registry names r =
     foldl (\<lambda>c (n, t). if n \<in> set names then c else c\<lparr>tools := AList.update n t (tools c)\<rparr>)
       new_registry (tools r)"

definition def_of :: "'run tool \<Rightarrow> tool_def" where
  "def_of t = \<lparr>def_type = ''function'', def_name = tool_name t, def_desc = tool_desc t, def_params = tool_params t\<rparr>"

definition compute_defs :: "(string \<times> 'run tool) list \<Rightarrow> tool_def list" where
  "compute_defs ts = map (\<lambda>n. def_of (the (map_of ts n))) (sort (map fst ts))"

text \<open>
  \<open>ToolDefs\<close>: the fast path returns the cache when there is one, the slow path checks again
  under the write lock and fills it.
\<close>

definition defs_fast :: "'run registry \<Rightarrow> tool_def list option" where
  "defs_fast r = defs_cache r"

definition defs_slow :: "'run registry \<Rightarrow> 'run registry \<times> tool_def list" where
  "defs_slow r =
     (case defs_cache r of
        Some ds \<Rightarrow> (r, ds)
      | None \<Rightarrow> let ds = compute_defs (tools r) in (r\<lparr>defs_cache := Some ds\<rparr>, ds))"

definition tool_defs :: "'run registry \<Rightarrow> 'run registry \<times> tool_def list" where
  "tool_defs r = (case defs_fast r of Some ds \<Rightarrow> (r, ds) | None \<Rightarrow> defs_slow r)"

section \<open>Lookup\<close>

lemma get_new [simp]: "get_tool new_registry n = None"
  by (simp add: get_tool_def new_registry_def)

lemma get_register: "get_tool (register t r) n = (if n = tool_name t then Some t else get_tool r n)"
  by (simp add: get_tool_def register_def update_conv')

lemma map_of_deletes:
  "map_of (foldl (\<lambda>ts n. AList.delete n ts) ts names) n = (if n \<in> set names then None else map_of ts n)"
  by (induction names arbitrary: ts) (auto simp: delete_conv')

lemma get_unregister: "get_tool (unregister ns r) n = (if n \<in> set ns then None else get_tool r n)"
  by (simp add: get_tool_def unregister_def map_of_deletes)

text \<open>
  The interface the applications use. A lookup is decided by the last operation that names the
  tool; operations on other names do not matter.
\<close>

datatype 't registry_op = Reg 't | Unreg "string list"

locale named_registry =
  fixes empty :: 'r and put :: "'t \<Rightarrow> 'r \<Rightarrow> 'r" and remove :: "string list \<Rightarrow> 'r \<Rightarrow> 'r"
    and look :: "'r \<Rightarrow> string \<Rightarrow> 't option" and name :: "'t \<Rightarrow> string"
  assumes look_empty: "look empty n = None"
    and look_put: "look (put t r) n = (if n = name t then Some t else look r n)"
    and look_remove: "look (remove ns r) n = (if n \<in> set ns then None else look r n)"
begin

fun perform :: "'t registry_op \<Rightarrow> 'r \<Rightarrow> 'r" where
  "perform (Reg t) r = put t r"
| "perform (Unreg ns) r = remove ns r"

fun decides :: "string \<Rightarrow> 't registry_op \<Rightarrow> 't option option" where
  "decides n (Reg t) = (if n = name t then Some (Some t) else None)"
| "decides n (Unreg ns) = (if n \<in> set ns then Some None else None)"

lemma look_perform: "look (perform p r) n = (case decides n p of None \<Rightarrow> look r n | Some x \<Rightarrow> x)"
  by (cases p) (auto simp: look_put look_remove)

lemma look_history:
  "look (foldl (\<lambda>r p. perform p r) r ops) n =
     (case List.map_filter (decides n) ops of [] \<Rightarrow> look r n | x # xs \<Rightarrow> last (x # xs))"
  by (induction ops arbitrary: r) (auto simp: look_perform map_filter_simps split: list.splits option.splits)

lemma look_put_other: "n \<noteq> name t \<Longrightarrow> look (put t r) n = look r n"
  by (simp add: look_put)

end

interpretation reg: named_registry new_registry register unregister get_tool tool_name
  by unfold_locales (simp_all add: get_register get_unregister)

section \<open>Invariant\<close>

text \<open>
  Keys are distinct and are the tools' names, and a cached definition list is the one the
  current tools give.
\<close>

definition keys_ok :: "(string \<times> 'run tool) list \<Rightarrow> bool" where
  "keys_ok ts \<longleftrightarrow> distinct (map fst ts) \<and> list_all (\<lambda>(n, t). n = tool_name t) ts"

definition registry_ok :: "'run registry \<Rightarrow> bool" where
  "registry_ok r \<longleftrightarrow> keys_ok (tools r) \<and>
     (case defs_cache r of None \<Rightarrow> True | Some ds \<Rightarrow> ds = compute_defs (tools r))"

lemma set_update_subset: "set (AList.update k v ts) \<subseteq> insert (k, v) (set ts)"
  by (induction ts) auto

lemma keys_ok_update:
  assumes "keys_ok ts" and "n = tool_name t"
  shows "keys_ok (AList.update n t ts)"
  using assms set_update_subset [of n t ts]
  by (fastforce simp: keys_ok_def distinct_update list_all_iff)

lemma set_delete_subset: "set (AList.delete k ts) \<subseteq> set ts"
  by (induction ts) auto

lemma keys_ok_delete: "keys_ok ts \<Longrightarrow> keys_ok (AList.delete n ts)"
  using distinct_delete [of ts n] set_delete_subset [of n ts] by (auto simp: keys_ok_def list_all_iff)

lemma keys_ok_deletes: "keys_ok ts \<Longrightarrow> keys_ok (foldl (\<lambda>ts n. AList.delete n ts) ts ns)"
  by (induction ns arbitrary: ts) (simp_all add: keys_ok_delete)

lemma keys_ok_name: "keys_ok ts \<Longrightarrow> map_of ts n = Some t \<Longrightarrow> tool_name t = n"
  by (auto simp: keys_ok_def list_all_iff dest!: map_of_SomeD)

lemma new_ok: "registry_ok new_registry"
  by (simp add: registry_ok_def new_registry_def keys_ok_def)

lemma register_ok: "registry_ok r \<Longrightarrow> registry_ok (register t r)"
  by (simp add: registry_ok_def register_def keys_ok_update)

lemma unregister_ok: "registry_ok r \<Longrightarrow> registry_ok (unregister ns r)"
  by (simp add: registry_ok_def unregister_def keys_ok_deletes)

lemma defs_slow_ok:
  assumes "registry_ok r"
  shows "registry_ok (fst (defs_slow r))" "snd (defs_slow r) = compute_defs (tools r)"
    "tools (fst (defs_slow r)) = tools r"
  using assms by (auto simp: defs_slow_def registry_ok_def Let_def split: option.splits)

lemma filter_registry_ok:
  assumes "registry_ok r"
  shows "registry_ok (filter_registry ns r) \<and> defs_cache (filter_registry ns r) = None"
proof -
  have "registry_ok c \<Longrightarrow> defs_cache c = None \<Longrightarrow>
      registry_ok (foldl (\<lambda>c n. case map_of (tools r) n of None \<Rightarrow> c
          | Some t \<Rightarrow> c\<lparr>tools := AList.update n t (tools c)\<rparr>) c ns) \<and>
      defs_cache (foldl (\<lambda>c n. case map_of (tools r) n of None \<Rightarrow> c
          | Some t \<Rightarrow> c\<lparr>tools := AList.update n t (tools c)\<rparr>) c ns) = None" for c
  proof (induction ns arbitrary: c)
    case (Cons n ns)
    show ?case
    proof (cases "map_of (tools r) n")
      case None
      with Cons show ?thesis by simp
    next
      case (Some t)
      then have "tool_name t = n" using assms keys_ok_name by (auto simp: registry_ok_def)
      then have "registry_ok (c\<lparr>tools := AList.update n t (tools c)\<rparr>)"
        using Cons.prems by (simp add: registry_ok_def keys_ok_update)
      with Cons Some show ?thesis by simp
    qed
  qed simp
  from this [OF new_ok] show ?thesis by (simp add: filter_registry_def new_registry_def)
qed

lemma get_filter:
  "get_tool (filter_registry ns r) n = (if n \<in> set ns then get_tool r n else None)"
proof -
  have "get_tool (foldl (\<lambda>c n. case map_of (tools r) n of None \<Rightarrow> c
      | Some t \<Rightarrow> c\<lparr>tools := AList.update n t (tools c)\<rparr>) c ns) n =
      (if n \<in> set ns \<and> map_of (tools r) n \<noteq> None then map_of (tools r) n else get_tool c n)" for c
    by (induction ns arbitrary: c) (auto simp: get_tool_def update_conv' split: option.splits)
  from this [of new_registry] show ?thesis
    using get_new [of n] by (cases "map_of (tools r) n") (auto simp: filter_registry_def get_tool_def)
qed

lemma without_loop:
  "foldl (\<lambda>c (n, t). if n \<in> N then c else c\<lparr>tools := AList.update n t (tools c)\<rparr>) c ts =
   c\<lparr>tools := foldl (\<lambda>us (n, t). AList.update n t us) (tools c) (filter (\<lambda>(n, t). n \<notin> N) ts)\<rparr>"
  by (induction ts arbitrary: c) auto

lemma update_fresh: "k \<notin> set (map fst ts) \<Longrightarrow> AList.update k v ts = ts @ [(k, v)]"
  by (induction ts) auto

lemma foldl_update_fresh:
  "distinct (map fst us @ map fst ts) \<Longrightarrow> foldl (\<lambda>us (n, t). AList.update n t us) us ts = us @ ts"
proof (induction ts arbitrary: us)
  case (Cons p ts)
  then show ?case by (cases p) (auto simp: update_fresh image_iff)
qed simp

lemma tools_without:
  assumes "keys_ok (tools r)"
  shows "without_registry ns r = \<lparr>tools = filter (\<lambda>(n, t). n \<notin> set ns) (tools r), defs_cache = None\<rparr>"
proof -
  have "distinct (map fst (filter (\<lambda>(n, t). n \<notin> set ns) (tools r)))"
    using assms by (simp add: keys_ok_def distinct_map_filter)
  then show ?thesis
    using foldl_update_fresh [of "[]" "filter (\<lambda>(n, t). n \<notin> set ns) (tools r)"]
    by (simp add: without_registry_def without_loop new_registry_def)
qed

lemma without_registry_ok: "registry_ok r \<Longrightarrow> registry_ok (without_registry ns r)"
  by (auto simp: tools_without registry_ok_def keys_ok_def list_all_iff distinct_map_filter)

lemma get_without:
  "keys_ok (tools r) \<Longrightarrow> get_tool (without_registry ns r) n = (if n \<in> set ns then None else get_tool r n)"
  using map_of_filter_fst [of "\<lambda>n. n \<notin> set ns" "tools r" n] by (simp add: tools_without get_tool_def)

section \<open>Reachable registries\<close>

text \<open>The steps goroutines take on a shared registry, in any order.\<close>

inductive registry_step :: "'run registry \<Rightarrow> 'run registry \<Rightarrow> bool" where
  "registry_step r (register t r)"
| "registry_step r (unregister ns r)"
| "registry_step r (fst (defs_slow r))"

inductive registry_reachable :: "'run registry \<Rightarrow> bool" where
  start: "registry_reachable new_registry"
| step: "registry_reachable r \<Longrightarrow> registry_step r r' \<Longrightarrow> registry_reachable r'"
| filtered: "registry_reachable r \<Longrightarrow> registry_reachable (filter_registry ns r)"
| stripped: "registry_reachable r \<Longrightarrow> registry_reachable (without_registry ns r)"

lemma reachable_intros [intro]:
  "registry_reachable r \<Longrightarrow> registry_reachable (register t r)"
  "registry_reachable r \<Longrightarrow> registry_reachable (unregister ns r)"
  "registry_reachable r \<Longrightarrow> registry_reachable (fst (defs_slow r))"
  by (blast intro: registry_reachable.step registry_step.intros)+

inductive_cases registry_stepE: "registry_step r r'"

lemma registry_step_ok: "registry_step r r' \<Longrightarrow> registry_ok r \<Longrightarrow> registry_ok r'"
  by (elim registry_stepE) (simp_all add: register_ok unregister_ok defs_slow_ok)

lemma registry_reachable_ok: "registry_reachable r \<Longrightarrow> registry_ok r"
  by (induction rule: registry_reachable.induct)
     (auto simp: new_ok registry_step_ok filter_registry_ok without_registry_ok)

lemma compute_defs_names:
  assumes "keys_ok ts"
  shows "map def_name (compute_defs ts) = sort (map fst ts)"
proof -
  have "def_name (def_of (the (map_of ts n))) = n" if "n \<in> set (map fst ts)" for n
    using that keys_ok_name [OF assms, of n] by (cases "map_of ts n") (auto simp: def_of_def map_of_eq_None_iff)
  then have "map (\<lambda>n. def_name (def_of (the (map_of ts n)))) (sort (map fst ts)) = map (\<lambda>n. n) (sort (map fst ts))"
    by (intro map_cong) simp_all
  then show ?thesis by (simp add: compute_defs_def o_def)
qed

lemma compute_defs_cong:
  assumes "keys_ok ts" "keys_ok us" "map_of ts = map_of us"
  shows "compute_defs ts = compute_defs us"
proof -
  have "set (map fst ts) = set (map fst us)"
    using assms(3) by (metis dom_map_of_conv_image_fst list.set_map)
  then have "sort (map fst ts) = sort (map fst us)"
    using assms by (intro sorted_distinct_set_unique) (simp_all add: keys_ok_def)
  then show ?thesis by (simp add: compute_defs_def assms(3))
qed

section \<open>Properties\<close>

text \<open>C37: The memoised definitions are never stale. In any registry the operations lead to,
  however registrations, removals and the two halves of \<open>ToolDefs\<close> of different goroutines
  interleave, the fast path (when it returns) and the slow path return exactly the definitions
  of the tools registered at that moment, sorted strictly by name, one per tool.\<close>
theorem tool_defs_coherent:
  assumes "registry_reachable r"
  shows "(\<forall>ds. defs_fast r = Some ds \<longrightarrow> ds = compute_defs (tools r)) \<and>
    snd (defs_slow r) = compute_defs (tools r) \<and> snd (tool_defs r) = compute_defs (tools r) \<and>
    sorted_wrt (<) (map def_name (compute_defs (tools r))) \<and>
    set (map def_name (compute_defs (tools r))) = {n. get_tool r n \<noteq> None}"
proof -
  have ok: "registry_ok r" by (rule registry_reachable_ok [OF assms])
  then have k: "keys_ok (tools r)" by (simp add: registry_ok_def)
  have fast: "defs_fast r = Some ds \<Longrightarrow> ds = compute_defs (tools r)" for ds
    using ok by (simp add: registry_ok_def defs_fast_def)
  then have "snd (tool_defs r) = compute_defs (tools r)"
    using defs_slow_ok(2) [OF ok] by (auto simp: tool_defs_def split: option.splits)
  moreover have "sorted_wrt (<) (sort (map fst (tools r)))"
    using k by (simp add: keys_ok_def strict_sorted_iff)
  moreover have "set (map fst (tools r)) = {n. get_tool r n \<noteq> None}"
    by (auto simp: get_tool_def map_of_eq_None_iff)
  ultimately show ?thesis
    using fast defs_slow_ok(2) [OF ok] by (auto simp: compute_defs_names [OF k])
qed

definition demo_tool :: "string \<Rightarrow> unit tool" where
  "demo_tool n = \<lparr>tool_name = n, tool_desc = ''d'', tool_params = JObj [], tool_run = ()\<rparr>"

theorem tool_defs_coherent_witness:
  "snd (tool_defs (register (demo_tool ''a'') (fst (defs_slow (register (demo_tool ''b'') new_registry))))) =
     [def_of (demo_tool ''a''), def_of (demo_tool ''b'')]"
proof -
  let ?r = "register (demo_tool ''a'') (fst (defs_slow (register (demo_tool ''b'') new_registry)))"
  have "registry_reachable ?r"
    by (intro reachable_intros registry_reachable.start)
  from tool_defs_coherent [OF this] have "snd (tool_defs ?r) = compute_defs (tools ?r)" by blast
  also have "\<dots> = [def_of (demo_tool ''a''), def_of (demo_tool ''b'')]"
    by (simp add: compute_defs_def register_def defs_slow_def new_registry_def demo_tool_def Let_def
        less_char_def less_eq_char_def)
  finally show ?thesis .
qed

text \<open>The prompt prefix is stable. Two registries with the same tools, whatever the order
  of their histories, serve identical definition lists.\<close>
theorem tool_defs_order_free:
  assumes "registry_reachable r" "registry_reachable s" "get_tool r = get_tool s"
  shows "snd (tool_defs r) = snd (tool_defs s)"
proof -
  have ok: "registry_ok r" "registry_ok s" using assms(1,2) registry_reachable_ok by blast+
  have "snd (tool_defs q) = compute_defs (tools q)" if "registry_ok q" for q :: "'a registry"
    using that defs_slow_ok(2) [OF that] by (auto simp: tool_defs_def defs_fast_def registry_ok_def split: option.splits)
  moreover have "map_of (tools r) = map_of (tools s)"
    using assms(3) by (simp add: get_tool_def fun_eq_iff)
  ultimately show ?thesis
    using ok compute_defs_cong [of "tools r" "tools s"] by (simp add: registry_ok_def)
qed

theorem tool_defs_order_free_witness:
  "snd (tool_defs (register (demo_tool ''a'') (register (demo_tool ''b'') new_registry))) =
   snd (tool_defs (register (demo_tool ''b'') (register (demo_tool ''a'') new_registry)))"
  by (rule tool_defs_order_free, (intro reachable_intros registry_reachable.start)+)
     (auto simp: fun_eq_iff get_register demo_tool_def)

text \<open>Restriction and removal of tools. A restricted registry holds exactly the named tools
  of the original, a registry without some names exactly the others, and removing names drops
  those and keeps the rest, on every reachable registry.\<close>
theorem registry_restriction:
  assumes "registry_reachable r"
  shows "get_tool (filter_registry ns r) n = (if n \<in> set ns then get_tool r n else None) \<and>
    get_tool (without_registry ns r) n = (if n \<in> set ns then None else get_tool r n) \<and>
    get_tool (unregister ns r) n = (if n \<in> set ns then None else get_tool r n)"
  using registry_reachable_ok [OF assms]
  by (simp only: get_filter get_unregister get_without registry_ok_def simp_thms)

theorem registry_restriction_witness:
  "get_tool (without_registry [''x''] (register (demo_tool ''y'') new_registry)) ''y'' = Some (demo_tool ''y'')"
  using registry_restriction [OF reachable_intros(1) [OF registry_reachable.start],
      of "[''x'']" "demo_tool ''y''" "''y''"]
  by (simp add: get_register) (simp add: demo_tool_def)

end
