(* ===== verification/Errors.thy ===== *)
theory Errors
  imports Utf8
begin

text \<open>
  The errors of package llm: the chain of wrapped transport errors and its classification
  (llm/neterr.go), and the structured API error with its predicates, the context-limit scan of
  its body and the Retry-After header (llm/apierror.go).
\<close>

section \<open>API errors\<close>

record api_error =
  status_code :: int
  api_body :: string
  retry_after :: int

text \<open>A nil \<open>*APIError\<close> is \<open>None\<close>.\<close>

definition api_error_text :: "api_error option \<Rightarrow> string" where
  "api_error_text e =
     (case e of None \<Rightarrow> []
      | Some a \<Rightarrow> if api_body a = [] then ''HTTP '' @ itoa (status_code a)
                  else ''HTTP '' @ itoa (status_code a) @ '': '' @ api_body a)"

definition is_rate_limited :: "api_error option \<Rightarrow> bool" where
  "is_rate_limited e \<longleftrightarrow> (case e of None \<Rightarrow> False | Some a \<Rightarrow> status_code a = 429)"

definition is_server_error :: "api_error option \<Rightarrow> bool" where
  "is_server_error e \<longleftrightarrow> (case e of None \<Rightarrow> False | Some a \<Rightarrow> 500 \<le> status_code a \<and> status_code a < 600)"

definition rune_text :: "string \<Rightarrow> nat list" where
  "rune_text s = map of_char s"

definition overflow_markers :: "string list" where
  "overflow_markers = [''exceeds the available context'', ''exceed the available context'',
     ''maximum context length'', ''context length'', ''context size'', ''context window'']"

definition is_context_overflow :: "api_error option \<Rightarrow> bool" where
  "is_context_overflow e =
     (case e of None \<Rightarrow> False
      | Some a \<Rightarrow>
          if status_code a \<noteq> 400 \<and> status_code a \<noteq> 413 then False
          else let b = lower_runes (api_body a) in
               if contains b (rune_text ''context_length_exceeded'') then True
               else if \<not> contains b (rune_text ''context'') then False
               else list_ex (\<lambda>m. contains b (rune_text m)) overflow_markers)"

text \<open>
  \<open>ctxLimitRe\<close> on runes. Letters match without regard to case (with the two further characters
  that fold to k and s). The lazy gap of at most 24 non-digits has to end at the first digit, the
  group takes the whole run of digits and commas (what follows it has to be white space or the
  t of "tokens"), and the leftmost start wins.
\<close>

definition fold_rune :: "nat \<Rightarrow> nat" where
  "fold_rune r = (if 65 \<le> r \<and> r \<le> 90 then r + 32 else if r = 0x212A then 107 else if r = 0x17F then 115 else r)"

fun match_text :: "string \<Rightarrow> nat list \<Rightarrow> nat list option" where
  "match_text [] rs = Some rs"
| "match_text (c # cs) [] = None"
| "match_text (c # cs) (r # rs) = (if fold_rune r = of_char c then match_text cs rs else None)"

fun match_any :: "string list \<Rightarrow> nat list \<Rightarrow> nat list option" where
  "match_any [] rs = None"
| "match_any (p # ps) rs = (case match_text p rs of Some r \<Rightarrow> Some r | None \<Rightarrow> match_any ps rs)"

definition limit_phrases :: "string list" where
  "limit_phrases = [''available context size'', ''maximum context length'', ''context length'',
     ''context size'', ''context window'']"

definition digit_rune :: "nat \<Rightarrow> bool" where
  "digit_rune r \<longleftrightarrow> 48 \<le> r \<and> r \<le> 57"

fun skip_gap :: "nat \<Rightarrow> nat list \<Rightarrow> nat list option" where
  "skip_gap n [] = None"
| "skip_gap n (r # rs) =
     (if digit_rune r then Some (r # rs) else case n of 0 \<Rightarrow> None | Suc m \<Rightarrow> skip_gap m rs)"

definition regex_space :: "nat \<Rightarrow> bool" where
  "regex_space r \<longleftrightarrow> r = 9 \<or> r = 10 \<or> r = 12 \<or> r = 13 \<or> r = 32"

definition match_limit_at :: "nat list \<Rightarrow> nat list option" where
  "match_limit_at rs =
     (case match_any limit_phrases rs of
        None \<Rightarrow> None
      | Some rest \<Rightarrow>
          (case skip_gap 24 rest of
             None \<Rightarrow> None
           | Some ds \<Rightarrow>
               let num = takeWhile (\<lambda>r. digit_rune r \<or> r = 44) ds;
                   after = dropWhile regex_space (dropWhile (\<lambda>r. digit_rune r \<or> r = 44) ds)
               in if match_text ''tokens'' after = None then None else Some num))"

fun find_limit :: "nat list \<Rightarrow> nat list option" where
  "find_limit [] = None"
| "find_limit (r # rs) = (case match_limit_at (r # rs) of Some n \<Rightarrow> Some n | None \<Rightarrow> find_limit rs)"

definition context_limit :: "api_error option \<Rightarrow> int option" where
  "context_limit e =
     (case e of None \<Rightarrow> None
      | Some a \<Rightarrow>
          (case find_limit (runes (api_body a)) of
             None \<Rightarrow> None
           | Some num \<Rightarrow>
               (case atoi (map char_of (filter (\<lambda>r. r \<noteq> 44) num)) of
                  None \<Rightarrow> None
                | Some n \<Rightarrow> if n \<le> 0 then None else Some n)))"

text \<open>
  \<open>parseRetryAfter\<close>: the header (empty when absent) and \<open>until\<close>, which stands for
  \<open>http.ParseTime\<close> followed by \<open>time.Until\<close>. Durations are nanoseconds in an int64.
\<close>

definition second :: int where "second = 1000000000"

definition parse_retry_after :: "(string \<Rightarrow> int option) \<Rightarrow> string \<Rightarrow> int" where
  "parse_retry_after until header =
     (let v = trim_space header in
      if v = [] then 0
      else case atoi v of
             Some secs \<Rightarrow> if secs < 0 then 0 else wrap64 (secs * second)
           | None \<Rightarrow> (case until v of
                        Some d \<Rightarrow> if d < 0 then 0 else d
                      | None \<Rightarrow> 0))"

section \<open>Error chains\<close>

text \<open>
  The error values the client meets: the sentinels, the typed errors of the standard library
  with what they wrap, \<open>fmt.Errorf\<close> wrappings, and the two types of this package. \<open>NetOther\<close> is
  any other implementation of \<open>net.Error\<close>.
\<close>

datatype go_error =
    TextErr string
  | Canceled
  | DeadlineExceeded
  | EOFErr
  | UnexpectedEOFErr
  | DNSError string bool
  | TLSVerify go_error
  | Errno nat
  | SyscallErr go_error
  | OpErr go_error
  | UrlErr go_error
  | NetOther bool
  | Wrapped string go_error
  | ConnectErr string string string go_error
  | ApiErr api_error

fun unwrap :: "go_error \<Rightarrow> go_error option" where
  "unwrap (TLSVerify e) = Some e"
| "unwrap (SyscallErr e) = Some e"
| "unwrap (OpErr e) = Some e"
| "unwrap (UrlErr e) = Some e"
| "unwrap (Wrapped _ e) = Some e"
| "unwrap (ConnectErr _ _ _ e) = Some e"
| "unwrap _ = None"

text \<open>The chain \<open>errors.Is\<close> and \<open>errors.As\<close> walk.\<close>

fun chain :: "go_error \<Rightarrow> go_error list" where
  "chain (TLSVerify e) = TLSVerify e # chain e"
| "chain (SyscallErr e) = SyscallErr e # chain e"
| "chain (OpErr e) = OpErr e # chain e"
| "chain (UrlErr e) = UrlErr e # chain e"
| "chain (Wrapped s e) = Wrapped s e # chain e"
| "chain (ConnectErr a c h e) = ConnectErr a c h e # chain e"
| "chain e = [e]"

definition error_is :: "go_error \<Rightarrow> go_error \<Rightarrow> bool" where
  "error_is e target \<longleftrightarrow> target \<in> set (chain e)"

fun first_some :: "('a \<Rightarrow> 'b option) \<Rightarrow> 'a list \<Rightarrow> 'b option" where
  "first_some f [] = None"
| "first_some f (x # xs) = (case f x of Some y \<Rightarrow> Some y | None \<Rightarrow> first_some f xs)"

definition error_as :: "(go_error \<Rightarrow> 'a option) \<Rightarrow> go_error \<Rightarrow> 'a option" where
  "error_as f e = first_some f (chain e)"

definition ECONNRESET :: nat where "ECONNRESET = 104"
definition ECONNREFUSED :: nat where "ECONNREFUSED = 111"
definition EHOSTUNREACH :: nat where "EHOSTUNREACH = 113"
definition ENETUNREACH :: nat where "ENETUNREACH = 101"

text \<open>
  The \<open>Timeout\<close> method, \<open>None\<close> for a type without one. \<open>Errno\<close> answers for EAGAIN and
  ETIMEDOUT, the wrapping types pass the question to what they wrap.
\<close>

fun timeout_of :: "go_error \<Rightarrow> bool option" where
  "timeout_of DeadlineExceeded = Some True"
| "timeout_of (DNSError _ t) = Some t"
| "timeout_of (Errno n) = Some (n = 11 \<or> n = 110)"
| "timeout_of (SyscallErr e) = Some (timeout_of e = Some True)"
| "timeout_of (OpErr e) = Some (timeout_of e = Some True)"
| "timeout_of (UrlErr e) = Some (timeout_of e = Some True)"
| "timeout_of (NetOther t) = Some t"
| "timeout_of _ = None"

text \<open>The types that implement \<open>net.Error\<close> (a \<open>SyscallError\<close> lacks \<open>Temporary\<close>).\<close>

fun as_net_error :: "go_error \<Rightarrow> go_error option" where
  "as_net_error (SyscallErr e) = None"
| "as_net_error e = (if timeout_of e = None then None else Some e)"

fun as_dns :: "go_error \<Rightarrow> string option" where
  "as_dns (DNSError n _) = Some n"
| "as_dns _ = None"

fun as_tls :: "go_error \<Rightarrow> unit option" where
  "as_tls (TLSVerify _) = Some ()"
| "as_tls _ = None"

fun as_errno :: "go_error \<Rightarrow> nat option" where
  "as_errno (Errno n) = Some n"
| "as_errno _ = None"

fun as_url :: "go_error \<Rightarrow> go_error option" where
  "as_url (UrlErr e) = Some (UrlErr e)"
| "as_url _ = None"

definition errno_tag :: "nat \<Rightarrow> string option" where
  "errno_tag n =
     (if n = ECONNREFUSED then Some ''connection refused''
      else if n = EHOSTUNREACH then Some ''host unreachable''
      else if n = ENETUNREACH then Some ''network unreachable''
      else if n = ECONNRESET then Some ''connection reset''
      else None)"

text \<open>\<open>ClassifyTransportError\<close>; the empty tag means not a transport error.\<close>

definition classify :: "go_error \<Rightarrow> string" where
  "classify e =
     (case error_as as_dns e of
        Some n \<Rightarrow> ''no such host ('' @ n @ '')''
      | None \<Rightarrow>
     (case error_as as_tls e of
        Some _ \<Rightarrow> ''TLS certificate verification failed''
      | None \<Rightarrow>
     (case Option.bind (error_as as_errno e) errno_tag of
        Some t \<Rightarrow> t
      | None \<Rightarrow>
          if error_is e EOFErr \<or> error_is e UnexpectedEOFErr then ''connection closed''
          else if Option.bind (error_as as_net_error e) timeout_of = Some True then ''timed out''
          else if Option.bind (error_as as_url e) timeout_of = Some True then ''timed out''
          else [])))"

text \<open>\<open>FriendlyHTTPError\<close>; a nil error is \<open>None\<close>.\<close>

definition friendly_http_error :: "string \<Rightarrow> string \<Rightarrow> go_error option \<Rightarrow> go_error option" where
  "friendly_http_error endpoint hint err =
     (case err of None \<Rightarrow> None
      | Some e \<Rightarrow>
          if error_is e Canceled \<or> error_is e DeadlineExceeded then Some e
          else if classify e = [] then Some (Wrapped ''send request: '' e)
          else Some (ConnectErr endpoint (classify e) hint e))"

definition connect_error_text :: "string \<Rightarrow> string \<Rightarrow> string \<Rightarrow> string" where
  "connect_error_text endpoint category hint =
     ''couldn't reach the chat endpoint at '' @ endpoint @ '': '' @ category @ [CHR 10] @
     ''  is the server running and listening at that address?'' @
     (if hint \<noteq> [] then CHR 10 # hint else [])"

section \<open>Lemmas\<close>

lemma chain_self [simp]: "e \<in> set (chain e)" "chain e \<noteq> []"
  by (cases e, simp_all)+

lemma chain_unwrap: "chain e = e # (case unwrap e of None \<Rightarrow> [] | Some f \<Rightarrow> chain f)"
  by (cases e) simp_all

lemma first_some_None: "first_some f xs = None \<longleftrightarrow> (\<forall>x \<in> set xs. f x = None)"
  by (induction xs) (auto split: option.splits)

lemma error_is_wrapping:
  "error_is (Wrapped s e) EOFErr = error_is e EOFErr"
  "error_is (Wrapped s e) UnexpectedEOFErr = error_is e UnexpectedEOFErr"
  "error_is (ConnectErr a b c e) EOFErr = error_is e EOFErr"
  "error_is (ConnectErr a b c e) UnexpectedEOFErr = error_is e UnexpectedEOFErr"
  by (simp_all add: error_is_def)

lemma error_as_wrapping [simp]:
  "error_as as_dns (Wrapped s e) = error_as as_dns e"
  "error_as as_tls (Wrapped s e) = error_as as_tls e"
  "error_as as_errno (Wrapped s e) = error_as as_errno e"
  "error_as as_net_error (Wrapped s e) = error_as as_net_error e"
  "error_as as_url (Wrapped s e) = error_as as_url e"
  "error_as as_dns (ConnectErr a b c e) = error_as as_dns e"
  "error_as as_tls (ConnectErr a b c e) = error_as as_tls e"
  "error_as as_errno (ConnectErr a b c e) = error_as as_errno e"
  "error_as as_net_error (ConnectErr a b c e) = error_as as_net_error e"
  "error_as as_url (ConnectErr a b c e) = error_as as_url e"
  by (simp_all add: error_as_def)

text \<open>Plain wrapping is transparent to classification.\<close>

lemma classify_wrapping [simp]:
  "classify (Wrapped s e) = classify e" "classify (ConnectErr a b c e) = classify e"
  unfolding classify_def error_as_wrapping error_is_wrapping by (rule refl)+

lemma classify_deadline: "classify DeadlineExceeded = ''timed out''"
  by (simp add: classify_def error_as_def error_is_def)

lemma context_limit_positive: "context_limit e = Some n \<Longrightarrow> 0 < n \<and> n < 2 ^ 63"
  by (auto simp: context_limit_def atoi_def int64_range_def Let_def split: option.splits if_splits list.splits)

text \<open>The strings the expression matches, as a language.\<close>

definition folds_to :: "nat list \<Rightarrow> string \<Rightarrow> bool" where
  "folds_to rs s \<longleftrightarrow> map fold_rune rs = rune_text s"

definition limit_match :: "nat list \<Rightarrow> nat list \<Rightarrow> bool" where
  "limit_match rs num \<longleftrightarrow> (\<exists>phrase p gap sp tk post. p \<in> set limit_phrases \<and> folds_to phrase p \<and>
     rs = phrase @ gap @ num @ sp @ tk @ post \<and> length gap \<le> 24 \<and> list_all (\<lambda>r. \<not> digit_rune r) gap \<and>
     num \<noteq> [] \<and> digit_rune (hd num) \<and> list_all (\<lambda>r. digit_rune r \<or> r = 44) num \<and>
     list_all regex_space sp \<and> folds_to tk ''tokens'')"

lemma match_text_Some: "match_text s rs = Some r \<longleftrightarrow> (\<exists>m. rs = m @ r \<and> folds_to m s)"
proof (induction s rs rule: match_text.induct)
  case (3 c cs x xs)
  show ?case
  proof (cases "fold_rune x = of_char c")
    case True
    then have "match_text (c # cs) (x # xs) = Some r \<longleftrightarrow> (\<exists>m. xs = m @ r \<and> folds_to m cs)" using 3 by simp
    also have "\<dots> \<longleftrightarrow> (\<exists>m. x # xs = m @ r \<and> folds_to m (c # cs))"
    proof
      assume "\<exists>m. xs = m @ r \<and> folds_to m cs"
      then obtain m where "xs = m @ r" "folds_to m cs" by blast
      with True show "\<exists>m. x # xs = m @ r \<and> folds_to m (c # cs)"
        by (intro exI [of _ "x # m"]) (simp add: folds_to_def rune_text_def)
    next
      assume "\<exists>m. x # xs = m @ r \<and> folds_to m (c # cs)"
      then obtain m where "x # xs = m @ r" "folds_to m (c # cs)" by blast
      then show "\<exists>m. xs = m @ r \<and> folds_to m cs"
        by (cases m) (auto simp: folds_to_def rune_text_def)
    qed
    finally show ?thesis .
  next
    case False
    then show ?thesis by (auto simp: folds_to_def rune_text_def Cons_eq_append_conv)
  qed
qed (auto simp: folds_to_def rune_text_def)

lemma folds_to_length: "folds_to m s \<Longrightarrow> length m = length s"
  unfolding folds_to_def rune_text_def by (metis length_map)

text \<open>No phrase is a prefix of another, so at one position only one of them can match.\<close>

lemma phrases_prefix_free:
  "list_all (\<lambda>p. list_all (\<lambda>q. p = q \<or> \<not> has_prefix p q) limit_phrases) limit_phrases"
  by code_simp

lemma match_any_Some:
  "match_any ps rs = Some r \<Longrightarrow> \<exists>p m. p \<in> set ps \<and> rs = m @ r \<and> folds_to m p"
proof (induction ps)
  case (Cons p ps)
  then show ?case
    by (cases "match_text p rs") (auto simp: match_text_Some)
qed simp

lemma match_any_complete:
  assumes "p \<in> set ps" "folds_to m p" "rs = m @ r"
    and free: "\<And>q. q \<in> set ps \<Longrightarrow> q \<noteq> p \<Longrightarrow> \<not> has_prefix p q \<and> \<not> has_prefix q p"
  shows "match_any ps rs = Some r"
  using assms(1) free
proof (induction ps)
  case (Cons q ps)
  show ?case
  proof (cases "q = p")
    case True
    then have "match_text q rs = Some r" using assms(2,3) match_text_Some by blast
    then show ?thesis by simp
  next
    case False
    have "match_text q rs = None"
    proof (rule ccontr)
      assume "match_text q rs \<noteq> None"
      then obtain r' m' where m': "rs = m' @ r'" "folds_to m' q" using match_text_Some by blast
      then have "map fold_rune m @ map fold_rune r = map fold_rune m' @ map fold_rune r'"
        using assms(3) by (metis map_append)
      then have "rune_text p @ map fold_rune r = rune_text q @ map fold_rune r'"
        using assms(2) m'(2) by (simp add: folds_to_def)
      then obtain us where "rune_text p = rune_text q @ us \<or> rune_text q = rune_text p @ us"
        unfolding append_eq_append_conv2 by metis
      moreover have "inj (of_char :: char \<Rightarrow> nat)" by (rule inj_of_char)
      then have "rune_text a = rune_text b @ us \<Longrightarrow> has_prefix b a" for a b
        unfolding rune_text_def has_prefix_def
        by (metis append_eq_conv_conj inj_map_eq_map length_map take_map)
      ultimately have "has_prefix q p \<or> has_prefix p q" by blast
      with Cons.prems(2) [of q] False show False by simp
    qed
    with Cons False show ?thesis by simp
  qed
qed simp

lemma skip_gap_Some:
  "skip_gap n rs = Some r \<longleftrightarrow> (\<exists>g. rs = g @ r \<and> length g \<le> n \<and> list_all (\<lambda>x. \<not> digit_rune x) g \<and>
     r \<noteq> [] \<and> digit_rune (hd r))"
proof (induction n rs rule: skip_gap.induct)
  case (2 n x xs)
  show ?case
  proof (cases "digit_rune x")
    case True
    then show ?thesis by (auto simp: Cons_eq_append_conv)
  next
    case False
    show ?thesis
    proof (cases n)
      case 0
      with False show ?thesis by (auto simp: Cons_eq_append_conv)
    next
      case (Suc m)
      with 2 False have "skip_gap n (x # xs) = Some r \<longleftrightarrow>
          (\<exists>g. xs = g @ r \<and> length g \<le> m \<and> list_all (\<lambda>x. \<not> digit_rune x) g \<and> r \<noteq> [] \<and> digit_rune (hd r))"
        by simp
      also have "\<dots> \<longleftrightarrow> (\<exists>g. x # xs = g @ r \<and> length g \<le> n \<and> list_all (\<lambda>x. \<not> digit_rune x) g \<and> r \<noteq> [] \<and> digit_rune (hd r))"
      proof
        assume "\<exists>g. xs = g @ r \<and> length g \<le> m \<and> list_all (\<lambda>x. \<not> digit_rune x) g \<and> r \<noteq> [] \<and> digit_rune (hd r)"
        then obtain g where "xs = g @ r" "length g \<le> m" "list_all (\<lambda>x. \<not> digit_rune x) g" "r \<noteq> []" "digit_rune (hd r)"
          by blast
        with False Suc show "\<exists>g. x # xs = g @ r \<and> length g \<le> n \<and> list_all (\<lambda>x. \<not> digit_rune x) g \<and> r \<noteq> [] \<and> digit_rune (hd r)"
          by (intro exI [of _ "x # g"]) simp
      next
        assume "\<exists>g. x # xs = g @ r \<and> length g \<le> n \<and> list_all (\<lambda>x. \<not> digit_rune x) g \<and> r \<noteq> [] \<and> digit_rune (hd r)"
        with False Suc show "\<exists>g. xs = g @ r \<and> length g \<le> m \<and> list_all (\<lambda>x. \<not> digit_rune x) g \<and> r \<noteq> [] \<and> digit_rune (hd r)"
          by (auto simp: Cons_eq_append_conv)
      qed
      finally show ?thesis .
    qed
  qed
qed auto

lemma takeWhile_maximal:
  "list_all P xs \<Longrightarrow> (ys = [] \<or> \<not> P (hd ys)) \<Longrightarrow> takeWhile P (xs @ ys) = xs \<and> dropWhile P (xs @ ys) = ys"
  by (induction xs) (cases ys; auto)+

lemma match_limit_at_iff: "match_limit_at rs = Some num \<longleftrightarrow> limit_match rs num"
proof
  assume m: "match_limit_at rs = Some num"
  let ?d = "\<lambda>r. digit_rune r \<or> r = 44"
  from m obtain rest where r1: "match_any limit_phrases rs = Some rest"
    by (cases "match_any limit_phrases rs") (simp_all add: match_limit_at_def)
  from m r1 obtain ds where r2: "skip_gap 24 rest = Some ds"
    by (cases "skip_gap 24 rest") (simp_all add: match_limit_at_def)
  have "num = takeWhile ?d ds \<and> match_text ''tokens'' (dropWhile regex_space (dropWhile ?d ds)) \<noteq> None"
  proof (cases "match_text ''tokens'' (dropWhile regex_space (dropWhile ?d ds)) = None")
    case True
    have False using m unfolding match_limit_at_def r1 r2 option.case Let_def if_P [OF True] by simp
    then show ?thesis ..
  next
    case False
    then show ?thesis using m unfolding match_limit_at_def r1 r2 option.case Let_def if_not_P [OF False] by simp
  qed
  with r1 r2 have r: "match_any limit_phrases rs = Some rest" "skip_gap 24 rest = Some ds"
    "num = takeWhile ?d ds" "match_text ''tokens'' (dropWhile regex_space (dropWhile ?d ds)) \<noteq> None"
    by blast+
  from match_any_Some [OF r(1)] obtain p ph where p: "p \<in> set limit_phrases" "rs = ph @ rest" "folds_to ph p" by blast
  from r(2) obtain gap where g: "rest = gap @ ds" "length gap \<le> 24" "list_all (\<lambda>x. \<not> digit_rune x) gap"
    "ds \<noteq> []" "digit_rune (hd ds)" unfolding skip_gap_Some by blast
  from r(4) obtain tk post where t: "dropWhile regex_space (dropWhile ?d ds) = tk @ post" "folds_to tk ''tokens''"
    using match_text_Some by blast
  let ?sp = "takeWhile regex_space (dropWhile ?d ds)"
  have "ds = num @ ?sp @ tk @ post"
    by (metis r(3) t(1) takeWhile_dropWhile_id)
  moreover have "num \<noteq> []" "hd num = hd ds" using g(4,5) r(3) by (cases ds; simp)+
  moreover have "list_all ?d num" "list_all regex_space ?sp"
    by (auto simp: r(3) list_all_iff dest: set_takeWhileD)
  ultimately show "limit_match rs num"
    unfolding limit_match_def using p g t(2) by (intro exI [of _ ph] exI [of _ p] exI [of _ gap] exI [of _ ?sp]
        exI [of _ tk] exI [of _ post]) simp
next
  assume "limit_match rs num"
  then obtain ph p gap sp tk post where p: "p \<in> set limit_phrases" "folds_to ph p"
    and rs: "rs = ph @ gap @ num @ sp @ tk @ post" and g: "length gap \<le> 24" "list_all (\<lambda>r. \<not> digit_rune r) gap"
    and n: "num \<noteq> []" "digit_rune (hd num)" "list_all (\<lambda>r. digit_rune r \<or> r = 44) num"
    and s: "list_all regex_space sp" "folds_to tk ''tokens''"
    unfolding limit_match_def by blast
  obtain k tk' where tk: "tk = k # tk'" "fold_rune k = of_char (CHR ''t'')"
    using s(2) by (cases tk) (auto simp: folds_to_def rune_text_def)
  then have k: "\<not> regex_space k" "\<not> digit_rune k" "k \<noteq> 44"
    by (auto simp: fold_rune_def regex_space_def digit_rune_def split: if_splits)
  have "\<And>q. q \<in> set limit_phrases \<Longrightarrow> q \<noteq> p \<Longrightarrow> \<not> has_prefix p q \<and> \<not> has_prefix q p"
  proof -
    fix q assume q: "q \<in> set limit_phrases" "q \<noteq> p"
    note free = phrases_prefix_free [unfolded list_all_iff, rule_format]
    from free [OF p(1) q(1)] free [OF q(1) p(1)] q(2)
    show "\<not> has_prefix p q \<and> \<not> has_prefix q p" by simp
  qed
  from match_any_complete [OF p rs this] have a: "match_any limit_phrases rs = Some (gap @ num @ sp @ tk @ post)" .
  have b: "skip_gap 24 (gap @ num @ sp @ tk @ post) = Some (num @ sp @ tk @ post)"
    unfolding skip_gap_Some using g n by (intro exI [of _ gap]) simp
  have "sp @ tk @ post = [] \<or> \<not> (digit_rune (hd (sp @ tk @ post)) \<or> hd (sp @ tk @ post) = 44)"
    using k s(1) tk by (cases sp) (auto simp: regex_space_def digit_rune_def)
  from takeWhile_maximal [OF n(3) this]
  have c: "takeWhile (\<lambda>r. digit_rune r \<or> r = 44) (num @ sp @ tk @ post) = num"
    "dropWhile (\<lambda>r. digit_rune r \<or> r = 44) (num @ sp @ tk @ post) = sp @ tk @ post" by simp_all
  have d: "dropWhile regex_space (sp @ tk @ post) = tk @ post"
    using takeWhile_maximal [OF s(1), of "tk @ post"] k tk by simp
  have "match_text ''tokens'' (tk @ post) = Some post" using s(2) match_text_Some by blast
  then show "match_limit_at rs = Some num"
    unfolding match_limit_at_def a by (simp add: b c d Let_def)
qed

lemma find_limit_Some:
  "find_limit rs = Some num \<Longrightarrow> \<exists>pre rest. rs = pre @ rest \<and> limit_match rest num"
proof (induction rs)
  case (Cons r rs)
  show ?case
  proof (cases "match_limit_at (r # rs)")
    case None
    with Cons obtain pre rest where "rs = pre @ rest" "limit_match rest num" by auto
    then have "r # rs = (r # pre) @ rest" by simp
    with \<open>limit_match rest num\<close> show ?thesis by blast
  next
    case (Some n)
    with Cons.prems have "limit_match (r # rs) num" using match_limit_at_iff by simp
    moreover have "r # rs = [] @ (r # rs)" by simp
    ultimately show ?thesis by blast
  qed
qed simp

lemma limit_match_nonempty: "limit_match rs num \<Longrightarrow> rs \<noteq> []"
  by (auto simp: limit_match_def)

lemma find_limit_complete: "limit_match rest num \<Longrightarrow> find_limit (pre @ rest) \<noteq> None"
proof (induction pre)
  case Nil
  then obtain r rs where "rest = r # rs" using limit_match_nonempty by (cases rest) auto
  with Nil show ?case using match_limit_at_iff [of rest num] by simp
next
  case (Cons x xs)
  then show ?case by (auto split: option.splits)
qed

section \<open>Properties\<close>


definition limit_body :: string where
  "limit_body = ''maximum context length is 262,144 tokens''"

lemma limit_body_match: "limit_match (rune_text limit_body) (rune_text ''262,144'')"
  unfolding limit_match_def
  by (rule exI [of _ "rune_text ''maximum context length''"], rule exI [of _ "''maximum context length''"],
      rule exI [of _ "rune_text '' is ''"], rule exI [of _ "rune_text '' ''"], rule exI [of _ "rune_text ''tokens''"],
      rule exI [of _ "[]"])
    (simp add: limit_phrases_def folds_to_def rune_text_def limit_body_def fold_rune_def digit_rune_def regex_space_def)


text \<open>A Retry-After of delta-seconds is honoured exactly while the product fits a duration,
  that is up to 9223372036 seconds; an absent or unparseable header and a negative or past value
  give zero.\<close>
theorem retry_after_exact:
  "(atoi (trim_space h) = Some secs \<and> trim_space h \<noteq> [] \<and> 0 \<le> secs \<and> secs \<le> 9223372036 \<longrightarrow>
      parse_retry_after until h = secs * second) \<and>
   (trim_space h = [] \<or> atoi (trim_space h) = Some secs \<and> secs < 0 \<or>
      atoi (trim_space h) = None \<and> (until (trim_space h) = None \<or> until (trim_space h) = Some secs \<and> secs < 0) \<longrightarrow>
      parse_retry_after until h = 0)"
proof -
  have "secs \<le> 9223372036 \<Longrightarrow> 0 \<le> secs \<Longrightarrow> wrap64 (secs * second) = secs * second"
    by (rule wrap64_id) (simp add: second_def int64_range_def)
  then show ?thesis
    by (cases "atoi (trim_space h)"; cases "until (trim_space h)")
      (simp_all add: parse_retry_after_def Let_def)
qed

theorem retry_after_exact_witness: "parse_retry_after (\<lambda>_. None) ''120'' = 120 * second"
proof -
  have "trim_space ''120'' = ''120''" by (rule trim_space_plain) (simp add: plain_char_def is_space_def)
  moreover have "atoi ''120'' = Some 120"
    by (simp add: atoi_def dec_val_def digit_val_def is_digit_def int64_range_def)
  ultimately show ?thesis
    using retry_after_exact [of "''120''" 120 "\<lambda>_. None"] by simp
qed

text \<open>One second more wraps around to a negative duration.\<close>

lemma retry_after_overflow: "parse_retry_after until ''9223372037'' < 0"
proof -
  have "trim_space ''9223372037'' = ''9223372037''"
    by (rule trim_space_plain) (simp add: plain_char_def is_space_def)
  moreover have "atoi ''9223372037'' = Some 9223372037"
    by (simp add: atoi_def dec_val_def digit_val_def is_digit_def int64_range_def)
  ultimately show ?thesis by (simp add: parse_retry_after_def second_def wrap64_def)
qed

text \<open>The friendly form of a transport error loses nothing. A nil error stays nil, an error
  with a context cancellation or deadline in its chain is returned as it is, and every other one
  is wrapped in exactly one layer (a \<open>ConnectError\<close> with the category when it is recognised,
  the request context otherwise), so that the original chain, and with it every \<open>errors.Is\<close>
  and \<open>errors.As\<close>, and the classification are unchanged.\<close>
theorem friendly_error_transparent:
  "friendly_http_error ep hint None = None \<and>
   (\<exists>e'. friendly_http_error ep hint (Some e) = Some e' \<and> classify e' = classify e \<and>
      (if error_is e Canceled \<or> error_is e DeadlineExceeded then e' = e
       else \<exists>layer. chain e' = layer # chain e \<and>
         (if classify e = [] then layer = Wrapped ''send request: '' e
          else layer = ConnectErr ep (classify e) hint e)))"
proof -
  have "friendly_http_error ep hint (Some e) =
      Some (if error_is e Canceled \<or> error_is e DeadlineExceeded then e
        else if classify e = [] then Wrapped ''send request: '' e else ConnectErr ep (classify e) hint e)"
    by (simp add: friendly_http_error_def)
  then show ?thesis by (simp add: friendly_http_error_def)
qed

end
