(* ===== verification/Tracker.thy ===== *)
theory Tracker
  imports Errors
begin

text \<open>
  The connection-state tracker of llm/connstate.go and the recovery probe of llm/probe.go: the
  four locked operations, and a transition system in which chats and probe goroutines interleave
  at the granularity of those operations.
\<close>

section \<open>The tracker\<close>

datatype conn_state = StateConnected | StateReconnecting | StateDisconnected | StateOther int

definition conn_state_string :: "conn_state \<Rightarrow> string" where
  "conn_state_string s =
     (case s of StateConnected \<Rightarrow> ''connected'' | StateReconnecting \<Rightarrow> ''reconnecting''
      | StateDisconnected \<Rightarrow> ''disconnected'' | StateOther _ \<Rightarrow> ''unknown'')"

record tracker =
  conn :: conn_state
  changed_at :: nat
  probing :: bool

definition zero_tracker :: tracker where
  "zero_tracker = \<lparr>conn = StateConnected, changed_at = 0, probing = False\<rparr>"

definition tracker_get :: "tracker \<Rightarrow> conn_state" where
  "tracker_get t = conn t"

text \<open>\<open>Set\<close> at time \<open>now\<close>: the new tracker and the previous state.\<close>

definition tracker_set :: "nat \<Rightarrow> conn_state \<Rightarrow> tracker \<Rightarrow> tracker \<times> conn_state" where
  "tracker_set now s t =
     (if conn t \<noteq> s then (t\<lparr>conn := s, changed_at := now\<rparr>, conn t) else (t, conn t))"

definition claim_probe :: "tracker \<Rightarrow> tracker \<times> bool" where
  "claim_probe t = (if probing t then (t, False) else (t\<lparr>probing := True\<rparr>, True))"

definition release_probe :: "tracker \<Rightarrow> tracker" where
  "release_probe t = t\<lparr>probing := False\<rparr>"

text \<open>What the adapters rely on.\<close>

locale conn_tracking =
  fixes get :: "'t \<Rightarrow> 's" and put :: "nat \<Rightarrow> 's \<Rightarrow> 't \<Rightarrow> 't \<times> 's"
    and claim :: "'t \<Rightarrow> 't \<times> bool" and release :: "'t \<Rightarrow> 't"
  assumes get_put: "get (fst (put now s t)) = s"
    and put_prev: "snd (put now s t) = get t"
    and get_claim: "get (fst (claim t)) = get t"
    and get_release: "get (release t) = get t"
    and claim_put: "snd (claim (fst (put now s t))) = snd (claim t)"
    and claim_claimed: "\<not> snd (claim (fst (claim t)))"
    and claim_released: "snd (claim (release t))"
begin

text \<open>The edge into a state is seen by exactly one of two successive setters.\<close>

lemma edge_once: "get t \<noteq> s \<Longrightarrow> snd (put n s t) \<noteq> s \<and> snd (put n' s (fst (put n s t))) = s"
  by (simp add: put_prev get_put)

lemma second_claim_fails: "\<not> snd (claim (fst (put now s (fst (claim t)))))"
  by (simp add: claim_put claim_claimed)

end

interpretation llm_tracker: conn_tracking tracker_get tracker_set claim_probe release_probe
  by unfold_locales
    (auto simp: tracker_get_def tracker_set_def claim_probe_def release_probe_def)

lemma tracker_simps [simp]:
  "conn (fst (tracker_set n s t)) = s" "snd (tracker_set n s t) = conn t"
  "probing (fst (tracker_set n s t)) = probing t"
  "conn (release_probe t) = conn t" "probing (release_probe t) = False"
  by (auto simp: tracker_set_def release_probe_def)

lemma const_upd [simp]: "(\<lambda>_. x)(a := x) = (\<lambda>_. x)"
  by auto

lemma set_same_keeps_since: "conn t = s \<Longrightarrow> fst (tracker_set n s t) = t"
  by (simp add: tracker_set_def)

section \<open>The probe request\<close>

definition probe_url :: "string \<Rightarrow> string" where
  "probe_url endpoint = trim_suffix endpoint ''/'' @ ''/models''"

definition auth_headers :: "string \<Rightarrow> (string \<times> string) list" where
  "auth_headers key = (if key \<noteq> [] then [(''Authorization'', ''Bearer '' @ key)] else [])"

text \<open>
  \<open>probeOnce\<close>: \<open>create\<close> is \<open>http.NewRequestWithContext\<close>, \<open>send\<close> the client's \<open>Do\<close>. Any
  response is a success, whatever its status.
\<close>

definition probe_once :: "(string \<Rightarrow> go_error option) \<Rightarrow> (string \<Rightarrow> (string \<times> string) list \<Rightarrow> go_error + 'resp) \<Rightarrow>
    string \<Rightarrow> string \<Rightarrow> bool" where
  "probe_once create send endpoint key =
     (case create (probe_url endpoint) of
        Some _ \<Rightarrow> False
      | None \<Rightarrow> (case send (probe_url endpoint) (auth_headers key) of Inl _ \<Rightarrow> False | Inr _ \<Rightarrow> True))"

definition probe_interval :: "int \<Rightarrow> int" where
  "probe_interval configured = (if 0 < configured then configured else 5 * second)"

section \<open>Chats and probes\<close>

text \<open>
  A chat either runs or has just moved the tracker into Disconnected and is about to start the
  probe. A probe goroutine does not exist (any more), waits for its ticker, is pinging, has had
  an answer and is about to set Connected, or is about to release its claim.
\<close>

datatype chat_pc = Running | StartingProbe
datatype probe_pc = NoProbe | Waiting | Pinging | Answered | Exiting

record conn_sys =
  trk :: tracker
  chats :: "nat \<Rightarrow> chat_pc"
  probes :: "nat \<Rightarrow> probe_pc"

inductive conn_step :: "conn_sys \<Rightarrow> conn_sys \<Rightarrow> bool" where
  retrying: "chats s c = Running \<Longrightarrow>
    conn_step s (s\<lparr>trk := fst (tracker_set now StateReconnecting (trk s))\<rparr>)"
| responded: "chats s c = Running \<Longrightarrow>
    conn_step s (s\<lparr>trk := fst (tracker_set now StateConnected (trk s))\<rparr>)"
| failed: "chats s c = Running \<Longrightarrow> tracker_set now StateDisconnected (trk s) = (t', prev) \<Longrightarrow>
    conn_step s (s\<lparr>trk := t', chats := (chats s)(c := if prev \<noteq> StateDisconnected then StartingProbe else Running)\<rparr>)"
| claimed: "chats s c = StartingProbe \<Longrightarrow> claim_probe (trk s) = (t', True) \<Longrightarrow> probes s p = NoProbe \<Longrightarrow>
    conn_step s (s\<lparr>trk := t', chats := (chats s)(c := Running), probes := (probes s)(p := Waiting)\<rparr>)"
| not_claimed: "chats s c = StartingProbe \<Longrightarrow> claim_probe (trk s) = (t', False) \<Longrightarrow>
    conn_step s (s\<lparr>trk := t', chats := (chats s)(c := Running)\<rparr>)"
| tick_quit: "probes s p = Waiting \<Longrightarrow> tracker_get (trk s) \<noteq> StateDisconnected \<Longrightarrow>
    conn_step s (s\<lparr>probes := (probes s)(p := Exiting)\<rparr>)"
| tick_ping: "probes s p = Waiting \<Longrightarrow> tracker_get (trk s) = StateDisconnected \<Longrightarrow>
    conn_step s (s\<lparr>probes := (probes s)(p := Pinging)\<rparr>)"
| ping_failed: "probes s p = Pinging \<Longrightarrow> conn_step s (s\<lparr>probes := (probes s)(p := Waiting)\<rparr>)"
| ping_answered: "probes s p = Pinging \<Longrightarrow> conn_step s (s\<lparr>probes := (probes s)(p := Answered)\<rparr>)"
| recovered: "probes s p = Answered \<Longrightarrow>
    conn_step s (s\<lparr>trk := fst (tracker_set now StateConnected (trk s)), probes := (probes s)(p := Exiting)\<rparr>)"
| released: "probes s p = Exiting \<Longrightarrow>
    conn_step s (s\<lparr>trk := release_probe (trk s), probes := (probes s)(p := NoProbe)\<rparr>)"

definition conn_init :: conn_sys where
  "conn_init = \<lparr>trk = zero_tracker, chats = (\<lambda>_. Running), probes = (\<lambda>_. NoProbe)\<rparr>"

inductive conn_reachable :: "conn_sys \<Rightarrow> bool" where
  conn_start: "conn_reachable conn_init"
| conn_more: "conn_reachable s \<Longrightarrow> conn_step s s' \<Longrightarrow> conn_reachable s'"

inductive_cases conn_stepE: "conn_step s s'"

text \<open>The claim is held exactly while one probe goroutine exists.\<close>

definition one_probe :: "conn_sys \<Rightarrow> bool" where
  "one_probe s \<longleftrightarrow> (probing (trk s) \<longleftrightarrow> (\<exists>p. probes s p \<noteq> NoProbe)) \<and>
     (\<forall>p q. probes s p \<noteq> NoProbe \<longrightarrow> probes s q \<noteq> NoProbe \<longrightarrow> p = q)"

lemma one_probe_move:
  assumes "one_probe s" "probes s p \<noteq> NoProbe" "pc \<noteq> NoProbe" "probing t = probing (trk s)"
  shows "one_probe (s\<lparr>trk := t, probes := (probes s)(p := pc)\<rparr>)"
  using assms unfolding one_probe_def by auto

lemma one_probe_trk:
  "one_probe s \<Longrightarrow> probing t = probing (trk s) \<Longrightarrow> one_probe (s\<lparr>trk := t, chats := cs\<rparr>)"
  by (simp add: one_probe_def)

lemma claim_probe_cases:
  "claim_probe t = (t', True) \<longleftrightarrow> \<not> probing t \<and> t' = t\<lparr>probing := True\<rparr>"
  "claim_probe t = (t', False) \<longleftrightarrow> probing t \<and> t' = t"
  by (auto simp: claim_probe_def)

lemma conn_step_one_probe: "conn_step s s' \<Longrightarrow> one_probe s \<Longrightarrow> one_probe s'"
proof (induction rule: conn_step.induct)
  case (failed s c now t' prev)
  then have "probing t' = probing (trk s)" using tracker_simps(3) [of now StateDisconnected "trk s"] by simp
  with failed show ?case by (simp add: one_probe_def)
next
  case (claimed s c t' p)
  then show ?case by (auto simp: one_probe_def claim_probe_cases)
next
  case (released s p)
  then have "probes s q = NoProbe" if "q \<noteq> p" for q
    using that unfolding one_probe_def by (metis probe_pc.distinct(7))
  with released show ?case by (auto simp: one_probe_def)
next
  case (recovered s p now)
  then show ?case using one_probe_move [of s p Exiting] by simp
next
  case (tick_quit s p)
  then show ?case using one_probe_move [of s p Exiting "trk s"] by simp
next
  case (tick_ping s p)
  then show ?case using one_probe_move [of s p Pinging "trk s"] by simp
next
  case (ping_failed s p)
  then show ?case using one_probe_move [of s p Waiting "trk s"] by simp
next
  case (ping_answered s p)
  then show ?case using one_probe_move [of s p Answered "trk s"] by simp
qed (auto simp: one_probe_def claim_probe_cases)

lemma conn_reachable_one_probe: "conn_reachable s \<Longrightarrow> one_probe s"
proof (induction rule: conn_reachable.induct)
  case conn_start
  then show ?case by (simp add: one_probe_def conn_init_def zero_tracker_def)
qed (rule conn_step_one_probe)

text \<open>
  Disconnected is covered as long as no chat fails in the window between the probe's last look
  at the state and its release of the claim: some chat is about to start a probe, or a probe is
  still in its loop. \<open>careful_step\<close> excludes just that window.
\<close>

definition careful_step :: "conn_sys \<Rightarrow> conn_sys \<Rightarrow> bool" where
  "careful_step s s' \<longleftrightarrow> conn_step s s' \<and>
     ((\<exists>p. probes s p \<in> {Exiting, Answered}) \<longrightarrow> conn (trk s') = StateDisconnected \<longrightarrow> conn (trk s) = StateDisconnected)"

inductive careful_reachable :: "conn_sys \<Rightarrow> bool" where
  careful_start: "careful_reachable conn_init"
| careful_more: "careful_reachable s \<Longrightarrow> careful_step s s' \<Longrightarrow> careful_reachable s'"

definition covered :: "conn_sys \<Rightarrow> bool" where
  "covered s \<longleftrightarrow> one_probe s \<and>
     (conn (trk s) = StateDisconnected \<longrightarrow>
        (\<forall>p. probes s p \<noteq> Exiting) \<and> ((\<exists>c. chats s c = StartingProbe) \<or> (\<exists>p. probes s p \<noteq> NoProbe)))"

lemma coveredI:
  assumes "one_probe s" and "conn (trk s) = StateDisconnected \<Longrightarrow> (\<forall>p. probes s p \<noteq> Exiting) \<and>
    ((\<exists>c. chats s c = StartingProbe) \<or> (\<exists>p. probes s p \<noteq> NoProbe))"
  shows "covered s"
  using assms by (simp add: covered_def)

lemma careful_covered:
  assumes "careful_step s s'" and cov: "covered s"
  shows "covered s'"
proof -
  have st: "conn_step s s'" and care: "\<And>p. probes s p \<in> {Exiting, Answered} \<Longrightarrow>
      conn (trk s') = StateDisconnected \<Longrightarrow> conn (trk s) = StateDisconnected"
    using assms(1) by (auto simp: careful_step_def)
  have op: "one_probe s" using cov by (simp add: covered_def)
  from st show ?thesis
  proof cases
    case (failed c now t' prev)
    show ?thesis
    proof (rule coveredI [OF conn_step_one_probe [OF st op]])
      assume d: "conn (trk s') = StateDisconnected"
      have prev: "prev = conn (trk s)" using failed tracker_simps(2) by (metis snd_conv)
      show "(\<forall>p. probes s' p \<noteq> Exiting) \<and> ((\<exists>c. chats s' c = StartingProbe) \<or> (\<exists>p. probes s' p \<noteq> NoProbe))"
      proof (cases "conn (trk s) = StateDisconnected")
        case True
        with failed prev have "chats s' = chats s" "probes s' = probes s" by (auto simp: fun_upd_idem)
        with cov True show ?thesis by (simp add: covered_def)
      next
        case False
        then have "probes s p \<noteq> Exiting" for p using care [OF _ d] by auto
        with failed prev False show ?thesis by auto
      qed
    qed
  next
    case (claimed c t' p)
    then show ?thesis
      using cov conn_step_one_probe [OF st op]
      by (intro coveredI) (auto simp: covered_def claim_probe_cases)
  next
    case (not_claimed c t')
    then have "probing (trk s)" by (simp add: claim_probe_cases)
    then obtain p where "probes s p \<noteq> NoProbe" using op by (auto simp: one_probe_def)
    with not_claimed show ?thesis
      using cov conn_step_one_probe [OF st op]
      by (intro coveredI) (auto simp: covered_def claim_probe_cases)
  next
    case (released p)
    show ?thesis
    proof (rule coveredI [OF conn_step_one_probe [OF st op]])
      assume "conn (trk s') = StateDisconnected"
      then have "conn (trk s) = StateDisconnected" using released by simp
      with cov released show "(\<forall>p. probes s' p \<noteq> Exiting) \<and> ((\<exists>c. chats s' c = StartingProbe) \<or> (\<exists>p. probes s' p \<noteq> NoProbe))"
        by (auto simp: covered_def)
    qed
  qed (use cov conn_step_one_probe [OF st op] in \<open>auto intro!: coveredI simp: covered_def tracker_get_def\<close>)
qed

lemma careful_reachable_covered: "careful_reachable s \<Longrightarrow> covered s"
proof (induction rule: careful_reachable.induct)
  case careful_start
  then show ?case
    by (intro coveredI) (simp_all add: one_probe_def conn_init_def zero_tracker_def)
qed (rule careful_covered)

section \<open>Properties\<close>

text \<open>At most one recovery probe runs, however chats fail and recover concurrently, and the
  claim on the tracker is held exactly while a probe goroutine exists, so that a new probe can
  always be started once the old one is gone.\<close>
theorem at_most_one_probe:
  assumes "conn_reachable s"
  shows "(probes s p \<noteq> NoProbe \<and> probes s q \<noteq> NoProbe \<longrightarrow> p = q) \<and>
    (probing (trk s) \<longleftrightarrow> (\<exists>p. probes s p \<noteq> NoProbe)) \<and>
    (snd (claim_probe (trk s)) \<longleftrightarrow> (\<forall>p. probes s p = NoProbe))"
  using conn_reachable_one_probe [OF assms] by (auto simp: one_probe_def claim_probe_def)

text \<open>A chat fails, starts the probe, and a second chat's start is dropped.\<close>

definition disc :: tracker where
  "disc = \<lparr>conn = StateDisconnected, changed_at = 1, probing = False\<rparr>"

definition one_failed :: conn_sys where
  "one_failed = \<lparr>trk = disc, chats = (\<lambda>_. Running)(0 := StartingProbe), probes = (\<lambda>_. NoProbe)\<rparr>"

definition one_probing :: conn_sys where
  "one_probing = \<lparr>trk = disc\<lparr>probing := True\<rparr>, chats = (\<lambda>_. Running), probes = (\<lambda>_. NoProbe)(0 := Waiting)\<rparr>"

lemma reach_failed: "conn_reachable one_failed"
proof (rule conn_reachable.conn_more [OF conn_reachable.conn_start])
  have "conn_step conn_init (conn_init\<lparr>trk := disc, chats := (chats conn_init)(0 := StartingProbe)\<rparr>)"
    using conn_step.failed [of conn_init 0 1 disc StateConnected]
    by (simp add: conn_init_def tracker_set_def zero_tracker_def disc_def)
  then show "conn_step conn_init one_failed" by (simp add: conn_init_def one_failed_def)
qed

lemma reach_probing: "conn_reachable one_probing"
proof (rule conn_reachable.conn_more [OF reach_failed])
  show "conn_step one_failed one_probing"
    using conn_step.claimed [of one_failed 0 "disc\<lparr>probing := True\<rparr>" 0]
    by (simp add: one_failed_def one_probing_def claim_probe_cases disc_def)
qed

theorem at_most_one_probe_witness:
  "probes one_probing 0 = Waiting \<and> \<not> snd (claim_probe (trk one_probing))"
  using at_most_one_probe [OF reach_probing, of 0 0] by (auto simp: one_probing_def)

text \<open>As long as no chat fails while a probe is on its way out, a disconnected endpoint is
  always watched: some chat is about to start a probe, or a probe is still running.\<close>
theorem disconnected_is_watched:
  assumes "careful_reachable s" and "conn (trk s) = StateDisconnected"
  shows "(\<exists>c. chats s c = StartingProbe) \<or> (\<exists>p. probes s p \<in> {Waiting, Pinging, Answered})"
proof -
  have cov: "(\<forall>p. probes s p \<noteq> Exiting) \<and> ((\<exists>c. chats s c = StartingProbe) \<or> (\<exists>p. probes s p \<noteq> NoProbe))"
    using careful_reachable_covered [OF assms(1)] assms(2) by (simp add: covered_def)
  have "pc \<noteq> Exiting \<Longrightarrow> pc \<noteq> NoProbe \<Longrightarrow> pc \<in> {Waiting, Pinging, Answered}" for pc by (cases pc) auto
  with cov show ?thesis by blast
qed

theorem disconnected_is_watched_witness:
  "conn (trk one_failed) = StateDisconnected \<and>
   ((\<exists>c. chats one_failed c = StartingProbe) \<or> (\<exists>p. probes one_failed p \<in> {Waiting, Pinging, Answered}))"
proof -
  have "conn_step conn_init one_failed"
    using conn_step.failed [of conn_init 0 1 disc StateConnected]
    by (simp add: conn_init_def tracker_set_def zero_tracker_def disc_def one_failed_def)
  then have "careful_reachable one_failed"
    by (intro careful_reachable.careful_more [OF careful_reachable.careful_start])
      (simp add: careful_step_def conn_init_def)
  moreover have "conn (trk one_failed) = StateDisconnected" by (simp add: one_failed_def disc_def)
  ultimately show ?thesis using disconnected_is_watched by blast
qed

text \<open>
  In that window the coverage is lost: the probe has set Connected and not yet released its
  claim, a chat moves the tracker to Disconnected and its claim fails, the probe releases. The
  system then sits in Disconnected with no probe and nobody about to start one.
\<close>

definition unwatched :: "conn_sys \<Rightarrow> bool" where
  "unwatched s \<longleftrightarrow> conn (trk s) = StateDisconnected \<and> (\<forall>p. probes s p = NoProbe) \<and> (\<forall>c. chats s c = Running)"

lemma probe_window: "\<exists>s. conn_reachable s \<and> unwatched s"
proof -
  let ?t1 = "disc\<lparr>probing := True\<rparr>"
  let ?t2 = "\<lparr>conn = StateConnected, changed_at = 2, probing = True\<rparr>"
  let ?t3 = "\<lparr>conn = StateDisconnected, changed_at = 3, probing = True\<rparr>"
  let ?sys = "\<lambda>t c p. \<lparr>trk = t, chats = (\<lambda>_. Running)(0 := c), probes = (\<lambda>_. NoProbe)(0 := p)\<rparr>"
  have "conn_reachable (?sys ?t1 Running Waiting)"
    using reach_probing by (simp add: one_probing_def)
  then have "conn_reachable (?sys ?t1 Running Pinging)"
    by (rule conn_reachable.conn_more)
      (use conn_step.tick_ping [of "?sys ?t1 Running Waiting" 0] in \<open>simp add: tracker_get_def disc_def\<close>)
  then have "conn_reachable (?sys ?t1 Running Answered)"
    by (rule conn_reachable.conn_more)
      (use conn_step.ping_answered [of "?sys ?t1 Running Pinging" 0] in simp)
  then have "conn_reachable (?sys ?t2 Running Exiting)"
    by (rule conn_reachable.conn_more)
      (use conn_step.recovered [of "?sys ?t1 Running Answered" 0 2] in \<open>simp add: tracker_set_def disc_def\<close>)
  then have "conn_reachable (?sys ?t3 StartingProbe Exiting)"
    by (rule conn_reachable.conn_more)
      (use conn_step.failed [of "?sys ?t2 Running Exiting" 0 3 ?t3 StateConnected] in \<open>simp add: tracker_set_def\<close>)
  then have "conn_reachable (?sys ?t3 Running Exiting)"
    by (rule conn_reachable.conn_more)
      (use conn_step.not_claimed [of "?sys ?t3 StartingProbe Exiting" 0 ?t3] in \<open>simp add: claim_probe_def\<close>)
  then have "conn_reachable (?sys (?t3\<lparr>probing := False\<rparr>) Running NoProbe)"
    by (rule conn_reachable.conn_more)
      (use conn_step.released [of "?sys ?t3 Running Exiting" 0] in \<open>simp add: release_probe_def\<close>)
  then show ?thesis by (intro exI [of _ "?sys (?t3\<lparr>probing := False\<rparr>) Running NoProbe"]) (simp add: unwatched_def)
qed

end
