(* ===== verification/OpenAI.thy ===== *)
theory OpenAI
  imports Messages Registry Tracker Complex_Main
begin

text \<open>
  The request half of the OpenAI-compatible client of llm/openai.go: preparation of the request
  and its body, the transport and status retry loops, and their effect on the connection tracker.
  The HTTP transport and the clock are arguments.
\<close>

section \<open>The request\<close>

text \<open>\<open>ChatRequest\<close>; a float field is the number it holds.\<close>

record chat_request =
  req_model :: string
  req_messages :: "message list"
  req_stream :: bool
  req_tools :: "tool_def list"
  req_max_tokens :: int
  req_stop :: "string list"
  req_temperature :: rat
  req_top_k :: int
  req_top_p :: rat
  req_min_p :: rat
  req_presence_penalty :: rat
  req_frequency_penalty :: rat
  req_repetition_penalty :: rat

text \<open>The configuration fields of \<open>OpenAIClient\<close>; a nil pointer or function is \<open>None\<close>.\<close>

record openai_client =
  endpoint :: string
  api_key :: string
  client_model :: string
  max_tokens :: int
  temperature :: "rat option"
  stall_timeout :: int
  loop_guard :: bool
  reasoning_budget :: int
  connect_hint :: string
  status_retries :: int
  status_retry_max_wait :: int
  client_backoff :: "(int \<Rightarrow> int) option"

definition prepare_request :: "openai_client \<Rightarrow> chat_request \<Rightarrow> chat_request" where
  "prepare_request c req =
     (let r = req\<lparr>req_stream := True, req_model := client_model c,
                 req_messages := filter_for_request (req_messages req)\<rparr>;
          r = (if 0 < max_tokens c then r\<lparr>req_max_tokens := max_tokens c\<rparr> else r)
      in case temperature c of
           Some t \<Rightarrow> if req_temperature r = 0 then r\<lparr>req_temperature := t\<rparr> else r
         | None \<Rightarrow> r)"

text \<open>
  The marshalled body: the fields of the request, empty ones omitted, and the stream options.
  \<open>num\<close> prints a float.
\<close>

definition tool_def_json :: "tool_def \<Rightarrow> json" where
  "tool_def_json d = JObj [(''type'', JStr (def_type d)),
     (''function'', JObj [(''name'', JStr (def_name d)), (''description'', JStr (def_desc d)),
        (''parameters'', json_any (def_params d))])]"

definition omit_num :: "(rat \<Rightarrow> string) \<Rightarrow> string \<Rightarrow> rat \<Rightarrow> (string \<times> json) list" where
  "omit_num num n q = (if q = 0 then [] else [(n, JNum (num q))])"

definition omit_int :: "string \<Rightarrow> int \<Rightarrow> (string \<times> json) list" where
  "omit_int n i = (if i = 0 then [] else [(n, JNum (itoa i))])"

definition request_json :: "(rat \<Rightarrow> string) \<Rightarrow> chat_request \<Rightarrow> json" where
  "request_json num r = JObj (
     [(''model'', JStr (req_model r)), (''messages'', JArr (map marshal_message (req_messages r))),
      (''stream'', JBool (req_stream r))] @
     (if req_tools r = [] then [] else [(''tools'', JArr (map tool_def_json (req_tools r)))]) @
     omit_int ''max_tokens'' (req_max_tokens r) @
     (if req_stop r = [] then [] else [(''stop'', JArr (map JStr (req_stop r)))]) @
     omit_num num ''temperature'' (req_temperature r) @ omit_int ''top_k'' (req_top_k r) @
     omit_num num ''top_p'' (req_top_p r) @ omit_num num ''min_p'' (req_min_p r) @
     omit_num num ''presence_penalty'' (req_presence_penalty r) @
     omit_num num ''frequency_penalty'' (req_frequency_penalty r) @
     omit_num num ''repetition_penalty'' (req_repetition_penalty r) @
     [(''stream_options'', JObj [(''include_usage'', JBool True)])])"

text \<open>The body \<open>Chat\<close> sends for a request.\<close>

definition request_body :: "(rat \<Rightarrow> string) \<Rightarrow> openai_client \<Rightarrow> chat_request \<Rightarrow> string" where
  "request_body num c req = json_render (request_json num (prepare_request c req))"

text \<open>The body up to the last message: the model and the messages, without the closing bracket.\<close>

definition prompt_prefix :: "openai_client \<Rightarrow> message list \<Rightarrow> string" where
  "prompt_prefix c ms = ''{'' @ field_text (''model'', JStr (client_model c)) @ '','' @ [CHR 34] @ ''messages'' @ [CHR 34] @
     '':['' @ join '','' (map (json_render \<circ> marshal_message) (filter_for_request ms))"

lemma request_fields:
  "\<exists>fs. fs \<noteq> [] \<and> (\<forall>ms. request_json num (r\<lparr>req_messages := ms\<rparr>) =
     JObj ((''model'', JStr (req_model r)) # (''messages'', JArr (map marshal_message ms)) # fs))"
  apply (cases r)
  apply (rule exI, rule conjI [rotated], rule allI)
  apply (simp only: request_json_def append_Cons append_Nil chat_request.simps)
  apply simp
  done

lemma prepared_messages:
  "prepare_request c (q\<lparr>req_messages := ms\<rparr>) = (prepare_request c q)\<lparr>req_messages := filter_for_request ms\<rparr>"
  "req_model (prepare_request c q) = client_model c"
  by (simp_all add: prepare_request_def Let_def split: option.split)

lemma messages_key: "json_quoted ''messages'' = ''messages''"
  by code_simp

lemma body_text:
  "\<exists>rest. \<forall>ms. request_body num c (q\<lparr>req_messages := ms\<rparr>) = prompt_prefix c ms @ '']'' @ rest"
proof -
  obtain fs where fs: "fs \<noteq> []" "\<And>ms. request_json num ((prepare_request c q)\<lparr>req_messages := ms\<rparr>) =
      JObj ((''model'', JStr (client_model c)) # (''messages'', JArr (map marshal_message ms)) # fs)"
    using request_fields [of num "prepare_request c q"] by (auto simp: prepared_messages(2))
  have "request_body num c (q\<lparr>req_messages := ms\<rparr>) =
      prompt_prefix c ms @ '']'' @ '','' @ join '','' (map field_text fs) @ ''}''" for ms
  proof -
    have "field_text (''messages'', JArr xs) =
        [CHR 34] @ ''messages'' @ [CHR 34] @ '':['' @ join '','' (map json_render xs) @ '']''" for xs
      by (simp add: field_text_def messages_key)
    then show ?thesis
      using fs(1) unfolding request_body_def prepared_messages(1) fs(2) object_text
      by (simp add: join_Cons prompt_prefix_def)
  qed
  then show ?thesis by blast
qed

section \<open>Retries\<close>

text \<open>
  What the outside world answers. For the \<open>i\<close>-th status attempt and its \<open>j\<close>-th transport attempt:
  whether the request could be created, the result of sending it, and whether the context ended
  before the wait after it was over. A response is its status, its Retry-After header and its
  body.
\<close>

record response =
  resp_status :: int
  resp_retry_after :: string
  resp_body :: string

record world =
  create :: "nat \<Rightarrow> nat \<Rightarrow> go_error option"
  send :: "nat \<Rightarrow> nat \<Rightarrow> go_error + response"
  ctx_ends :: "nat \<Rightarrow> nat \<Rightarrow> go_error option"
  ctx_ends_status :: "nat \<Rightarrow> go_error option"
  date_until :: "string \<Rightarrow> int option"

definition millisecond :: int where "millisecond = 1000000"

definition retry_backoff :: "int \<Rightarrow> int" where
  "retry_backoff attempt =
     (if attempt = 0 then 500 * millisecond
      else if attempt = 1 then 1500 * millisecond
      else 3 * second)"

definition backoff_of :: "openai_client \<Rightarrow> int \<Rightarrow> int" where
  "backoff_of c = (case client_backoff c of None \<Rightarrow> retry_backoff | Some f \<Rightarrow> f)"

definition max_chat_retries :: nat where "max_chat_retries = 2"

definition friendly :: "openai_client \<Rightarrow> go_error \<Rightarrow> go_error" where
  "friendly c e = the (friendly_http_error (endpoint c) (connect_hint c) (Some e))"

text \<open>
  \<open>doChatRequest\<close>, by the number of retries left. The trace is the durations waited. The clock
  only stamps the tracker, so a fixed reading serves.
\<close>

record attempt_result =
  ar_tracker :: tracker
  ar_waits :: "int list"
  ar_sent :: nat
  ar_result :: "go_error + response"

fun do_chat_left :: "nat \<Rightarrow> openai_client \<Rightarrow> world \<Rightarrow> nat \<Rightarrow> nat \<Rightarrow> tracker \<Rightarrow> attempt_result" where
  "do_chat_left left c w now i t =
     (let attempt = max_chat_retries - left in
      case create w i attempt of
        Some e \<Rightarrow> \<lparr>ar_tracker = t, ar_waits = [], ar_sent = 0, ar_result = Inl (Wrapped ''create request: '' e)\<rparr>
      | None \<Rightarrow>
     (case send w i attempt of
        Inr r \<Rightarrow> \<lparr>ar_tracker = t, ar_waits = [], ar_sent = 1, ar_result = Inr r\<rparr>
      | Inl e \<Rightarrow>
          if error_is e Canceled \<or> error_is e DeadlineExceeded
          then \<lparr>ar_tracker = t, ar_waits = [], ar_sent = 1, ar_result = Inl e\<rparr>
          else if classify e = []
          then \<lparr>ar_tracker = t, ar_waits = [], ar_sent = 1, ar_result = Inl (friendly c e)\<rparr>
          else let t' = fst (tracker_set now StateReconnecting t) in
            (case left of
               0 \<Rightarrow> \<lparr>ar_tracker = t', ar_waits = [], ar_sent = 1, ar_result = Inl (friendly c e)\<rparr>
             | Suc n \<Rightarrow>
                 (case ctx_ends w i attempt of
                    Some ce \<Rightarrow> \<lparr>ar_tracker = t', ar_waits = [], ar_sent = 1, ar_result = Inl ce\<rparr>
                  | None \<Rightarrow>
                      let r = do_chat_left n c w now i t' in
                      r\<lparr>ar_waits := backoff_of c (int attempt) # ar_waits r, ar_sent := Suc (ar_sent r)\<rparr>))))"

declare do_chat_left.simps [simp del]

definition do_chat_request :: "openai_client \<Rightarrow> world \<Rightarrow> nat \<Rightarrow> nat \<Rightarrow> tracker \<Rightarrow> attempt_result" where
  "do_chat_request c w now i t = do_chat_left max_chat_retries c w now i t"

definition retryable_status :: "int \<Rightarrow> bool" where
  "retryable_status code \<longleftrightarrow> code = 429 \<or> code = 502 \<or> code = 503 \<or> code = 504"

definition api_error_of :: "world \<Rightarrow> response \<Rightarrow> api_error" where
  "api_error_of w r = \<lparr>status_code = resp_status r, api_body = take 1024 (resp_body r),
     retry_after = parse_retry_after (date_until w) (resp_retry_after r)\<rparr>"

definition max_wait_of :: "openai_client \<Rightarrow> int" where
  "max_wait_of c = (if status_retry_max_wait c = 0 then 30 * second else status_retry_max_wait c)"

text \<open>
  \<open>doChatRequestRetryingStatus\<close>, from its \<open>attempt\<close>-th round; a round that is not the last
  has \<open>attempt < StatusRetries\<close>, so the loop ends.
\<close>

function status_loop :: "openai_client \<Rightarrow> world \<Rightarrow> nat \<Rightarrow> nat \<Rightarrow> tracker \<Rightarrow> attempt_result" where
  "status_loop c w now attempt t =
     (let r = do_chat_request c w now attempt t in
      case ar_result r of
        Inl e \<Rightarrow> r
      | Inr resp \<Rightarrow>
          let r = r\<lparr>ar_tracker := fst (tracker_set now StateConnected (ar_tracker r))\<rparr>;
              ae = api_error_of w resp
          in if resp_status resp \<le> 299 then r
             else if status_retries c \<le> int attempt \<or> \<not> retryable_status (resp_status resp)
             then r\<lparr>ar_result := Inl (ApiErr ae)\<rparr>
             else if max_wait_of c < retry_after ae then r\<lparr>ar_result := Inl (ApiErr ae)\<rparr>
             else let wait = (if retry_after ae = 0 then backoff_of c (int attempt) else retry_after ae) in
               (case ctx_ends_status w attempt of
                  Some ce \<Rightarrow> r\<lparr>ar_result := Inl ce\<rparr>
                | None \<Rightarrow>
                    let r' = status_loop c w now (Suc attempt) (ar_tracker r) in
                    r'\<lparr>ar_waits := ar_waits r @ wait # ar_waits r', ar_sent := ar_sent r + ar_sent r'\<rparr>))"
  by auto
termination
  by (relation "measure (\<lambda>(c, w, now, attempt, t). nat (status_retries c - int attempt))") auto

declare status_loop.simps [simp del]

text \<open>
  The request half of \<open>Chat\<close>: on a transport error the tracker goes to Disconnected, and the
  edge into it starts the recovery probe (if the claim succeeds).
\<close>

record chat_start =
  cs_tracker :: tracker
  cs_probe_started :: bool
  cs_result :: "go_error + response"

definition chat_request_phase :: "openai_client \<Rightarrow> world \<Rightarrow> nat \<Rightarrow> tracker \<Rightarrow> chat_start" where
  "chat_request_phase c w now t =
     (let r = status_loop c w now 0 t in
      case ar_result r of
        Inr resp \<Rightarrow> \<lparr>cs_tracker = ar_tracker r, cs_probe_started = False, cs_result = Inr resp\<rparr>
      | Inl e \<Rightarrow>
          if classify e \<noteq> [] then
            (case tracker_set now StateDisconnected (ar_tracker r) of
               (t', prev) \<Rightarrow>
                 if prev \<noteq> StateDisconnected then
                   (case claim_probe t' of
                      (t'', started) \<Rightarrow> \<lparr>cs_tracker = t'', cs_probe_started = started, cs_result = Inl e\<rparr>)
                 else \<lparr>cs_tracker = t', cs_probe_started = False, cs_result = Inl e\<rparr>)
          else \<lparr>cs_tracker = ar_tracker r, cs_probe_started = False, cs_result = Inl e\<rparr>)"

section \<open>Bounds of the retries\<close>

lemma tracker_set_conn [simp]: "conn (fst (tracker_set n s t)) = s"
  by (rule tracker_simps(1))

lemma do_chat_sent: "ar_sent (do_chat_left left c w now i t) \<le> Suc left"
  by (induction left c w now i t rule: do_chat_left.induct)
    (subst do_chat_left.simps, auto simp: Let_def split: option.splits sum.splits nat.splits)

lemma do_chat_waits:
  "left \<le> max_chat_retries \<Longrightarrow> \<exists>n \<le> left. ar_waits (do_chat_left left c w now i t) =
     map (\<lambda>k. backoff_of c (int k)) [max_chat_retries - left..<max_chat_retries - left + n]"
proof (induction left arbitrary: t)
  case 0
  then show ?case
    by (subst do_chat_left.simps) (auto simp: Let_def split: option.splits sum.splits)
next
  case (Suc m)
  let ?a = "max_chat_retries - Suc m"
  have a: "max_chat_retries - m = Suc ?a" using Suc.prems by simp
  obtain n where n: "n \<le> m" "ar_waits (do_chat_left m c w now i (fst (tracker_set now StateReconnecting t))) =
      map (\<lambda>k. backoff_of c (int k)) [Suc ?a..<Suc ?a + n]"
    using Suc.IH [of "fst (tracker_set now StateReconnecting t)"] Suc.prems unfolding a by auto
  have "backoff_of c (int ?a) # map (\<lambda>k. backoff_of c (int k)) [Suc ?a..<Suc ?a + n] =
      map (\<lambda>k. backoff_of c (int k)) [?a..<?a + Suc n]"
    by (simp add: upt_rec [of ?a])
  with n show ?case
    by (subst do_chat_left.simps) (force simp: Let_def split: option.splits sum.splits)
qed

text \<open>What the status loop returns and leaves behind.\<close>

lemma status_sent:
  "ar_sent (status_loop c w now attempt t) \<le> 3 * Suc (nat (status_retries c - int attempt))"
proof (induction c w now attempt t rule: status_loop.induct)
  case (1 c w now attempt t)
  let ?r = "do_chat_request c w now attempt t"
  have sent: "ar_sent ?r \<le> 3"
    using do_chat_sent [of max_chat_retries] by (simp add: do_chat_request_def max_chat_retries_def)
  show ?case
  proof (cases "ar_result ?r")
    case (Inl e)
    with sent show ?thesis by (subst status_loop.simps) (simp add: Let_def)
  next
    case (Inr resp)
    show ?thesis
    proof (cases "status_retries c \<le> int attempt")
      case True
      with sent Inr show ?thesis by (subst status_loop.simps) (simp add: Let_def)
    next
      case False
      then have d: "Suc (nat (status_retries c - int (Suc attempt))) = nat (status_retries c - int attempt)" by simp
      have more: "ar_sent (status_loop c w now (Suc attempt) (fst (tracker_set now StateConnected (ar_tracker ?r)))) \<le>
          3 * nat (status_retries c - int attempt)" if "299 < resp_status resp" "retryable_status (resp_status resp)"
          "retry_after (api_error_of w resp) \<le> max_wait_of c" "ctx_ends_status w attempt = None"
        using 1 [OF refl Inr refl refl] that False unfolding d by simp
      show ?thesis
        using sent more Inr False
        by (subst status_loop.simps) (auto simp: Let_def split: option.split)
    qed
  qed
qed

lemma status_waits:
  "x \<in> set (ar_waits (status_loop c w now attempt t)) \<Longrightarrow> x \<le> max_wait_of c \<or> (\<exists>n. x = backoff_of c (int n))"
proof (induction c w now attempt t rule: status_loop.induct)
  case (1 c w now attempt t)
  let ?r = "do_chat_request c w now attempt t"
  obtain n where n: "ar_waits ?r = map (\<lambda>k. backoff_of c (int k)) [0..<n]"
    using do_chat_waits [of max_chat_retries c w now attempt t] by (auto simp: do_chat_request_def)
  show ?case
  proof (cases "ar_result ?r")
    case (Inl e)
    with 1(2) n show ?thesis by (subst (asm) status_loop.simps) (auto simp: Let_def)
  next
    case (Inr resp)
    note IH = 1(1) [OF refl Inr refl refl]
    show ?thesis
      using 1(2) n Inr IH unfolding status_loop.simps [of c w now attempt t]
      by (auto simp: Let_def split: option.splits if_splits)
  qed
qed

lemma status_ok:
  "ar_result (status_loop c w now attempt t) = Inr resp \<Longrightarrow>
     resp_status resp \<le> 299 \<and> conn (ar_tracker (status_loop c w now attempt t)) = StateConnected"
proof (induction c w now attempt t rule: status_loop.induct)
  case (1 c w now attempt t)
  let ?r = "do_chat_request c w now attempt t"
  show ?case
  proof (cases "ar_result ?r")
    case (Inl e)
    with 1(2) show ?thesis by (subst (asm) status_loop.simps) (simp add: Let_def)
  next
    case (Inr r)
    note IH = 1(1) [OF refl Inr refl refl]
    show ?thesis
      using 1(2) Inr IH unfolding status_loop.simps [of c w now attempt t]
      by (auto simp: Let_def split: option.splits if_splits)
  qed
qed

lemma do_chat_single:
  assumes "create w i 0 = None"
  shows "send w i 0 = Inl e \<Longrightarrow> error_is e Canceled \<or> error_is e DeadlineExceeded \<or> classify e = [] \<Longrightarrow>
      do_chat_request c w now i t = \<lparr>ar_tracker = t, ar_waits = [], ar_sent = 1, ar_result = Inl
        (if error_is e Canceled \<or> error_is e DeadlineExceeded then e else friendly c e)\<rparr>"
    and "send w i 0 = Inr r \<Longrightarrow>
      do_chat_request c w now i t = \<lparr>ar_tracker = t, ar_waits = [], ar_sent = 1, ar_result = Inr r\<rparr>"
  using assms by (auto simp: do_chat_request_def do_chat_left.simps [of max_chat_retries])

section \<open>Properties\<close>


text \<open>C17: Only transient failures are retried. When the first request fails with an error that
  is no transport error (or with the cancellation of the context), or is answered with an error
  status outside 429, 502, 503, 504, it is the only one: nothing is waited for, and the failure is
  returned at once, an error status as an \<open>APIError\<close> with its body cut to 1 KiB.\<close>
theorem permanent_failures_not_retried:
  assumes "create w 0 0 = None"
  shows "(send w 0 0 = Inl e \<longrightarrow> error_is e Canceled \<or> error_is e DeadlineExceeded \<or> classify e = [] \<longrightarrow>
      status_loop c w now 0 t = \<lparr>ar_tracker = t, ar_waits = [], ar_sent = 1, ar_result = Inl
        (if error_is e Canceled \<or> error_is e DeadlineExceeded then e else friendly c e)\<rparr>) \<and>
    (send w 0 0 = Inr r \<longrightarrow> 299 < resp_status r \<longrightarrow> \<not> retryable_status (resp_status r) \<longrightarrow>
      status_loop c w now 0 t = \<lparr>ar_tracker = fst (tracker_set now StateConnected t), ar_waits = [], ar_sent = 1,
        ar_result = Inl (ApiErr \<lparr>status_code = resp_status r, api_body = take 1024 (resp_body r),
          retry_after = parse_retry_after (date_until w) (resp_retry_after r)\<rparr>)\<rparr>)"
  unfolding status_loop.simps [of c w now 0 t]
  using do_chat_single [OF assms] by (auto simp: Let_def api_error_of_def)

lemma probing_set [simp]: "probing (fst (tracker_set n s t)) = probing t"
  by (rule tracker_simps(3))

text \<open>C18: The connection indicator tells the truth about the request phase of a chat. A response
  handed on has a success status and leaves the tracker Connected. A failure that is a transport
  error leaves it Disconnected, and, unless it was Disconnected already, with a recovery probe
  claimed.\<close>
theorem chat_outcome_tracked:
  "(case cs_result (chat_request_phase c w now t) of
      Inr resp \<Rightarrow> resp_status resp \<le> 299 \<and> conn (cs_tracker (chat_request_phase c w now t)) = StateConnected
    | Inl e \<Rightarrow> classify e \<noteq> [] \<longrightarrow>
        conn (cs_tracker (chat_request_phase c w now t)) = StateDisconnected \<and>
        (conn (ar_tracker (status_loop c w now 0 t)) \<noteq> StateDisconnected \<longrightarrow>
           probing (cs_tracker (chat_request_phase c w now t))))"
proof (cases "ar_result (status_loop c w now 0 t)")
  case (Inl e)
  let ?s = "tracker_set now StateDisconnected (ar_tracker (status_loop c w now 0 t))"
  have "conn (fst ?s) = StateDisconnected" "snd ?s = conn (ar_tracker (status_loop c w now 0 t))"
    by (simp_all add: tracker_set_def)
  with Inl show ?thesis
    by (cases ?s) (auto simp: chat_request_phase_def Let_def claim_probe_def split: prod.splits if_splits)
next
  case (Inr resp)
  with status_ok [OF Inr] show ?thesis by (simp add: chat_request_phase_def Let_def)
qed

section \<open>Witnesses\<close>

definition demo_client :: openai_client where
  "demo_client = \<lparr>endpoint = ''http://h/v1'', api_key = [], client_model = ''m'', max_tokens = 0,
     temperature = None, stall_timeout = 0, loop_guard = False, reasoning_budget = 0, connect_hint = [],
     status_retries = 0, status_retry_max_wait = 0, client_backoff = None\<rparr>"

definition demo_response :: response where
  "demo_response = \<lparr>resp_status = 200, resp_retry_after = [], resp_body = []\<rparr>"

text \<open>A server that is busy once and asks for a pause of two seconds, one that rejects, and a
  refused connection.\<close>

definition demo_world :: "(nat \<Rightarrow> nat \<Rightarrow> go_error + response) \<Rightarrow> (nat \<Rightarrow> nat \<Rightarrow> go_error option) \<Rightarrow> world" where
  "demo_world answer ends = \<lparr>create = (\<lambda>_ _. None), send = answer, ctx_ends = ends,
     ctx_ends_status = (\<lambda>_. None), date_until = (\<lambda>_. None)\<rparr>"

definition busy_once :: "nat \<Rightarrow> nat \<Rightarrow> go_error + response" where
  "busy_once i j = (if i = 0 then Inr (demo_response\<lparr>resp_status := 503, resp_retry_after := ''2''\<rparr>)
     else Inr demo_response)"

definition rejecting :: "nat \<Rightarrow> nat \<Rightarrow> go_error + response" where
  "rejecting i j = Inr (demo_response\<lparr>resp_status := 400, resp_body := ''bad''\<rparr>)"

definition refusing :: "nat \<Rightarrow> nat \<Rightarrow> go_error + response" where
  "refusing i j = Inl (UrlErr (OpErr (SyscallErr (Errno ECONNREFUSED))))"

lemma do_chat_answered:
  "create w i 0 = None \<Longrightarrow> send w i 0 = Inr r \<Longrightarrow>
     do_chat_request c w now i t = \<lparr>ar_tracker = t, ar_waits = [], ar_sent = 1, ar_result = Inr r\<rparr>"
  by (rule do_chat_single(2))

lemma busy_run:
  "status_loop (demo_client\<lparr>status_retries := 1\<rparr>) (demo_world busy_once (\<lambda>_ _. None)) 7 0 zero_tracker =
     \<lparr>ar_tracker = zero_tracker, ar_waits = [2 * second], ar_sent = 2, ar_result = Inr demo_response\<rparr>"
proof -
  have p: "parse_retry_after (\<lambda>_. None) ''2'' = 2 * second"
  proof -
    have "trim_space ''2'' = ''2''" by (rule trim_space_plain) (simp add: plain_char_def is_space_def)
    moreover have "atoi ''2'' = Some 2" by code_simp
    ultimately show ?thesis by (simp add: parse_retry_after_def second_def wrap64_def)
  qed
  show ?thesis
    by (simp add: status_loop.simps [where attempt = 0] status_loop.simps [where attempt = "Suc 0"]
        do_chat_answered demo_world_def busy_once_def demo_response_def demo_client_def api_error_of_def p
        retryable_status_def max_wait_of_def tracker_set_def zero_tracker_def second_def Let_def)
qed


theorem permanent_failures_not_retried_witness:
  "ar_result (status_loop (demo_client\<lparr>status_retries := 3\<rparr>) (demo_world rejecting (\<lambda>_ _. None)) 7 0 zero_tracker) =
     Inl (ApiErr \<lparr>status_code = 400, api_body = ''bad'', retry_after = 0\<rparr>)"
proof -
  let ?w = "demo_world rejecting (\<lambda>_ _. None)" and ?c = "demo_client\<lparr>status_retries := 3\<rparr>"
  let ?r = "demo_response\<lparr>resp_status := 400, resp_body := ''bad''\<rparr>"
  have c: "create ?w 0 0 = None" and s: "send ?w 0 0 = Inr ?r" by (simp_all add: demo_world_def rejecting_def)
  have n: "299 < resp_status ?r" "\<not> retryable_status (resp_status ?r)" by (simp_all add: retryable_status_def)
  have p: "parse_retry_after f [] = 0" for f by (simp add: parse_retry_after_def trim_space_plain)
  show ?thesis
    using permanent_failures_not_retried [OF c, of undefined ?c 7 zero_tracker ?r, THEN conjunct2, rule_format, OF s n]
    by (simp add: demo_response_def p)
qed

definition refused :: go_error where
  "refused = UrlErr (OpErr (SyscallErr (Errno ECONNREFUSED)))"

lemma refused_simps [simp]:
  "classify refused = ''connection refused''" "\<not> error_is refused Canceled" "\<not> error_is refused DeadlineExceeded"
  "classify (friendly c refused) = ''connection refused''"
  by (simp_all add: refused_def classify_def error_as_def errno_tag_def error_is_def friendly_def friendly_http_error_def
      ECONNREFUSED_def)

lemma refusing_simps [simp]:
  "create (demo_world a ends) i j = None" "ctx_ends (demo_world a ends) i j = ends i j"
  "send (demo_world refusing ends) i j = Inl refused"
  by (simp_all add: demo_world_def refusing_def refused_def)

lemma refusing_left:
  "ar_result (do_chat_left n c (demo_world refusing (\<lambda>_ _. None)) now i t) = Inl (friendly c refused) \<and>
   conn (ar_tracker (do_chat_left n c (demo_world refusing (\<lambda>_ _. None)) now i t)) = StateReconnecting"
proof (induction n arbitrary: t)
  case 0
  show ?case by (subst (1 2) do_chat_left.simps) (simp add: Let_def)
next
  case (Suc n)
  then show ?case by (subst (1 2) do_chat_left.simps) (simp add: Let_def)
qed

theorem chat_outcome_tracked_witness:
  "probing (cs_tracker (chat_request_phase demo_client (demo_world refusing (\<lambda>_ _. None)) 7 zero_tracker))"
proof -
  let ?w = "demo_world refusing (\<lambda>_ _. None)"
  have run: "ar_result (status_loop demo_client ?w 7 0 zero_tracker) = Inl (friendly demo_client refused)"
    "conn (ar_tracker (status_loop demo_client ?w 7 0 zero_tracker)) = StateReconnecting"
    by (simp_all add: status_loop.simps [where attempt = 0] do_chat_request_def refusing_left Let_def)
  then have "cs_result (chat_request_phase demo_client ?w 7 zero_tracker) = Inl (friendly demo_client refused)"
    by (simp add: chat_request_phase_def Let_def split: prod.split)
  then show ?thesis
    using chat_outcome_tracked [of demo_client ?w 7 zero_tracker] run(2) by simp
qed

text \<open>
  The gap in the tracking: when the context ends during the pause before a retry, the chat returns
  the context's error, which is no transport error, and the tracker stays Reconnecting with no probe
  to clear it.
\<close>

lemma cancelled_backoff_stays_reconnecting:
  "conn (cs_tracker (chat_request_phase demo_client (demo_world refusing (\<lambda>_ _. Some Canceled)) 7 zero_tracker)) =
     StateReconnecting \<and>
   \<not> probing (cs_tracker (chat_request_phase demo_client (demo_world refusing (\<lambda>_ _. Some Canceled)) 7 zero_tracker))"
proof -
  let ?w = "demo_world refusing (\<lambda>_ _. Some Canceled)"
  have n: "max_chat_retries = Suc 1" by (simp add: max_chat_retries_def)
  have r: "do_chat_request demo_client ?w 7 0 zero_tracker =
      \<lparr>ar_tracker = fst (tracker_set 7 StateReconnecting zero_tracker), ar_waits = [], ar_sent = 1,
       ar_result = Inl Canceled\<rparr>"
    unfolding do_chat_request_def n by (subst do_chat_left.simps) (simp add: Let_def)
  have "classify Canceled = []"
    by (simp add: classify_def error_as_def error_is_def)
  moreover have "status_loop demo_client ?w 7 0 zero_tracker = do_chat_request demo_client ?w 7 0 zero_tracker"
    by (simp add: status_loop.simps [where attempt = 0] r Let_def)
  moreover have "\<not> probing zero_tracker" by (simp add: zero_tracker_def)
  ultimately show ?thesis by (simp add: chat_request_phase_def r Let_def)
qed

end
