(* ===== verification/ToolCalls.thy ===== *)
theory ToolCalls
  imports Messages "HOL-Library.AList"
begin

text \<open>
  The tool-call accumulator of llm/toolcall.go: streamed fragments are merged per delta index,
  and \<open>Finalize\<close> reads the calls out in index order. The Go map is an association list
  with distinct keys; its iteration order does not matter, which is proved.
\<close>

section \<open>State and operations\<close>

text \<open>
  An \<open>any\<close> value of a delta: one decoded from JSON (\<open>nil\<close> is \<open>JNull\<close>), or a Go value
  \<open>json.Marshal\<close> refuses.
\<close>

datatype any_value = Decoded json | Unsupported

datatype merge_error = MergeArgs

text \<open>\<open>DTCall\<close>\<close>

record dt_call =
  dt_index :: int
  dt_id :: string
  dt_name :: string
  dt_args :: any_value

type_synonym accumulator = "(int \<times> tool_call) list"

definition new_accumulator :: accumulator where
  "new_accumulator = []"

fun coerce_arguments :: "any_value \<Rightarrow> merge_error + string" where
  "coerce_arguments (Decoded (JStr s)) = Inr s"
| "coerce_arguments (Decoded JNull) = Inr []"
| "coerce_arguments (Decoded j) = Inr (json_render (json_any j))"
| "coerce_arguments Unsupported = Inl MergeArgs"

definition new_call :: tool_call where
  "new_call = \<lparr>call_id = [], call_type = ''function'', fn = \<lparr>fn_name = [], arguments = []\<rparr>\<rparr>"

definition call_at :: "accumulator \<Rightarrow> int \<Rightarrow> tool_call" where
  "call_at a i = (case map_of a i of None \<Rightarrow> new_call | Some c \<Rightarrow> c)"

definition merge_header :: "dt_call \<Rightarrow> tool_call \<Rightarrow> tool_call" where
  "merge_header d c =
     c\<lparr>call_id := (if dt_id d \<noteq> [] then dt_id d else call_id c),
       fn := (fn c)\<lparr>fn_name := fn_name (fn c) @ dt_name d\<rparr>\<rparr>"

definition append_args :: "string \<Rightarrow> tool_call \<Rightarrow> tool_call" where
  "append_args s c = c\<lparr>fn := (fn c)\<lparr>arguments := arguments (fn c) @ s\<rparr>\<rparr>"

text \<open>
  One iteration of \<open>Merge\<close>. The header is written before the arguments are looked at, so it
  stays when they cannot be marshalled.
\<close>

definition merge_one :: "accumulator \<Rightarrow> dt_call \<Rightarrow> accumulator \<times> merge_error option" where
  "merge_one a d =
     (let c = merge_header d (call_at a (dt_index d));
          a' = AList.update (dt_index d) c a
      in if dt_args d = Decoded JNull then (a', None)
         else case coerce_arguments (dt_args d) of
                Inl e \<Rightarrow> (a', Some e)
              | Inr s \<Rightarrow> (AList.update (dt_index d) (append_args s c) a', None))"

fun merge_delta :: "accumulator \<Rightarrow> dt_call list \<Rightarrow> accumulator \<times> merge_error option" where
  "merge_delta a [] = (a, None)"
| "merge_delta a (d # ds) =
     (case merge_one a d of
        (a', Some e) \<Rightarrow> (a', Some e)
      | (a', None) \<Rightarrow> merge_delta a' ds)"

text \<open>\<open>Finalize\<close>: nameless calls are dropped, missing ids synthesised (and kept in the map).\<close>

definition synth_id :: "int \<Rightarrow> string" where
  "synth_id i = ''call_'' @ itoa i"

definition with_id :: "int \<Rightarrow> tool_call \<Rightarrow> tool_call" where
  "with_id i c = (if call_id c = [] then c\<lparr>call_id := synth_id i\<rparr> else c)"

fun finalize_loop :: "accumulator \<Rightarrow> int list \<Rightarrow> accumulator \<times> tool_call list" where
  "finalize_loop a [] = (a, [])"
| "finalize_loop a (i # is) =
     (let c = call_at a i in
      if fn_name (fn c) = [] then finalize_loop a is
      else let (a', cs) = finalize_loop (AList.update i (with_id i c) a) is in (a', with_id i c # cs))"

definition finalize :: "accumulator \<Rightarrow> accumulator \<times> tool_call list" where
  "finalize a = finalize_loop a (sort (map fst a))"

section \<open>Merging\<close>

lemma call_at_update [simp]:
  "call_at (AList.update i c a) j = (if i = j then c else call_at a j)"
  by (simp add: call_at_def update_conv')

lemma merge_one_other: "dt_index d \<noteq> i \<Longrightarrow> call_at (fst (merge_one a d)) i = call_at a i"
  by (simp add: merge_one_def Let_def split: sum.splits)

lemma merge_one_keys: "set (map fst (fst (merge_one a d))) = insert (dt_index d) (set (map fst a))"
  by (auto simp: merge_one_def Let_def dom_update split: sum.splits)

lemma merge_one_distinct: "distinct (map fst a) \<Longrightarrow> distinct (map fst (fst (merge_one a d)))"
  by (simp add: merge_one_def Let_def distinct_update split: sum.splits)

text \<open>The text a delta contributes to its call's arguments.\<close>

definition args_text :: "dt_call \<Rightarrow> string" where
  "args_text d = (case coerce_arguments (dt_args d) of Inl _ \<Rightarrow> [] | Inr s \<Rightarrow> s)"

definition mergeable :: "dt_call \<Rightarrow> bool" where
  "mergeable d \<longleftrightarrow> dt_args d \<noteq> Unsupported"

lemma coerce_ok: "mergeable d \<Longrightarrow> coerce_arguments (dt_args d) = Inr (args_text d)"
  unfolding mergeable_def args_text_def by (cases "dt_args d" rule: coerce_arguments.cases) auto

lemma merge_one_ok:
  assumes "mergeable d"
  shows "snd (merge_one a d) = None"
    "call_at (fst (merge_one a d)) (dt_index d) =
       append_args (args_text d) (merge_header d (call_at a (dt_index d)))"
proof -
  have "args_text d = []" if "dt_args d = Decoded JNull" using that by (simp add: args_text_def)
  then show "snd (merge_one a d) = None"
    "call_at (fst (merge_one a d)) (dt_index d) =
       append_args (args_text d) (merge_header d (call_at a (dt_index d)))"
    using coerce_ok [OF assms] by (auto simp: merge_one_def Let_def append_args_def)
qed

lemma merge_delta_append:
  "merge_delta a (ds @ es) =
     (case merge_delta a ds of (a', Some e) \<Rightarrow> (a', Some e) | (a', None) \<Rightarrow> merge_delta a' es)"
  by (induction ds arbitrary: a) (auto split: prod.splits option.splits)

lemma merge_delta_ok: "list_all mergeable ds \<Longrightarrow> snd (merge_delta a ds) = None"
proof (induction ds arbitrary: a)
  case (Cons d ds)
  then obtain a' where "merge_one a d = (a', None)"
    using merge_one_ok(1) [of d a] by (cases "merge_one a d") auto
  with Cons show ?case by simp
qed simp

lemma merge_delta_keys:
  "list_all mergeable ds \<Longrightarrow>
   set (map fst (fst (merge_delta a ds))) = dt_index ` set ds \<union> set (map fst a)"
proof (induction ds arbitrary: a)
  case (Cons d ds)
  then obtain a' where a': "merge_one a d = (a', None)"
    using merge_one_ok(1) [of d a] by (cases "merge_one a d") auto
  with merge_one_keys [of a d] Cons show ?case by simp
qed simp

lemma merge_delta_distinct: "distinct (map fst a) \<Longrightarrow> distinct (map fst (fst (merge_delta a ds)))"
proof (induction ds arbitrary: a)
  case (Cons d ds)
  obtain a' r where a': "merge_one a d = (a', r)" by (cases "merge_one a d")
  with merge_one_distinct [OF Cons.prems, of d] Cons.IH [of a'] show ?case
    by (cases r) auto
qed simp

text \<open>The fragments of one index, in order, are what its call is made of.\<close>

definition fragments :: "int \<Rightarrow> dt_call list \<Rightarrow> dt_call list" where
  "fragments i ds = filter (\<lambda>d. dt_index d = i) ds"

fun last_id :: "string \<Rightarrow> dt_call list \<Rightarrow> string" where
  "last_id s [] = s"
| "last_id s (d # ds) = last_id (if dt_id d \<noteq> [] then dt_id d else s) ds"

definition assembled :: "tool_call \<Rightarrow> dt_call list \<Rightarrow> tool_call" where
  "assembled c ds =
     c\<lparr>call_id := last_id (call_id c) ds,
       fn := \<lparr>fn_name = fn_name (fn c) @ concat (map dt_name ds),
             arguments = arguments (fn c) @ concat (map args_text ds)\<rparr>\<rparr>"

lemma assembled_Nil [simp]: "assembled c [] = c"
  by (simp add: assembled_def)

lemma assembled_Cons [simp]:
  "assembled c (d # ds) = assembled (append_args (args_text d) (merge_header d c)) ds"
  by (simp add: assembled_def append_args_def merge_header_def)

lemma foldl_assembled:
  "foldl (\<lambda>c d. append_args (args_text d) (merge_header d c)) c ds = assembled c ds"
  by (induction ds arbitrary: c) simp_all

subsection \<open>The interface: an accumulator keyed by index\<close>

text \<open>
  What the stream loops rely on: merging an item changes the cell of its key only. Then a cell
  is the fold of the items of its key, whatever the other keys received in between.
\<close>

locale keyed_fold =
  fixes put :: "'a \<Rightarrow> 'd \<Rightarrow> 'a" and cell :: "'a \<Rightarrow> 'k \<Rightarrow> 'c"
    and key :: "'d \<Rightarrow> 'k" and add :: "'c \<Rightarrow> 'd \<Rightarrow> 'c" and good :: "'d \<Rightarrow> bool"
  assumes put_cell: "good d \<Longrightarrow> cell (put a d) k = (if key d = k then add (cell a k) d else cell a k)"
begin

lemma foldl_cell:
  "list_all good ds \<Longrightarrow> cell (foldl put a ds) k = foldl add (cell a k) (filter (\<lambda>d. key d = k) ds)"
  by (induction ds arbitrary: a) (auto simp: put_cell)

lemma interleaving:
  assumes "list_all good ds" "list_all good es"
    and "\<And>k. filter (\<lambda>d. key d = k) ds = filter (\<lambda>d. key d = k) es"
  shows "cell (foldl put a ds) = cell (foldl put a es)"
  by (rule ext) (simp only: foldl_cell [OF assms(1)] foldl_cell [OF assms(2)] assms(3))

end

interpretation tool_cells: keyed_fold "\<lambda>a d. fst (merge_one a d)" call_at dt_index
  "\<lambda>c d. append_args (args_text d) (merge_header d c)" mergeable
  by unfold_locales (auto simp: merge_one_other merge_one_ok(2))

lemma merge_delta_foldl:
  "list_all mergeable ds \<Longrightarrow> fst (merge_delta a ds) = foldl (\<lambda>a d. fst (merge_one a d)) a ds"
proof (induction ds arbitrary: a)
  case (Cons d ds)
  then obtain a' where "merge_one a d = (a', None)"
    using merge_one_ok(1) [of d a] by (cases "merge_one a d") auto
  with Cons show ?case by simp
qed simp

lemma merge_delta_assembled:
  "list_all mergeable ds \<Longrightarrow>
   call_at (fst (merge_delta a ds)) i = assembled (call_at a i) (fragments i ds)"
  by (simp add: merge_delta_foldl tool_cells.foldl_cell foldl_assembled fragments_def)

section \<open>Finalizing\<close>

lemma finalize_loop_result:
  "distinct is \<Longrightarrow> snd (finalize_loop a is) =
     map (\<lambda>i. with_id i (call_at a i)) (filter (\<lambda>i. fn_name (fn (call_at a i)) \<noteq> []) is)"
proof (induction "is" arbitrary: a)
  case (Cons i "is")
  have *: "\<And>c. map (\<lambda>j. with_id j (call_at (AList.update i c a) j))
        (filter (\<lambda>j. fn_name (fn (call_at (AList.update i c a) j)) \<noteq> []) is) =
      map (\<lambda>j. with_id j (call_at a j)) (filter (\<lambda>j. fn_name (fn (call_at a j)) \<noteq> []) is)"
    using Cons.prems by (intro map_cong filter_cong) auto
  show ?case using Cons * by (auto simp: Let_def split_beta)
qed simp

lemma finalize_loop_keys:
  "set is \<subseteq> set (map fst a) \<Longrightarrow> map fst (fst (finalize_loop a is)) = map fst a"
proof (induction "is" arbitrary: a)
  case (Cons i "is")
  then have k: "map fst (AList.update i c a) = map fst a" for c by (simp add: update_keys)
  then have "set is \<subseteq> set (map fst (AList.update i c a))" for c using Cons.prems by (simp only:) simp
  from Cons.IH [OF this] k Cons.IH [of a] Cons.prems show ?case by (simp add: Let_def split_beta)
qed simp

lemma finalize_loop_call_at:
  "distinct is \<Longrightarrow> call_at (fst (finalize_loop a is)) j =
     (if j \<in> set is \<and> fn_name (fn (call_at a j)) \<noteq> [] then with_id j (call_at a j) else call_at a j)"
  by (induction "is" arbitrary: a) (auto simp: Let_def split_beta)

lemma with_id_simps [simp]:
  "call_id (with_id i c) \<noteq> []" "fn (with_id i c) = fn c" "call_type (with_id i c) = call_type c"
  "with_id i (with_id i c) = with_id i c"
  by (auto simp: with_id_def synth_id_def)

text \<open>The named indices, in increasing order.\<close>

definition named_indices :: "accumulator \<Rightarrow> int list" where
  "named_indices a = filter (\<lambda>i. fn_name (fn (call_at a i)) \<noteq> []) (sort (map fst a))"

lemma finalize_result:
  "distinct (map fst a) \<Longrightarrow> snd (finalize a) = map (\<lambda>i. with_id i (call_at a i)) (named_indices a)"
  by (simp add: finalize_def finalize_loop_result named_indices_def)

lemma named_indices_sorted: "distinct (map fst a) \<Longrightarrow> sorted_wrt (<) (named_indices a)"
  unfolding named_indices_def by (intro sorted_wrt_filter) (simp add: strict_sorted_iff)

lemma set_named_indices:
  "set (named_indices a) = {i. fn_name (fn (call_at a i)) \<noteq> []}"
proof -
  have "i \<in> set (map fst a)" if "fn_name (fn (call_at a i)) \<noteq> []" for i
  proof (rule ccontr)
    assume "i \<notin> set (map fst a)"
    then have "map_of a i = None" by (simp add: map_of_eq_None_iff)
    with that show False by (simp add: call_at_def new_call_def)
  qed
  then show ?thesis by (auto simp: named_indices_def)
qed

lemma finalize_order_free:
  assumes "distinct (map fst a)" "distinct (map fst b)" "map_of a = map_of b"
  shows "snd (finalize a) = snd (finalize b)"
proof -
  have "call_at a = call_at b" by (simp add: call_at_def assms(3) fun_eq_iff)
  moreover have "set (map fst a) = set (map fst b)"
    using assms(3) by (metis dom_map_of_conv_image_fst list.set_map)
  then have "sort (map fst a) = sort (map fst b)"
    using assms by (intro sorted_distinct_set_unique) simp_all
  ultimately show ?thesis using assms by (simp add: finalize_result named_indices_def)
qed

lemma finalize_idem:
  assumes "distinct (map fst a)"
  shows "snd (finalize (fst (finalize a))) = snd (finalize a)"
proof -
  let ?a = "fst (finalize a)"
  have keys: "map fst ?a = map fst a" by (simp add: finalize_def finalize_loop_keys)
  have at: "call_at ?a j = (if fn_name (fn (call_at a j)) \<noteq> [] then with_id j (call_at a j) else call_at a j)" for j
    using assms set_named_indices [of a]
    by (auto simp: finalize_def finalize_loop_call_at named_indices_def)
  have "named_indices ?a = named_indices a"
    unfolding named_indices_def keys at by (intro filter_cong) auto
  then show ?thesis
    using assms keys set_named_indices [of a] by (simp add: finalize_result at)
qed


section \<open>Properties\<close>

text \<open>The calls a stream of deltas announces: the indices whose fragments carry a name.\<close>

definition announced :: "dt_call list \<Rightarrow> int list" where
  "announced ds = filter (\<lambda>i. concat (map dt_name (fragments i ds)) \<noteq> [])
     (sort (remdups (map dt_index ds)))"

lemma call_at_new [simp]: "call_at new_accumulator i = new_call"
  by (simp add: call_at_def new_accumulator_def)

lemma sort_keys_merge:
  assumes "list_all mergeable ds"
  shows "sort (map fst (fst (merge_delta new_accumulator ds))) = sort (remdups (map dt_index ds))"
proof (rule sorted_distinct_set_unique)
  show "distinct (sort (map fst (fst (merge_delta new_accumulator ds))))"
    using merge_delta_distinct [of new_accumulator ds] by (simp add: new_accumulator_def)
  show "set (sort (map fst (fst (merge_delta new_accumulator ds)))) =
      set (sort (remdups (map dt_index ds)))"
    using merge_delta_keys [OF assms, of new_accumulator] by (simp add: new_accumulator_def)
qed simp_all

lemma finalize_merge:
  assumes "list_all mergeable ds"
  shows "snd (finalize (fst (merge_delta new_accumulator ds))) =
    map (\<lambda>i. with_id i (assembled new_call (fragments i ds))) (announced ds)"
proof -
  let ?a = "fst (merge_delta new_accumulator ds)"
  have "distinct (map fst ?a)"
    by (rule merge_delta_distinct) (simp add: new_accumulator_def)
  moreover have "named_indices ?a = announced ds"
    unfolding named_indices_def announced_def sort_keys_merge [OF assms]
    by (simp add: merge_delta_assembled [OF assms] assembled_def new_call_def)
  ultimately show ?thesis
    by (simp add: finalize_result merge_delta_assembled [OF assms])
qed


definition demo_deltas :: "dt_call list" where
  "demo_deltas =
     [\<lparr>dt_index = 1, dt_id = ''b'', dt_name = ''write'', dt_args = Decoded (JStr ''{'')\<rparr>,
      \<lparr>dt_index = 0, dt_id = [], dt_name = ''read'', dt_args = Decoded JNull\<rparr>,
      \<lparr>dt_index = 1, dt_id = [], dt_name = [], dt_args = Decoded (JStr ''}'')\<rparr>,
      \<lparr>dt_index = 7, dt_id = ''noise'', dt_name = [], dt_args = Decoded (JObj [(''k'', JNum ''1'')])\<rparr>]"


text \<open>Only the order of fragments within one call matters: two delta streams that agree on
  every index's fragments, however the indices are interleaved and cut into chunks, finalize to
  the same calls.\<close>
theorem tool_calls_interleaving:
  assumes "list_all mergeable ds" "list_all mergeable es" "\<And>i. fragments i ds = fragments i es"
  shows "snd (finalize (fst (merge_delta new_accumulator ds))) =
    snd (finalize (fst (merge_delta new_accumulator es)))"
proof -
  have "set (map dt_index ds) = {i. fragments i ds \<noteq> []}" for ds
    by (auto simp: fragments_def filter_empty_conv)
  then have "set (map dt_index ds) = set (map dt_index es)" by (simp only: assms(3))
  then have "sort (remdups (map dt_index ds)) = sort (remdups (map dt_index es))"
    by (intro sorted_distinct_set_unique) simp_all
  then have "announced ds = announced es" unfolding announced_def by (simp add: assms(3))
  then show ?thesis using assms by (simp add: finalize_merge)
qed

theorem tool_calls_interleaving_witness:
  "snd (finalize (fst (merge_delta new_accumulator (rev (take 2 demo_deltas))))) =
   snd (finalize (fst (merge_delta new_accumulator (take 2 demo_deltas))))"
  by (rule tool_calls_interleaving) (auto simp: demo_deltas_def mergeable_def fragments_def)

text \<open>\<open>Finalize\<close> is stable: it does not depend on the iteration order of the Go map,
  finalizing again returns the same calls (the synthesised ids are kept), and every returned
  call has an id and a name.\<close>
theorem finalize_deterministic:
  assumes "distinct (map fst a)" and "distinct (map fst b)" and "map_of a = map_of b"
  shows "snd (finalize a) = snd (finalize b) \<and>
    snd (finalize (fst (finalize a))) = snd (finalize a) \<and>
    list_all (\<lambda>c. call_id c \<noteq> [] \<and> fn_name (fn c) \<noteq> []) (snd (finalize a))"
proof (intro conjI)
  show "list_all (\<lambda>c. call_id c \<noteq> [] \<and> fn_name (fn c) \<noteq> []) (snd (finalize a))"
    using set_named_indices [of a] assms(1) by (auto simp: finalize_result list_all_iff)
qed (rule finalize_order_free [OF assms], rule finalize_idem [OF assms(1)])

theorem finalize_deterministic_witness:
  "snd (finalize [(2, new_call\<lparr>fn := \<lparr>fn_name = ''x'', arguments = []\<rparr>\<rparr>), (1, new_call)]) =
   snd (finalize [(1, new_call), (2, new_call\<lparr>fn := \<lparr>fn_name = ''x'', arguments = []\<rparr>\<rparr>)])"
  by (rule finalize_deterministic [THEN conjunct1]) (auto simp: fun_eq_iff)

end
