(* ===== verification/LoopGuard.thy ===== *)
theory LoopGuard
  imports Utf8
begin

text \<open>
  The degeneration guard of llm/loopguard.go: the cyclic check on a rolling tail of generated
  runes and the novelty check on a window of reasoning. A float ratio of counts is compared with
  the floor 0.30 in exact arithmetic, which agrees with the float comparison for all counts the
  window can give (a rounded quotient equals the rounded 0.30 only for a quotient of exactly
  3/10).
\<close>

unbundle bit_operations_syntax

section \<open>State and operations\<close>

record detector =
  tail :: "nat list"
  since :: nat
  rbuf :: "nat list"
  rsince :: nat
  low_streak :: nat

definition rd_max_tail :: nat where "rd_max_tail = 1024"
definition rd_check_every :: nat where "rd_check_every = 64"
definition rd_min_repeat_len :: nat where "rd_min_repeat_len = 48"
definition rd_min_reps :: nat where "rd_min_reps = 4"
definition rd_max_cycle_runes :: nat where "rd_max_cycle_runes = 128"

definition nt_shingle_runes :: nat where "nt_shingle_runes = 24"
definition nt_stride :: nat where "nt_stride = 8"
definition nt_window_runes :: nat where "nt_window_runes = 3072"
definition nt_check_every :: nat where "nt_check_every = 256"
definition nt_persist :: nat where "nt_persist = 3"

lemmas rd_consts = rd_max_tail_def rd_check_every_def rd_min_repeat_len_def rd_min_reps_def
  rd_max_cycle_runes_def
lemmas nt_consts = nt_shingle_runes_def nt_stride_def nt_window_runes_def nt_check_every_def nt_persist_def

definition new_detector :: detector where
  "new_detector = \<lparr>tail = [], since = 0, rbuf = [], rsince = 0, low_streak = 0\<rparr>"

definition is_cyclic_suffix :: "nat list \<Rightarrow> nat \<Rightarrow> nat \<Rightarrow> bool" where
  "is_cyclic_suffix b unit span =
     (let suf = drop (length b - span) b
      in list_all (\<lambda>i. suf ! i = suf ! (i - unit)) [unit..<span])"

definition reps_for :: "nat \<Rightarrow> nat" where
  "reps_for unit =
     (if unit * rd_min_reps < rd_min_repeat_len then (rd_min_repeat_len + unit - 1) div unit else rd_min_reps)"

definition cyclic :: "nat list \<Rightarrow> bool" where
  "cyclic t =
     (let n = length t in
      if n < rd_min_repeat_len then False
      else list_ex (\<lambda>unit. \<not> n < unit * reps_for unit \<and> is_cyclic_suffix t unit (unit * reps_for unit))
             [1..<Suc (min (n div rd_min_reps) rd_max_cycle_runes)])"

text \<open>The last \<open>n\<close> elements; both windows are cut this way.\<close>

definition keep_last :: "nat \<Rightarrow> 'a list \<Rightarrow> 'a list" where
  "keep_last n xs = (if n < length xs then drop (length xs - n) xs else xs)"

definition add :: "detector \<Rightarrow> string \<Rightarrow> detector \<times> bool" where
  "add d s =
     (let d' = d\<lparr>tail := keep_last rd_max_tail (tail d @ runes s), since := since d + length (runes s)\<rparr>
      in if since d' < rd_check_every then (d', False)
         else (d'\<lparr>since := 0\<rparr>, cyclic (tail d')))"

text \<open>The shingle hash and the counts of distinct and all shingles.\<close>

definition shingle_hash :: "nat list \<Rightarrow> 64 word" where
  "shingle_hash rs = foldl (\<lambda>h r. (h XOR of_nat r) * 1099511628211) 1469598103934665603 rs"

function shingles :: "nat list \<Rightarrow> 64 word list" where
  "shingles buf =
     (if length buf < nt_shingle_runes then []
      else shingle_hash (take nt_shingle_runes buf) # shingles (drop nt_stride buf))"
  by auto
termination
  by (relation "measure length") (auto simp: nt_consts)

declare shingles.simps [simp del]

definition distinct_shingles :: "nat list \<Rightarrow> nat \<times> nat" where
  "distinct_shingles buf =
     (if length buf < nt_shingle_runes then (1, 1)
      else let hs = shingles buf in if length hs = 0 then (1, 1) else (length (remdups hs), length hs))"

definition below_floor :: "nat \<times> nat \<Rightarrow> bool" where
  "below_floor r \<longleftrightarrow> 10 * fst r < 3 * snd r"

definition add_reasoning :: "detector \<Rightarrow> string \<Rightarrow> detector \<times> bool" where
  "add_reasoning d s =
     (case add d s of
        (d1, True) \<Rightarrow> (d1, True)
      | (d1, False) \<Rightarrow>
          (let d2 = d1\<lparr>rbuf := keep_last nt_window_runes (rbuf d1 @ runes s), rsince := rsince d1 + length (runes s)\<rparr>
           in if length (rbuf d2) < nt_window_runes \<or> rsince d2 < nt_check_every then (d2, False)
              else let d3 = d2\<lparr>rsince := 0,
                       low_streak := (if below_floor (distinct_shingles (rbuf d2)) then low_streak d2 + 1 else 0)\<rparr>
                   in (d3, nt_persist \<le> low_streak d3)))"

section \<open>The cyclic check\<close>

lemma keep_last_append: "keep_last n (keep_last n xs @ ys) = keep_last n (xs @ ys)"
  by (auto simp: keep_last_def add.commute)

lemma keep_last_length: "length (keep_last n xs) = min n (length xs)"
  by (simp add: keep_last_def)

lemma keep_last_suffix: "\<exists>pre. xs = pre @ keep_last n xs"
  by (metis append_take_drop_id append_Nil keep_last_def)

text \<open>A list that agrees with itself shifted by \<open>u\<close> is a repetition of its first block.\<close>

lemma periodic_repeat:
  assumes "0 < u"
  shows "length s = u * k \<Longrightarrow> 0 < k \<Longrightarrow> (\<forall>i \<in> {u..<u * k}. s ! i = s ! (i - u)) \<Longrightarrow>
    s = concat (replicate k (take u s))"
proof (induction k arbitrary: s)
  case (Suc k)
  show ?case
  proof (cases "k = 0")
    case True
    with Suc.prems show ?thesis by simp
  next
    case False
    let ?t = "drop u s"
    have len: "length ?t = u * k" using Suc.prems(1) by simp
    have "\<forall>i \<in> {u..<u * k}. ?t ! i = ?t ! (i - u)"
    proof
      fix i assume i: "i \<in> {u..<u * k}"
      then have "u + i \<in> {u..<u * Suc k}" by simp
      with Suc.prems(3) have "s ! (u + i) = s ! (u + i - u)" by blast
      then show "?t ! i = ?t ! (i - u)" using i Suc.prems(1) by simp
    qed
    with Suc.IH [OF len] False have t: "?t = concat (replicate k (take u ?t))" by simp
    have "take u ?t = take u s"
    proof (rule nth_equalityI)
      have "u \<le> u * k" using False by simp
      then show l: "length (take u ?t) = length (take u s)" using Suc.prems(1) by simp
      fix i assume "i < length (take u ?t)"
      then have i: "i < u" by simp
      have "i < u * k" by (rule less_le_trans [OF i \<open>u \<le> u * k\<close>])
      then have "u + i \<in> {u..<u * Suc k}" by simp
      with Suc.prems(3) have "s ! (u + i) = s ! (u + i - u)" by blast
      then show "take u ?t ! i = take u s ! i" using i Suc.prems(1) by simp
    qed
    then show ?thesis using t by (metis append_take_drop_id concat.simps(2) replicate_Suc)
  qed
qed simp

lemma nth_repeat: "i < length b * k \<Longrightarrow> concat (replicate k b) ! i = b ! (i mod length b)"
proof (induction k arbitrary: i)
  case (Suc k)
  then show ?case by (cases "i < length b") (simp_all add: nth_append le_mod_geq)
qed simp

lemma is_cyclic_suffix_iff:
  assumes "0 < u" "0 < k" "u * k \<le> length t"
  shows "is_cyclic_suffix t u (u * k) \<longleftrightarrow> (\<exists>pre b. t = pre @ concat (replicate k b) \<and> length b = u)"
proof
  let ?s = "drop (length t - u * k) t"
  have len: "length ?s = u * k" using assms(3) by simp
  assume "is_cyclic_suffix t u (u * k)"
  then have "\<forall>i \<in> {u..<u * k}. ?s ! i = ?s ! (i - u)"
    by (auto simp: is_cyclic_suffix_def list_all_iff Let_def)
  from periodic_repeat [OF assms(1) len assms(2) this]
  have "t = take (length t - u * k) t @ concat (replicate k (take u ?s))"
    by (metis append_take_drop_id)
  moreover have "u \<le> u * k" using assms(2) by simp
  then have "length (take u ?s) = u" using len by simp
  ultimately show "\<exists>pre b. t = pre @ concat (replicate k b) \<and> length b = u" by blast
next
  assume "\<exists>pre b. t = pre @ concat (replicate k b) \<and> length b = u"
  then obtain pre b where t: "t = pre @ concat (replicate k b)" and b: "length b = u" by blast
  have l: "length (concat (replicate k b)) = u * k" by (simp add: length_concat b sum_list_replicate)
  then have "drop (length t - u * k) t = concat (replicate k b)" by (simp add: t)
  moreover have "concat (replicate k b) ! i = concat (replicate k b) ! (i - u)" if "u \<le> i" "i < u * k" for i
  proof -
    have "i mod u = (i - u) mod u" using that by (simp add: le_mod_geq)
    then show ?thesis using that b nth_repeat [of i b k] nth_repeat [of "i - u" b k] by simp
  qed
  ultimately show "is_cyclic_suffix t u (u * k)"
    by (simp add: is_cyclic_suffix_def list_all_iff)
qed

text \<open>The repetitions the thresholds ask of a block: four, and at least 48 runes in all.\<close>

lemma reps_for_bounds:
  assumes "0 < u"
  shows "rd_min_reps \<le> reps_for u" "rd_min_repeat_len \<le> u * reps_for u"
proof -
  have "48 \<le> u * ((48 + u - 1) div u)"
  proof -
    have "(48 + u - 1) div u * u + (48 + u - 1) mod u = 48 + u - 1" by (rule div_mult_mod_eq)
    moreover have "(48 + u - 1) mod u < u" using assms by simp
    ultimately show ?thesis by (simp add: mult.commute)
  qed
  moreover have "4 \<le> (48 + u - 1) div u" if "u * 4 < 48"
  proof -
    have "4 * u \<le> 48 + u - 1" using that by simp
    then show ?thesis using assms by (simp add: less_eq_div_iff_mult_less_eq)
  qed
  ultimately show "rd_min_reps \<le> reps_for u" "rd_min_repeat_len \<le> u * reps_for u"
    by (auto simp: reps_for_def rd_consts)
qed

definition degenerate :: "nat list \<Rightarrow> bool" where
  "degenerate t \<longleftrightarrow> (\<exists>pre b. t = pre @ concat (replicate (reps_for (length b)) b) \<and>
     1 \<le> length b \<and> length b \<le> rd_max_cycle_runes)"

lemma cyclic_iff: "cyclic t \<longleftrightarrow> degenerate t"
proof
  assume "cyclic t"
  then have "list_ex (\<lambda>u. \<not> length t < u * reps_for u \<and> is_cyclic_suffix t u (u * reps_for u))
      [1..<Suc (min (length t div rd_min_reps) rd_max_cycle_runes)]"
    by (simp add: cyclic_def Let_def split: if_splits del: upt_Suc)
  then obtain u where u: "1 \<le> u" "u \<le> rd_max_cycle_runes" "u * reps_for u \<le> length t"
      "is_cyclic_suffix t u (u * reps_for u)"
    unfolding list_ex_iff by (auto simp del: upt_Suc)
  have "0 < reps_for u" using reps_for_bounds(1) [of u] u(1) by (simp add: rd_consts)
  with u obtain pre b where "t = pre @ concat (replicate (reps_for u) b)" "length b = u"
    using is_cyclic_suffix_iff [of u "reps_for u" t] by auto
  with u show "degenerate t" by (auto simp: degenerate_def)
next
  assume "degenerate t"
  then obtain pre b where t: "t = pre @ concat (replicate (reps_for (length b)) b)"
    and b: "1 \<le> length b" "length b \<le> rd_max_cycle_runes" by (auto simp: degenerate_def)
  let ?u = "length b"
  have pos: "0 < ?u" using b(1) by linarith
  note r = reps_for_bounds [OF pos]
  have n: "?u * reps_for ?u \<le> length t" by (simp add: t length_concat sum_list_replicate)
  have "?u * rd_min_reps \<le> length t" using n r(1) by (meson le_trans mult_le_mono2)
  then have "?u \<le> length t div rd_min_reps" by (simp add: less_eq_div_iff_mult_less_eq rd_consts)
  moreover have "is_cyclic_suffix t ?u (?u * reps_for ?u)"
  proof -
    have "0 < reps_for ?u" using r(1) by (simp add: rd_consts)
    from is_cyclic_suffix_iff [OF pos this n] t show ?thesis by blast
  qed
  ultimately show "cyclic t"
    using b n r(2) by (auto simp: cyclic_def Let_def list_ex_iff simp del: upt_Suc intro!: bexI [of _ ?u])
qed


section \<open>The streamed detector\<close>

text \<open>Feeding fragments until one trips, as the stream loop does.\<close>

fun feed :: "detector \<Rightarrow> string list \<Rightarrow> detector" where
  "feed d [] = d"
| "feed d (s # ss) = feed (fst (add d s)) ss"

lemma tail_add: "tail (fst (add d s)) = keep_last rd_max_tail (tail d @ runes s)"
  by (simp add: add_def Let_def)

lemma tail_feed: "tail (feed d ss) = keep_last rd_max_tail (tail d @ concat (map runes ss))"
  if "length (tail d) \<le> rd_max_tail"
  using that
proof (induction ss arbitrary: d)
  case Nil
  then show ?case by (simp add: keep_last_def)
next
  case (Cons s ss)
  have "length (tail (fst (add d s))) \<le> rd_max_tail" by (simp add: tail_add keep_last_length)
  from Cons.IH [OF this] show ?case by (simp add: tail_add keep_last_append)
qed

lemma since_add: "since (fst (add d s)) < rd_check_every"
  by (auto simp: add_def Let_def rd_consts)

lemma add_trips:
  "snd (add d s) \<longleftrightarrow> rd_check_every \<le> since d + length (runes s) \<and>
     degenerate (keep_last rd_max_tail (tail d @ runes s))"
  by (auto simp: add_def Let_def cyclic_iff)

lemma add_other [simp]:
  "rbuf (fst (add d s)) = rbuf d" "rsince (fst (add d s)) = rsince d" "low_streak (fst (add d s)) = low_streak d"
  by (simp_all add: add_def Let_def)

text \<open>
  How much reasoning has been fed bounds the streak: the first scan needs a full window and
  every further one another 256 runes. \<open>n\<close> is the number of reasoning runes fed so far.
\<close>

definition streak_ok :: "nat \<Rightarrow> detector \<Rightarrow> bool" where
  "streak_ok n d \<longleftrightarrow> length (rbuf d) \<le> n \<and> rsince d \<le> n \<and>
     (low_streak d = 0 \<or> nt_window_runes + nt_check_every * (low_streak d - 1) + rsince d \<le> n)"

lemma streak_add_reasoning:
  assumes ok: "streak_ok n d"
  shows "streak_ok (n + length (runes s)) (fst (add_reasoning d s))"
proof -
  obtain d1 b where a: "add d s = (d1, b)" by (cases "add d s")
  have d1: "rbuf d1 = rbuf d" "rsince d1 = rsince d" "low_streak d1 = low_streak d"
    using add_other [of d s] by (simp_all add: a)
  show ?thesis
  proof (cases b)
    case True
    with ok d1 show ?thesis by (auto simp: add_reasoning_def a streak_ok_def)
  next
    case False
    then have *: "add_reasoning d s =
      (let d2 = d1\<lparr>rbuf := keep_last nt_window_runes (rbuf d1 @ runes s), rsince := rsince d1 + length (runes s)\<rparr>
       in if length (rbuf d2) < nt_window_runes \<or> rsince d2 < nt_check_every then (d2, False)
          else let d3 = d2\<lparr>rsince := 0,
                   low_streak := (if below_floor (distinct_shingles (rbuf d2)) then low_streak d2 + 1 else 0)\<rparr>
               in (d3, nt_persist \<le> low_streak d3))"
      by (simp add: add_reasoning_def a)
    show ?thesis
    proof (cases "length (keep_last nt_window_runes (rbuf d1 @ runes s)) < nt_window_runes \<or>
        rsince d1 + length (runes s) < nt_check_every")
      case True
      with ok d1 show ?thesis
        unfolding * Let_def by (auto simp: streak_ok_def keep_last_length)
    next
      case False
      then have w: "nt_window_runes \<le> length (rbuf d) + length (runes s)"
          "nt_check_every \<le> rsince d + length (runes s)"
        by (auto simp: keep_last_length d1 nt_consts)
      then have n: "nt_window_runes \<le> n + length (runes s)" using ok by (simp add: streak_ok_def)
      have "low_streak d = 0 \<or> nt_window_runes + nt_check_every * low_streak d \<le> n + length (runes s)"
        using ok w(2) by (cases "low_streak d") (auto simp: streak_ok_def)
      with False ok d1 n show ?thesis
        unfolding * Let_def by (auto simp: streak_ok_def keep_last_length)
    qed
  qed
qed

fun feed_reasoning :: "detector \<Rightarrow> string list \<Rightarrow> detector" where
  "feed_reasoning d [] = d"
| "feed_reasoning d (s # ss) = feed_reasoning (fst (add_reasoning d s)) ss"

lemma streak_feed:
  "streak_ok n d \<Longrightarrow> streak_ok (n + length (concat (map runes ss))) (feed_reasoning d ss)"
proof (induction ss arbitrary: n d)
  case (Cons s ss)
  from Cons.IH [OF streak_add_reasoning [OF Cons.prems, of s]] show ?case by (simp add: add.assoc)
qed simp

lemma novelty_trip:
  assumes "snd (add_reasoning d s)"
  shows "snd (add d s) \<or>
    (nt_persist \<le> low_streak (fst (add_reasoning d s)) \<and>
     below_floor (distinct_shingles (rbuf (fst (add_reasoning d s)))) \<and>
     length (rbuf (fst (add_reasoning d s))) = nt_window_runes)"
proof -
  obtain d1 b where a: "add d s = (d1, b)" by (cases "add d s")
  show ?thesis
  proof (cases b)
    case True
    then show ?thesis by (simp add: a)
  next
    case False
    with assms show ?thesis
      by (auto simp: add_reasoning_def a Let_def keep_last_length nt_persist_def split: if_splits)
  qed
qed

section \<open>Properties\<close>


text \<open>The novelty check never punishes short reasoning. When a reasoning fragment trips the
  detector, either the cyclic check tripped, or at least 3072 + 2 * 256 runes of reasoning have
  been fed, the window is full, and less than 30 percent of its shingle hashes are distinct, for
  the third scan in a row.\<close>
theorem novelty_needs_sustained_reasoning:
  assumes "snd (add_reasoning (feed_reasoning new_detector ss) s)"
  shows "snd (add (feed_reasoning new_detector ss) s) \<or>
    (nt_window_runes + 2 * nt_check_every \<le> length (concat (map runes (ss @ [s]))) \<and>
     (let d = fst (add_reasoning (feed_reasoning new_detector ss) s) in
        length (rbuf d) = nt_window_runes \<and> 3 \<le> low_streak d \<and>
        10 * fst (distinct_shingles (rbuf d)) < 3 * snd (distinct_shingles (rbuf d))))"
proof -
  let ?d = "fst (add_reasoning (feed_reasoning new_detector ss) s)"
  have "streak_ok 0 new_detector" by (simp add: streak_ok_def new_detector_def)
  from streak_feed [OF this, of ss] have "streak_ok (length (concat (map runes ss))) (feed_reasoning new_detector ss)"
    by simp
  from streak_add_reasoning [OF this, of s]
  have ok: "streak_ok (length (concat (map runes (ss @ [s])))) ?d" by simp
  have "nt_window_runes + 2 * nt_check_every \<le> length (concat (map runes (ss @ [s])))" if "3 \<le> low_streak ?d"
  proof -
    have "nt_check_every * 2 \<le> nt_check_every * (low_streak ?d - 1)" using that by (intro mult_le_mono2) simp
    with ok that show ?thesis by (auto simp: streak_ok_def nt_consts)
  qed
  then show ?thesis
    using novelty_trip [OF assms] by (auto simp: Let_def below_floor_def nt_persist_def)
qed


theorem novelty_needs_sustained_reasoning_witness:
  "snd (add (feed_reasoning new_detector []) (replicate 64 (CHR ''a''))) \<or>
   nt_window_runes + 2 * nt_check_every \<le> length (concat (map runes ([] @ [replicate 64 (CHR ''a'')])))"
proof -
  let ?s = "replicate 64 (CHR ''a'')"
  have r: "runes ?s = replicate 64 97" by (subst runes_ascii) (simp_all add: list_all_length)
  have "concat (replicate n [x]) = replicate n x" for n and x :: nat by (induction n) simp_all
  moreover have "replicate (16 + 48) (97 :: nat) = replicate 16 97 @ replicate 48 97" by (rule replicate_add)
  ultimately have "replicate 64 (97 :: nat) = replicate 16 97 @ concat (replicate 48 [97])" by simp
  moreover have "reps_for (length [97 :: nat]) = 48" by (simp add: reps_for_def rd_consts)
  moreover have "1 \<le> length [97 :: nat]" "length [97 :: nat] \<le> rd_max_cycle_runes" by (simp_all add: rd_consts)
  ultimately have "degenerate (replicate 64 97)"
    unfolding degenerate_def by (intro exI [of _ "replicate 16 97"] exI [of _ "[97]"]) (simp only: simp_thms)
  then have "snd (add new_detector ?s)"
    by (simp add: add_trips r keep_last_def rd_consts new_detector_def)
  then have "snd (add_reasoning (feed_reasoning new_detector []) ?s)"
    by (auto simp: add_reasoning_def split: prod.splits bool.splits)
  from novelty_needs_sustained_reasoning [OF this] show ?thesis by blast
qed

end
