(* ===== verification/Sse.thy ===== *)
theory Sse
  imports Prelude
begin

text \<open>
  The event-stream parser of llm/sse.go: the lines a \<open>bufio.Scanner\<close> with a 16 MiB cap
  delivers, and the loop that turns \<open>data: \<close> lines into payloads until the done marker, the end
  of the stream or an error. A stream is the bytes that arrive before it ends, and how it ends
  (cleanly, or with a read error).
\<close>

definition newline :: char where "newline = CHR 10"
definition carriage_return :: char where "carriage_return = CHR 13"

definition max_line :: nat where
  "max_line = 16 * 1024 * 1024"

datatype sse_error = TooLong | ReadError string

section \<open>Lines\<close>

text \<open>\<open>bufio.ScanLines\<close> drops one carriage return at the end of a line.\<close>

definition drop_cr :: "string \<Rightarrow> string" where
  "drop_cr l = (if l \<noteq> [] \<and> last l = carriage_return then butlast l else l)"

definition first_line :: "string \<Rightarrow> string" where
  "first_line s = takeWhile (\<lambda>c. c \<noteq> newline) s"

text \<open>
  The tokens of the scanner, and whether it gave up on a line that, with its newline, does not
  fit the buffer. A last line without a newline is delivered when the input ends, also when it
  ends with an error.
\<close>

function scan_lines :: "string \<Rightarrow> string list \<times> bool" where
  "scan_lines [] = ([], False)"
| "scan_lines (c # s) =
     (let line = first_line (c # s); rest = drop (length line) (c # s) in
      if max_line \<le> length line then ([], True)
      else if rest = [] then ([drop_cr line], False)
      else (case scan_lines (tl rest) of (ls, big) \<Rightarrow> (drop_cr line # ls, big)))"
  by pat_completeness auto
termination
  by (relation "measure length") auto

section \<open>Payloads\<close>

definition data_prefix :: string where "data_prefix = ''data: ''"
definition done_marker :: string where "done_marker = ''[DONE]''"

text \<open>\<open>ParseSSE\<close> over the tokens; \<open>True\<close> when it returned at the done marker.\<close>

fun sse_loop :: "string list \<Rightarrow> string list \<times> bool" where
  "sse_loop [] = ([], False)"
| "sse_loop (line # ls) =
     (if line = [] then sse_loop ls
      else if hd line = CHR '':'' then sse_loop ls
      else if \<not> has_prefix data_prefix line then sse_loop ls
      else let payload = drop (length data_prefix) line in
        if payload = done_marker then ([], True)
        else (case sse_loop ls of (ps, d) \<Rightarrow> (payload # ps, d)))"

text \<open>
  The payloads sent on the channel and the error stored before it closes: none after the done
  marker, otherwise the scanner's.
\<close>

definition parse_sse :: "string \<Rightarrow> string option \<Rightarrow> string list \<times> sse_error option" where
  "parse_sse input ending =
     (case scan_lines input of (ls, big) \<Rightarrow>
      case sse_loop ls of (ps, finished) \<Rightarrow>
        (ps, if finished then None
             else if big then Some TooLong
             else map_option ReadError ending))"

section \<open>Lemmas\<close>

lemma first_line_no_newline [simp]: "newline \<notin> set (first_line s)"
  unfolding first_line_def using set_takeWhileD by fast

lemma first_line_append: "newline \<notin> set l \<Longrightarrow> first_line (l @ newline # s) = l"
  by (induction l) (auto simp: first_line_def)

lemma first_line_all: "newline \<notin> set l \<Longrightarrow> first_line l = l"
  by (induction l) (auto simp: first_line_def)

lemma scan_lines_line:
  assumes "newline \<notin> set l" "length l < max_line"
  shows "scan_lines (l @ newline # s) = (drop_cr l # fst (scan_lines s), snd (scan_lines s))"
proof -
  obtain c r where cr: "l @ newline # s = c # r" by (cases l) auto
  have f: "first_line (c # r) = l" using first_line_append [OF assms(1), of s] cr by simp
  have d: "drop (length l) (c # r) = newline # s" using cr by (metis append_eq_conv_conj)
  show ?thesis
    unfolding cr using assms(2) by (simp add: f d Let_def split: prod.split)
qed

lemma scan_lines_last:
  assumes "newline \<notin> set l" "length l < max_line" "l \<noteq> []"
  shows "scan_lines l = ([drop_cr l], False)"
proof -
  obtain c r where cr: "l = c # r" using assms(3) by (cases l) auto
  have f: "first_line (c # r) = l" using first_line_all [OF assms(1)] cr by simp
  show ?thesis unfolding cr using assms(2) cr by (simp add: f Let_def)
qed

lemma scan_lines_too_long:
  assumes "max_line \<le> length (first_line s)"
  shows "scan_lines s = ([], True)"
proof -
  have "s \<noteq> []" using assms by (auto simp: first_line_def max_line_def)
  then obtain c r where cr: "s = c # r" by (cases s) auto
  show ?thesis using assms unfolding cr by (simp add: Let_def)
qed

lemma max_line_pos [simp]: "0 < max_line"
  by (simp add: max_line_def)

text \<open>Text in front, made of complete short lines, is scanned first.\<close>

definition short_lines :: "string list \<Rightarrow> bool" where
  "short_lines ls \<longleftrightarrow> list_all (\<lambda>l. newline \<notin> set l \<and> length l < max_line) ls"

definition unlines :: "string list \<Rightarrow> string" where
  "unlines ls = concat (map (\<lambda>l. l @ [newline]) ls)"

lemma scan_unlines:
  "short_lines ls \<Longrightarrow> scan_lines (unlines ls @ s) = (map drop_cr ls @ fst (scan_lines s), snd (scan_lines s))"
  by (induction ls) (simp_all add: short_lines_def unlines_def scan_lines_line)

lemma sse_loop_append:
  "sse_loop (ls @ ms) =
     (if snd (sse_loop ls) then sse_loop ls
      else (fst (sse_loop ls) @ fst (sse_loop ms), snd (sse_loop ms)))"
  by (induction ls) (auto simp: Let_def split: prod.splits)

text \<open>An event as a server writes it: other fields and comments, the data line, a blank line.\<close>

definition plain_line :: "string \<Rightarrow> bool" where
  "plain_line l \<longleftrightarrow> newline \<notin> set l \<and> length l < max_line \<and>
     (l = [] \<or> hd l = CHR '':'' \<or> \<not> has_prefix data_prefix (drop_cr l))"

definition payload_ok :: "string \<Rightarrow> bool" where
  "payload_ok p \<longleftrightarrow> newline \<notin> set p \<and> length p + length data_prefix < max_line \<and>
     drop_cr p = p \<and> p \<noteq> done_marker"

definition sse_event :: "string list \<times> string \<Rightarrow> string" where
  "sse_event e = unlines (fst e @ [data_prefix @ snd e, []])"

lemma drop_cr_data: "drop_cr p = p \<Longrightarrow> drop_cr (data_prefix @ p) = data_prefix @ p"
  by (cases "p = []") (auto simp: drop_cr_def data_prefix_def carriage_return_def split: if_splits)

lemma drop_cr_Nil [simp]: "drop_cr [] = []"
  by (simp add: drop_cr_def)

lemma hd_drop_cr: "l \<noteq> [] \<Longrightarrow> drop_cr l \<noteq> [] \<Longrightarrow> hd (drop_cr l) = hd l"
  by (cases l) (auto simp: drop_cr_def)

lemma sse_loop_plain: "list_all plain_line ls \<Longrightarrow> sse_loop (map drop_cr ls) = ([], False)"
proof (induction ls)
  case (Cons l ls)
  then have "drop_cr l = [] \<or> hd (drop_cr l) = CHR '':'' \<or> \<not> has_prefix data_prefix (drop_cr l)"
    using hd_drop_cr [of l] by (cases "l = []"; cases "drop_cr l = []") (auto simp: plain_line_def)
  with Cons show ?case by auto
qed simp

lemma plain_short: "list_all plain_line ls \<Longrightarrow> short_lines ls"
  by (auto simp: plain_line_def short_lines_def list_all_iff)

lemma sse_loop_payload: "payload_ok p \<Longrightarrow> sse_loop [data_prefix @ p] = ([p], False)"
  by (simp add: payload_ok_def data_prefix_def has_prefix_def)

lemma scan_event:
  assumes "list_all plain_line (fst e)" "payload_ok (snd e)"
  shows "scan_lines (sse_event e @ s) =
    (map drop_cr (fst e) @ [data_prefix @ snd e, []] @ fst (scan_lines s), snd (scan_lines s))"
proof -
  have "short_lines (fst e @ [data_prefix @ snd e, []])"
    using plain_short [OF assms(1)] assms(2)
    by (auto simp: short_lines_def payload_ok_def data_prefix_def newline_def)
  then show ?thesis
    using assms(2) by (simp add: sse_event_def scan_unlines drop_cr_data payload_ok_def)
qed

lemma sse_events:
  assumes "list_all (\<lambda>e. list_all plain_line (fst e) \<and> payload_ok (snd e)) es"
  shows "sse_loop (fst (scan_lines (concat (map sse_event es) @ s))) =
      (map snd es @ fst (sse_loop (fst (scan_lines s))), snd (sse_loop (fst (scan_lines s)))) \<and>
    snd (scan_lines (concat (map sse_event es) @ s)) = snd (scan_lines s)"
  using assms
proof (induction es)
  case (Cons e es)
  then have e: "list_all plain_line (fst e)" "payload_ok (snd e)" by auto
  have "sse_loop ([data_prefix @ snd e] @ [[]] @ ms) = (snd e # fst (sse_loop ms), snd (sse_loop ms))" for ms
    using sse_loop_append [of "[data_prefix @ snd e]" "[] # ms"] sse_loop_payload [OF e(2)] by simp
  then show ?case
    using Cons e scan_event [OF e, of "concat (map sse_event es) @ s"]
    by (simp add: sse_loop_append sse_loop_plain)
qed simp

definition done_line :: string where
  "done_line = data_prefix @ done_marker @ [newline]"

lemma scan_done: "sse_loop (fst (scan_lines (done_line @ s))) = ([], True)"
proof -
  have "scan_lines ((data_prefix @ done_marker) @ newline # s) =
      (drop_cr (data_prefix @ done_marker) # fst (scan_lines s), snd (scan_lines s))"
    by (rule scan_lines_line) (simp_all add: data_prefix_def done_marker_def newline_def max_line_def)
  then show ?thesis
    by (simp add: done_line_def drop_cr_def data_prefix_def done_marker_def carriage_return_def has_prefix_def)
qed

section \<open>Properties\<close>

text \<open>A well-formed event stream is read exactly. For any events, each with other fields,
  comments or blank lines before its data line, the payloads arrive unchanged and in order; a
  stream closed by the done marker ends without error whatever follows it, and one that stops
  after an event ends cleanly or with the read error it stopped with.\<close>
theorem sse_exact:
  assumes "list_all (\<lambda>e. list_all plain_line (fst e) \<and> payload_ok (snd e)) es"
  shows "parse_sse (concat (map sse_event es) @ done_line @ junk) ending = (map snd es, None) \<and>
    parse_sse (concat (map sse_event es)) ending = (map snd es, map_option ReadError ending)"
  using sse_events [OF assms, of "done_line @ junk"] sse_events [OF assms, of "[]"] scan_done [of junk]
  by (simp add: parse_sse_def split_beta)

theorem sse_exact_witness:
  "parse_sse (concat (map sse_event [([''event: x'', '': ping''], ''{}''), ([], ''1'')])) (Some ''reset'') =
     ([''{}'', ''1''], Some (ReadError ''reset''))"
  using sse_exact [of "[([''event: x'', '': ping''], ''{}''), ([], ''1'')]" "[]" "Some ''reset''"]
  by (simp add: plain_line_def payload_ok_def drop_cr_def data_prefix_def done_marker_def newline_def
      carriage_return_def max_line_def has_prefix_def)

text \<open>A truncated or oversized stream never looks like a clean finish. If the lines before
  the point where the stream breaks (a read error, or a line over the cap) do not contain the
  done marker, the error is reported, after every payload that arrived whole.\<close>
theorem sse_failure_reported:
  assumes "short_lines ls" and "\<not> snd (sse_loop (map drop_cr ls))"
  shows "parse_sse (unlines ls) (Some e) = (fst (sse_loop (map drop_cr ls)), Some (ReadError e)) \<and>
    (max_line \<le> length (first_line s) \<longrightarrow>
      parse_sse (unlines ls @ s) ending = (fst (sse_loop (map drop_cr ls)), Some TooLong))"
  using assms scan_unlines [OF assms(1), of "[]"] scan_unlines [OF assms(1), of s] scan_lines_too_long [of s]
  by (simp add: parse_sse_def split_beta)

theorem sse_failure_reported_witness:
  "parse_sse (unlines [''data: {'']) (Some ''unexpected EOF'') = ([''{''], Some (ReadError ''unexpected EOF''))"
  using sse_failure_reported [of "[''data: {'']" "''unexpected EOF''" "[]" None]
  by (simp add: short_lines_def drop_cr_def data_prefix_def done_marker_def newline_def carriage_return_def
      max_line_def has_prefix_def)

end
