(* ===== verification/ChatStream.thy ===== *)
theory ChatStream
  imports OpenAI ToolCalls LoopGuard Sse "HOL-Library.Sublist"
begin

text \<open>
  The response half of the client of llm/openai.go: decoding of a chunk, and the stream loop that
  turns SSE payloads into events under the stall watchdog, the loop guard and the reasoning
  budget. The text parser of JSON is an argument.
\<close>

section \<open>Chunks\<close>

text \<open>\<open>ChatResponseDelta\<close>, \<open>ChunkChoice\<close>, \<open>ChunkUsage\<close>, \<open>ChatCompletionChunk\<close>\<close>

record delta =
  delta_role :: string
  delta_content :: string
  reasoning_content :: string
  delta_calls :: "dt_call list"

record choice =
  choice_index :: int
  choice_delta :: delta
  choice_finish :: string

record chunk_usage =
  prompt_tokens :: int
  completion_tokens :: int
  usage_total :: int
  cached_tokens :: "int option"

record chunk =
  choices :: "choice list"
  chunk_usage :: "chunk_usage option"

text \<open>An \<open>int\<close> field; \<open>null\<close> leaves it as it is.\<close>

fun int_of_json :: "string \<Rightarrow> json \<Rightarrow> json_error + int" where
  "int_of_json n (JNum s) = (case atoi s of Some i \<Rightarrow> Inr i | None \<Rightarrow> Inl (TypeMismatch n))"
| "int_of_json n _ = Inl (TypeMismatch n)"

definition int_field :: "string \<Rightarrow> (string \<times> json) list \<Rightarrow> json_error + int" where
  "int_field n ms =
     foldl (\<lambda>r j. result_bind r (\<lambda>i. if j = JNull then Inr i else int_of_json n j)) (Inr 0) (field_values n ms)"

definition decode_dt_call :: "json \<Rightarrow> json_error + dt_call" where
  "decode_dt_call j =
     result_bind (members ''tool_calls'' j) (\<lambda>ms.
     result_bind (int_field ''index'' ms) (\<lambda>i.
     result_bind (str_field ''id'' ms) (\<lambda>d.
     result_bind (str_field ''type'' ms) (\<lambda>_.
     result_bind (struct_field ''function'' ms) (\<lambda>fs.
     result_bind (str_field ''name'' fs) (\<lambda>n.
       Inr \<lparr>dt_index = i, dt_id = d, dt_name = n,
            dt_args = Decoded (case raw_field ''arguments'' fs of None \<Rightarrow> JNull | Some a \<Rightarrow> a)\<rparr>))))))"

definition decode_delta :: "(string \<times> json) list \<Rightarrow> json_error + delta" where
  "decode_delta ms =
     result_bind (str_field ''role'' ms) (\<lambda>r.
     result_bind (str_field ''content'' ms) (\<lambda>c.
     result_bind (str_field ''reasoning_content'' ms) (\<lambda>rc.
     result_bind (result_bind (elements ''tool_calls'' (raw_field ''tool_calls'' ms)) (result_map decode_dt_call))
       (\<lambda>tcs. Inr \<lparr>delta_role = r, delta_content = c, reasoning_content = rc, delta_calls = tcs\<rparr>))))"

definition decode_choice :: "json \<Rightarrow> json_error + choice" where
  "decode_choice j =
     result_bind (members ''choices'' j) (\<lambda>ms.
     result_bind (int_field ''index'' ms) (\<lambda>i.
     result_bind (result_bind (struct_field ''delta'' ms) decode_delta) (\<lambda>d.
     result_bind (str_field ''finish_reason'' ms) (\<lambda>f.
       Inr \<lparr>choice_index = i, choice_delta = d, choice_finish = f\<rparr>))))"

definition decode_usage :: "(string \<times> json) list \<Rightarrow> json_error + chunk_usage" where
  "decode_usage ms =
     result_bind (int_field ''prompt_tokens'' ms) (\<lambda>p.
     result_bind (int_field ''completion_tokens'' ms) (\<lambda>c.
     result_bind (int_field ''total_tokens'' ms) (\<lambda>t.
     result_bind (pointer_field ''prompt_tokens_details'' ms (int_field ''cached_tokens'')) (\<lambda>d.
       Inr \<lparr>prompt_tokens = p, completion_tokens = c, usage_total = t, cached_tokens = d\<rparr>))))"

definition decode_chunk :: "json \<Rightarrow> json_error + chunk" where
  "decode_chunk j =
     result_bind (members ''chunk'' j) (\<lambda>ms.
     result_bind (result_bind (elements ''choices'' (raw_field ''choices'' ms)) (result_map decode_choice)) (\<lambda>cs.
     result_bind (pointer_field ''usage'' ms decode_usage) (\<lambda>u.
       Inr \<lparr>choices = cs, chunk_usage = u\<rparr>)))"

section \<open>Events\<close>

datatype stream_error =
    UnmarshalChunk json_error
  | MergeToolCall merge_error
  | SseStream sse_error
  | VendorError go_error
  | OtherError string

datatype event =
    TextDelta string
  | ReasoningDelta string
  | ToolCallComplete "tool_call list"
  | UsageEvent message_usage
  | Done string
  | ErrorEvent stream_error

definition finish_repetition :: string where "finish_repetition = ''repetition''"
definition finish_stall :: string where "finish_stall = ''stall''"
definition finish_reasoning_budget :: string where "finish_reasoning_budget = ''reasoning_budget''"

section \<open>The stream loop\<close>

record stream_state =
  acc :: accumulator
  detector :: "detector option"
  last_usage :: "chunk_usage option"
  finish_reason :: string
  aborted :: bool
  started :: bool
  reasoning_runes :: nat
  acting :: bool

definition stream_init :: "openai_client \<Rightarrow> stream_state" where
  "stream_init c = \<lparr>acc = new_accumulator, detector = (if loop_guard c then Some new_detector else None),
     last_usage = None, finish_reason = [], aborted = False, started = False, reasoning_runes = 0, acting = False\<rparr>"

definition abort :: "string \<Rightarrow> stream_state \<Rightarrow> stream_state" where
  "abort reason st = (if aborted st then st else st\<lparr>aborted := True, finish_reason := reason\<rparr>)"

text \<open>How a step of the loop goes on: the next state, a break out of it, or an early return.\<close>

datatype outcome = Continue stream_state | Break stream_state | Return

definition guard_reasoning :: "string \<Rightarrow> stream_state \<Rightarrow> stream_state \<times> bool" where
  "guard_reasoning s st =
     (case detector st of None \<Rightarrow> (st, False)
      | Some d \<Rightarrow> (case add_reasoning d s of (d', trip) \<Rightarrow> (st\<lparr>detector := Some d'\<rparr>, trip)))"

definition guard_content :: "string \<Rightarrow> stream_state \<Rightarrow> stream_state \<times> bool" where
  "guard_content s st =
     (case detector st of None \<Rightarrow> (st, False)
      | Some d \<Rightarrow> (case add d s of (d', trip) \<Rightarrow> (st\<lparr>detector := Some d'\<rparr>, trip)))"

text \<open>The reasoning part of a choice, then its content, then its tool calls.\<close>

definition reasoning_step :: "openai_client \<Rightarrow> string \<Rightarrow> stream_state \<Rightarrow> event list \<times> outcome" where
  "reasoning_step c s st =
     (if s = [] then ([], Continue st)
      else case guard_reasoning s st of
        (st1, True) \<Rightarrow> ([ReasoningDelta s], Break (abort finish_repetition st1))
      | (st1, False) \<Rightarrow>
          if 0 < reasoning_budget c \<and> \<not> acting st1 then
            (let st2 = st1\<lparr>reasoning_runes := reasoning_runes st1 + length (runes s)\<rparr>
             in if reasoning_budget c < int (reasoning_runes st2)
                then ([ReasoningDelta s], Break (abort finish_reasoning_budget st2))
                else ([ReasoningDelta s], Continue st2))
          else ([ReasoningDelta s], Continue st1))"

definition content_step :: "string \<Rightarrow> stream_state \<Rightarrow> event list \<times> outcome" where
  "content_step s st =
     (if s = [] then ([], Continue st)
      else case guard_content s (st\<lparr>acting := True\<rparr>) of
        (st1, True) \<Rightarrow> ([TextDelta s], Break (abort finish_repetition st1))
      | (st1, False) \<Rightarrow> ([TextDelta s], Continue st1))"

definition tools_step :: "dt_call list \<Rightarrow> stream_state \<Rightarrow> event list \<times> outcome" where
  "tools_step ds st =
     (if ds = [] then ([], Continue st)
      else case merge_delta (acc st) ds of
        (a, Some e) \<Rightarrow> ([ErrorEvent (MergeToolCall e)], Return)
      | (a, None) \<Rightarrow> ([], Continue (st\<lparr>acting := True, acc := a\<rparr>)))"

definition then_step :: "event list \<times> outcome \<Rightarrow> (stream_state \<Rightarrow> event list \<times> outcome) \<Rightarrow> event list \<times> outcome" where
  "then_step r f =
     (case r of (es, Continue st) \<Rightarrow> (case f st of (es', out) \<Rightarrow> (es @ es', out)) | (es, out) \<Rightarrow> (es, out))"

definition choice_step :: "openai_client \<Rightarrow> choice \<Rightarrow> stream_state \<Rightarrow> event list \<times> outcome" where
  "choice_step c ch st =
     (let st = (if choice_finish ch \<noteq> [] then st\<lparr>finish_reason := choice_finish ch\<rparr> else st)
      in then_step (reasoning_step c (reasoning_content (choice_delta ch)) st) (\<lambda>st.
         then_step (content_step (delta_content (choice_delta ch)) st)
           (tools_step (delta_calls (choice_delta ch)))))"

fun choices_loop :: "openai_client \<Rightarrow> choice list \<Rightarrow> stream_state \<Rightarrow> event list \<times> outcome" where
  "choices_loop c [] st = ([], Continue st)"
| "choices_loop c (ch # chs) st = then_step (choice_step c ch st) (choices_loop c chs)"

definition chunk_step :: "openai_client \<Rightarrow> chunk \<Rightarrow> stream_state \<Rightarrow> event list \<times> outcome" where
  "chunk_step c ck st =
     then_step (choices_loop c (choices ck) (st\<lparr>started := True\<rparr>)) (\<lambda>st.
       ([], Continue (case chunk_usage ck of None \<Rightarrow> st | Some u \<Rightarrow> st\<lparr>last_usage := Some u\<rparr>)))"

text \<open>
  What the loop receives: a payload, or silence for at least the stall timeout (which matters
  only when the watchdog is armed). The channel then closes.
\<close>

datatype sse_input = Payload string | Silence

fun stream_loop :: "(string \<Rightarrow> json_error + json) \<Rightarrow> openai_client \<Rightarrow> sse_input list \<Rightarrow> stream_state \<Rightarrow>
    event list \<times> outcome" where
  "stream_loop parse c [] st = ([], Break st)"
| "stream_loop parse c (Silence # xs) st =
     (if 0 < stall_timeout c \<and> started st then ([], Break (abort finish_stall st)) else stream_loop parse c xs st)"
| "stream_loop parse c (Payload raw # xs) st =
     (case result_bind (parse raw) decode_chunk of
        Inl e \<Rightarrow> ([ErrorEvent (UnmarshalChunk e)], Return)
      | Inr ck \<Rightarrow> then_step (chunk_step c ck st) (stream_loop parse c xs))"

definition usage_of :: "chunk_usage \<Rightarrow> message_usage" where
  "usage_of u = \<lparr>input_tokens = prompt_tokens u, output_tokens = completion_tokens u,
     cache_read_tokens = (case cached_tokens u of None \<Rightarrow> 0 | Some n \<Rightarrow> n), cache_write_tokens = 0,
     reasoning_tokens = 0, total_tokens = usage_total u\<rparr>"

text \<open>After the loop: the SSE error, the completed calls, the usage and the end.\<close>

definition stream_end :: "sse_error option \<Rightarrow> stream_state \<Rightarrow> event list" where
  "stream_end sse_err st =
     (if \<not> aborted st \<and> sse_err \<noteq> None then [ErrorEvent (SseStream (the sse_err))]
      else let calls = (if aborted st then [] else snd (finalize (acc st)));
               reason = (if calls \<noteq> [] \<and> finish_reason st = [] then ''tool_calls'' else finish_reason st)
           in (if calls \<noteq> [] then [ToolCallComplete calls] else []) @
              (case last_usage st of None \<Rightarrow> [] | Some u \<Rightarrow> [UsageEvent (usage_of u)]) @ [Done reason])"

definition run_stream :: "(string \<Rightarrow> json_error + json) \<Rightarrow> openai_client \<Rightarrow> sse_input list \<Rightarrow> sse_error option \<Rightarrow>
    event list" where
  "run_stream parse c xs sse_err =
     (case stream_loop parse c xs (stream_init c) of
        (es, Return) \<Rightarrow> es
      | (es, Break st) \<Rightarrow> es @ stream_end sse_err st
      | (es, Continue st) \<Rightarrow> es @ stream_end sse_err st)"

section \<open>How the loop ends\<close>

text \<open>
  A predicate on the result of a step of the loop: its events satisfy \<open>E\<close>, except that an early
  return ends in an error event; it goes on in a state satisfying \<open>I\<close> and breaks out in one
  satisfying \<open>B\<close>.
\<close>

definition step_inv :: "(event \<Rightarrow> bool) \<Rightarrow> (stream_state \<Rightarrow> bool) \<Rightarrow> (stream_state \<Rightarrow> bool) \<Rightarrow>
    event list \<times> outcome \<Rightarrow> bool" where
  "step_inv E I B r =
     (case r of
        (es, Continue st) \<Rightarrow> list_all E es \<and> I st
      | (es, Break st) \<Rightarrow> list_all E es \<and> B st
      | (es, Return) \<Rightarrow> es \<noteq> [] \<and> list_all E (butlast es) \<and> (\<exists>e. last es = ErrorEvent e))"

lemma step_inv_simps [simp]:
  "step_inv E I B (es, Continue st) \<longleftrightarrow> list_all E es \<and> I st"
  "step_inv E I B (es, Break st) \<longleftrightarrow> list_all E es \<and> B st"
  "step_inv E I B (es, Return) \<longleftrightarrow> es \<noteq> [] \<and> list_all E (butlast es) \<and> (\<exists>e. last es = ErrorEvent e)"
  by (simp_all add: step_inv_def)

lemma then_step_simps [simp]:
  "then_step (es, Continue st) f = (es @ fst (f st), snd (f st))"
  "then_step (es, Break st) f = (es, Break st)"
  "then_step (es, Return) f = (es, Return)"
  by (simp_all add: then_step_def split_beta)

lemma step_inv_then:
  assumes "step_inv E I B r" "\<And>st. I st \<Longrightarrow> step_inv E J B (f st)"
  shows "step_inv E J B (then_step r f)"
proof (cases r)
  case (Pair es out)
  show ?thesis
  proof (cases out)
    case (Continue st)
    with Pair assms(1) have "list_all E es" "I st" by simp_all
    with assms(2) [of st] Pair Continue show ?thesis
      by (cases "f st"; cases "snd (f st)") (auto simp: butlast_append last_append)
  qed (use Pair assms(1) in simp_all)
qed

lemma step_inv_mono:
  assumes "step_inv E I B r" "\<And>st. I st \<Longrightarrow> J st"
  shows "step_inv E J B r"
  using assms by (cases r; cases "snd r") auto

lemma choices_inv:
  assumes "I st" "\<And>ch st. ch \<in> set chs \<Longrightarrow> I st \<Longrightarrow> step_inv E I B (choice_step c ch st)"
  shows "step_inv E I B (choices_loop c chs st)"
  using assms
proof (induction chs arbitrary: st)
  case (Cons ch chs)
  show ?case
    unfolding choices_loop.simps
    by (rule step_inv_then [of E I B]) (use Cons in auto)
qed simp

lemma loop_inv:
  assumes "I st"
    and stop: "\<And>st. I st \<Longrightarrow> B st"
    and silence: "\<And>st. I st \<Longrightarrow> started st \<Longrightarrow> 0 < stall_timeout c \<Longrightarrow> B (abort finish_stall st)"
    and chunk: "\<And>raw ck st. Payload raw \<in> set xs \<Longrightarrow> result_bind (parse raw) decode_chunk = Inr ck \<Longrightarrow> I st \<Longrightarrow>
      step_inv E I B (chunk_step c ck st)"
  shows "step_inv E (\<lambda>_. False) B (stream_loop parse c xs st)"
  using assms(1) chunk
proof (induction xs arbitrary: st)
  case Nil
  then show ?case using stop by simp
next
  case (Cons x xs)
  show ?case
  proof (cases x)
    case Silence
    then show ?thesis using Cons silence by auto
  next
    case (Payload raw)
    show ?thesis
    proof (cases "result_bind (parse raw) decode_chunk")
      case (Inl e)
      with Payload show ?thesis by simp
    next
      case (Inr ck)
      have "step_inv E (\<lambda>_. False) B (then_step (chunk_step c ck st) (stream_loop parse c xs))"
        by (rule step_inv_then [of E I B]) (use Cons Inr Payload in auto)
      with Payload Inr show ?thesis by simp
    qed
  qed
qed

section \<open>The event protocol\<close>

fun delta_event :: "event \<Rightarrow> bool" where
  "delta_event (TextDelta s) = (s \<noteq> [])"
| "delta_event (ReasoningDelta s) = (s \<noteq> [])"
| "delta_event _ = False"

text \<open>What may follow the deltas.\<close>

fun closing :: "event list \<Rightarrow> bool" where
  "closing [ErrorEvent e] = True"
| "closing [Done r] = True"
| "closing [ToolCallComplete cs, Done r] = (cs \<noteq> [])"
| "closing [UsageEvent u, Done r] = True"
| "closing [ToolCallComplete cs, UsageEvent u, Done r] = (cs \<noteq> [])"
| "closing _ = False"

definition abort_reasons :: "string list" where
  "abort_reasons = [finish_repetition, finish_stall, finish_reasoning_budget]"

lemma step_abort_inv:
  fixes B :: "stream_state \<Rightarrow> bool"
  defines "B \<equiv> \<lambda>st. aborted st \<longrightarrow> finish_reason st \<in> set abort_reasons"
  shows "\<not> aborted st \<Longrightarrow> step_inv delta_event (\<lambda>st. \<not> aborted st) B (reasoning_step c s st)"
    and "\<not> aborted st \<Longrightarrow> step_inv delta_event (\<lambda>st. \<not> aborted st) B (content_step s st)"
    and "\<not> aborted st \<Longrightarrow> step_inv delta_event (\<lambda>st. \<not> aborted st) B (tools_step ds st)"
  unfolding reasoning_step_def content_step_def tools_step_def guard_reasoning_def guard_content_def
  by (auto simp: B_def abort_def abort_reasons_def Let_def split: option.splits prod.splits bool.splits)

lemma chunk_abort_inv:
  assumes "\<not> aborted st"
  shows "step_inv delta_event (\<lambda>st. \<not> aborted st)
    (\<lambda>st. aborted st \<longrightarrow> finish_reason st \<in> set abort_reasons) (chunk_step c ck st)"
  unfolding chunk_step_def
  by (rule step_inv_then [where I = "\<lambda>st. \<not> aborted st"], rule choices_inv)
    (auto simp: assms choice_step_def Let_def intro!: step_inv_then [where I = "\<lambda>st. \<not> aborted st"]
      step_abort_inv split: option.splits)

lemma stream_loop_ends:
  "step_inv delta_event (\<lambda>_. False) (\<lambda>st. aborted st \<longrightarrow> finish_reason st \<in> set abort_reasons)
     (stream_loop parse c xs (stream_init c))"
  by (rule loop_inv [where I = "\<lambda>st. \<not> aborted st"], simp_all add: chunk_abort_inv)
    (simp_all add: stream_init_def abort_def abort_reasons_def)

lemma stream_end_closing: "closing (stream_end e st)"
  by (cases "last_usage st") (auto simp: stream_end_def Let_def)

text \<open>The two ways the loop ends, with the events before the closing ones.\<close>

lemma run_stream_cases:
  obtains (returned) ds e where "run_stream parse c xs err = ds @ [ErrorEvent e]" "list_all delta_event ds"
      "stream_loop parse c xs (stream_init c) = (ds @ [ErrorEvent e], Return)"
  | (broke) ds st where "run_stream parse c xs err = ds @ stream_end err st" "list_all delta_event ds"
      "stream_loop parse c xs (stream_init c) = (ds, Break st)"
      "aborted st \<longrightarrow> finish_reason st \<in> set abort_reasons"
proof -
  let ?r = "stream_loop parse c xs (stream_init c)"
  obtain es out where r: "?r = (es, out)" by fastforce
  have inv: "step_inv delta_event (\<lambda>_. False)
      (\<lambda>st. aborted st \<longrightarrow> finish_reason st \<in> set abort_reasons) (es, out)"
    using stream_loop_ends [of parse c xs] by (simp only: r)
  show thesis
  proof (cases out)
    case Return
    with inv obtain e where e: "es \<noteq> []" "list_all delta_event (butlast es)" "last es = ErrorEvent e"
      by (auto simp only: step_inv_simps)
    then have es: "es = butlast es @ [ErrorEvent e]" by (metis append_butlast_last_id)
    show thesis
    proof (rule returned)
      show "run_stream parse c xs err = butlast es @ [ErrorEvent e]"
        using es by (simp add: run_stream_def r Return)
      show "stream_loop parse c xs (stream_init c) = (butlast es @ [ErrorEvent e], Return)"
        using es r Return by simp
    qed (rule e(2))
  next
    case (Break st)
    then show thesis using inv by (intro broke [of es st]) (simp_all add: run_stream_def r)
  qed (use inv in auto)
qed

lemma drop_deltas: "list_all delta_event ds \<Longrightarrow> dropWhile delta_event (ds @ es) = dropWhile delta_event es"
  by (induction ds) auto

lemma closing_no_delta: "closing es \<Longrightarrow> dropWhile delta_event es = es"
  by (induction es rule: closing.induct) auto

text \<open>C1: Every stream of \<open>Chat\<close> follows the event protocol, whatever the server sends: first
  non-empty text and reasoning deltas; then either a single error event, or at most one
  completed-calls event (never empty), at most one usage event and one done event, in that
  order. The last event is the only terminal one, and nothing follows it.\<close>
theorem stream_protocol:
  "closing (dropWhile delta_event (run_stream parse c xs err))"
  by (cases rule: run_stream_cases [of parse c xs err])
    (simp_all add: drop_deltas closing_no_delta stream_end_closing)

section \<open>What is delivered\<close>

text \<open>What a chunk announces: its deltas in order, its call fragments, its finish reasons.\<close>

definition choice_deltas :: "choice \<Rightarrow> event list" where
  "choice_deltas ch =
     (if reasoning_content (choice_delta ch) = [] then [] else [ReasoningDelta (reasoning_content (choice_delta ch))]) @
     (if delta_content (choice_delta ch) = [] then [] else [TextDelta (delta_content (choice_delta ch))])"

definition chunk_deltas :: "chunk \<Rightarrow> event list" where
  "chunk_deltas ck = concat (map choice_deltas (choices ck))"

definition chunk_calls :: "chunk \<Rightarrow> dt_call list" where
  "chunk_calls ck = concat (map (\<lambda>ch. delta_calls (choice_delta ch)) (choices ck))"

text \<open>The last non-empty string of a list, and the last present value.\<close>

definition last_reason :: "string \<Rightarrow> string list \<Rightarrow> string" where
  "last_reason r rs = foldl (\<lambda>a s. if s \<noteq> [] then s else a) r rs"

definition chunk_finish :: "string \<Rightarrow> chunk \<Rightarrow> string" where
  "chunk_finish r ck = last_reason r (map choice_finish (choices ck))"

definition last_some :: "'a option \<Rightarrow> 'a option list \<Rightarrow> 'a option" where
  "last_some u us = foldl (\<lambda>a x. case x of None \<Rightarrow> a | Some _ \<Rightarrow> x) u us"

fun payloads :: "sse_input list \<Rightarrow> string list" where
  "payloads [] = []"
| "payloads (Silence # xs) = payloads xs"
| "payloads (Payload raw # xs) = raw # payloads xs"

text \<open>The chunks before the first payload that does not decode.\<close>

fun decoded :: "(string \<Rightarrow> json_error + json) \<Rightarrow> string list \<Rightarrow> chunk list" where
  "decoded parse [] = []"
| "decoded parse (raw # raws) =
     (case result_bind (parse raw) decode_chunk of Inl _ \<Rightarrow> [] | Inr ck \<Rightarrow> ck # decoded parse raws)"

lemma last_simps [simp]:
  "last_reason r [] = r" "last_reason r (s # rs) = last_reason (if s \<noteq> [] then s else r) rs"
  "last_some u [] = u" "last_some u (None # us) = last_some u us" "last_some u (Some x # us) = last_some (Some x) us"
  by (simp_all add: last_reason_def last_some_def)

lemma last_reason_append: "last_reason r (rs @ rs') = last_reason (last_reason r rs) rs'"
  by (simp add: last_reason_def)

text \<open>A step delivers the announced deltas when it goes on, and a prefix of them otherwise.\<close>

definition step_delivers :: "event list \<Rightarrow> event list \<times> outcome \<Rightarrow> bool" where
  "step_delivers D r =
     (case r of (es, Continue _) \<Rightarrow> es = D | (es, _) \<Rightarrow> prefix (filter delta_event es) D)"

lemma step_delivers_simps [simp]:
  "step_delivers D (es, Continue st) \<longleftrightarrow> es = D"
  "step_delivers D (es, Break st) \<longleftrightarrow> prefix (filter delta_event es) D"
  "step_delivers D (es, Return) \<longleftrightarrow> prefix (filter delta_event es) D"
  by (simp_all add: step_delivers_def)

lemma step_delivers_then:
  assumes "step_delivers D r" "list_all delta_event D" "\<And>st. step_delivers D' (f st)"
  shows "step_delivers (D @ D') (then_step r f)"
proof (cases r)
  case (Pair es out)
  have D: "filter delta_event D = D" using assms(2) by (simp add: list_all_iff)
  show ?thesis
  proof (cases out)
    case (Continue st)
    with assms(1) assms(3) [of st] Pair D show ?thesis
      by (cases "f st"; cases "snd (f st)") (auto simp: prefix_def)
  qed (use Pair assms(1) in \<open>auto simp: prefix_def\<close>)
qed

lemma choice_deltas_delta: "list_all delta_event (choice_deltas ch)"
  by (simp add: choice_deltas_def)

lemma chunk_deltas_delta: "list_all delta_event (chunk_deltas ck)"
  using choice_deltas_delta by (auto simp: chunk_deltas_def list_all_iff)

lemma parts_deliver:
  "step_delivers (if s = [] then [] else [ReasoningDelta s]) (reasoning_step c s st)"
  "step_delivers (if s = [] then [] else [TextDelta s]) (content_step s st)"
  "step_delivers [] (tools_step ds st)"
  unfolding reasoning_step_def content_step_def tools_step_def
  by (auto simp: Let_def split: option.splits prod.splits bool.splits)

lemma choice_delivers: "step_delivers (choice_deltas ch) (choice_step c ch st)"
proof -
  let ?d = "choice_delta ch"
  have "step_delivers ((if reasoning_content ?d = [] then [] else [ReasoningDelta (reasoning_content ?d)]) @
      ((if delta_content ?d = [] then [] else [TextDelta (delta_content ?d)]) @ [])) (choice_step c ch st)"
    unfolding choice_step_def Let_def
    by (intro step_delivers_then parts_deliver) simp_all
  then show ?thesis by (simp only: choice_deltas_def append_Nil2)
qed

lemma choices_deliver: "step_delivers (concat (map choice_deltas chs)) (choices_loop c chs st)"
proof (induction chs arbitrary: st)
  case (Cons ch chs)
  then show ?case
    by (simp add: step_delivers_then choice_delivers choice_deltas_delta)
qed simp

lemma chunk_delivers: "step_delivers (chunk_deltas ck) (chunk_step c ck st)"
proof -
  have "step_delivers (chunk_deltas ck @ []) (chunk_step c ck st)"
    unfolding chunk_step_def
    by (rule step_delivers_then)
      (simp_all add: chunk_deltas_delta, simp add: chunk_deltas_def choices_deliver)
  then show ?thesis by simp
qed

lemma loop_delivers:
  "prefix (filter delta_event (fst (stream_loop parse c xs st)))
     (concat (map chunk_deltas (decoded parse (payloads xs))))"
proof (induction xs arbitrary: st)
  case (Cons x xs)
  show ?case
  proof (cases x)
    case Silence
    with Cons show ?thesis by simp
  next
    case (Payload raw)
    show ?thesis
    proof (cases "result_bind (parse raw) decode_chunk")
      case (Inl e)
      with Payload show ?thesis by simp
    next
      case (Inr ck)
      obtain es out where r: "chunk_step c ck st = (es, out)" by fastforce
      have del: "step_delivers (chunk_deltas ck) (es, out)" using chunk_delivers [of ck c st] by (simp only: r)
      have all: "filter delta_event (chunk_deltas ck) = chunk_deltas ck"
        using chunk_deltas_delta [of ck] by (simp add: list_all_iff)
      show ?thesis
        using del all Cons.IH by (cases out) (auto simp: Payload Inr r intro: prefix_prefix)
    qed
  qed
qed simp

subsection \<open>A stream that is not cut short\<close>

lemma then_step_Continue:
  "snd (then_step r f) = Continue st' \<longleftrightarrow> (\<exists>st. snd r = Continue st \<and> snd (f st) = Continue st')"
  by (cases r; cases "snd r") auto

lemma then_step_Break:
  "snd (then_step r f) = Break st' \<longleftrightarrow>
     snd r = Break st' \<or> (\<exists>st. snd r = Continue st \<and> snd (f st) = Break st')"
  by (cases r; cases "snd r") auto

lemma parts_continue:
  "snd (reasoning_step c s st) = Continue st' \<Longrightarrow> acc st' = acc st \<and> last_usage st' = last_usage st \<and>
     finish_reason st' = finish_reason st"
  "snd (content_step s st) = Continue st' \<Longrightarrow> acc st' = acc st \<and> last_usage st' = last_usage st \<and>
     finish_reason st' = finish_reason st"
  "snd (tools_step ds st) = Continue st' \<Longrightarrow> merge_delta (acc st) ds = (acc st', None) \<and>
     last_usage st' = last_usage st \<and> finish_reason st' = finish_reason st"
  unfolding reasoning_step_def content_step_def tools_step_def guard_reasoning_def guard_content_def
  by (auto simp: Let_def split: option.splits prod.splits bool.splits if_splits)

lemma choice_continue:
  "snd (choice_step c ch st) = Continue st' \<Longrightarrow>
     merge_delta (acc st) (delta_calls (choice_delta ch)) = (acc st', None) \<and>
     last_usage st' = last_usage st \<and> finish_reason st' = last_reason (finish_reason st) [choice_finish ch]"
  unfolding choice_step_def Let_def then_step_Continue
  by (auto dest!: parts_continue split: if_splits)

lemma merge_delta_continued:
  "merge_delta a ds = (a', None) \<Longrightarrow> merge_delta a (ds @ es) = merge_delta a' es"
proof (induction ds arbitrary: a)
  case (Cons d ds)
  then show ?case by (cases "merge_one a d"; cases "snd (merge_one a d)") auto
qed simp

text \<open>What a step that goes on, or a loop that ends by itself, has folded into its state.\<close>

definition folded :: "dt_call list \<Rightarrow> chunk_usage option list \<Rightarrow> string list \<Rightarrow> stream_state \<Rightarrow> stream_state \<Rightarrow> bool" where
  "folded ds us rs st st' \<longleftrightarrow> merge_delta (acc st) ds = (acc st', None) \<and>
     last_usage st' = last_some (last_usage st) us \<and> finish_reason st' = last_reason (finish_reason st) rs"

lemma folded_trans:
  "folded ds us rs st st1 \<Longrightarrow> folded ds' us' rs' st1 st2 \<Longrightarrow> folded (ds @ ds') (us @ us') (rs @ rs') st st2"
  by (simp add: folded_def merge_delta_continued last_reason_def last_some_def)

lemma folded_refl: "folded [] [] [] st st"
  by (simp add: folded_def)

lemma choices_continue:
  "snd (choices_loop c chs st) = Continue st' \<Longrightarrow>
     folded (concat (map (\<lambda>ch. delta_calls (choice_delta ch)) chs)) [] (map choice_finish chs) st st'"
proof (induction chs arbitrary: st)
  case (Cons ch chs)
  then obtain st1 where st1: "snd (choice_step c ch st) = Continue st1" "snd (choices_loop c chs st1) = Continue st'"
    by (auto simp: then_step_Continue)
  have "folded (delta_calls (choice_delta ch)) [] [choice_finish ch] st st1"
    using choice_continue [OF st1(1)] by (simp add: folded_def)
  from folded_trans [OF this Cons.IH [OF st1(2)]] show ?case by simp
qed (simp add: folded_refl)

lemma chunk_continue:
  assumes "snd (chunk_step c ck st) = Continue st'"
  shows "folded (chunk_calls ck) [chunk_usage ck] (map choice_finish (choices ck)) st st'"
proof -
  obtain st1 where st1: "snd (choices_loop c (choices ck) (st\<lparr>started := True\<rparr>)) = Continue st1"
    "st' = (case chunk_usage ck of None \<Rightarrow> st1 | Some u \<Rightarrow> st1\<lparr>last_usage := Some u\<rparr>)"
    using assms by (auto simp: chunk_step_def then_step_Continue)
  from choices_continue [OF st1(1)] show ?thesis
    by (simp add: folded_def st1(2) chunk_calls_def split: option.splits)
qed

lemma parts_break:
  "snd (reasoning_step c s st) = Break st' \<Longrightarrow> aborted st'"
  "snd (content_step s st) = Break st' \<Longrightarrow> aborted st'"
  "snd (tools_step ds st) \<noteq> Break st'"
  unfolding reasoning_step_def content_step_def tools_step_def guard_reasoning_def guard_content_def
  by (auto simp: Let_def abort_def split: option.splits prod.splits bool.splits if_splits)

lemma choices_break: "snd (choices_loop c chs st) = Break st' \<Longrightarrow> aborted st'"
  by (induction chs arbitrary: st)
    (auto simp: then_step_Break choice_step_def Let_def parts_break(3) dest: parts_break(1,2))

lemma chunk_break: "snd (chunk_step c ck st) = Break st' \<Longrightarrow> aborted st'"
  by (auto simp: chunk_step_def then_step_Break dest: choices_break)

text \<open>Every payload decoded.\<close>

definition all_decode :: "(string \<Rightarrow> json_error + json) \<Rightarrow> string list \<Rightarrow> bool" where
  "all_decode parse raws \<longleftrightarrow> list_all (\<lambda>raw. \<not> isl (result_bind (parse raw) decode_chunk)) raws"

lemma all_decode_simps [simp]:
  "all_decode parse []"
  "all_decode parse (raw # raws) \<longleftrightarrow> \<not> isl (result_bind (parse raw) decode_chunk) \<and> all_decode parse raws"
  by (simp_all add: all_decode_def)

lemma loop_uncut:
  assumes "stream_loop parse c xs st = (es, Break st')" "\<not> aborted st'"
  shows "all_decode parse (payloads xs) \<and>
    es = concat (map chunk_deltas (decoded parse (payloads xs))) \<and>
    folded (concat (map chunk_calls (decoded parse (payloads xs)))) (map chunk_usage (decoded parse (payloads xs)))
      (concat (map (\<lambda>ck. map choice_finish (choices ck)) (decoded parse (payloads xs)))) st st'"
  using assms
proof (induction xs arbitrary: st es)
  case Nil
  then show ?case by (simp add: folded_refl)
next
  case (Cons x xs)
  show ?case
  proof (cases x)
    case Silence
    with Cons show ?thesis by (auto simp: abort_def split: if_splits)
  next
    case (Payload raw)
    show ?thesis
    proof (cases "result_bind (parse raw) decode_chunk")
      case (Inl e)
      with Payload Cons.prems show ?thesis by simp
    next
      case (Inr ck)
      have loop: "then_step (chunk_step c ck st) (stream_loop parse c xs) = (es, Break st')"
        using Cons.prems(1) Inr Payload by simp
      then have "snd (chunk_step c ck st) \<noteq> Break st'"
        using chunk_break Cons.prems(2) by blast
      with loop obtain st1 where st1: "snd (chunk_step c ck st) = Continue st1"
        "snd (stream_loop parse c xs st1) = Break st'"
        using then_step_Break [of "chunk_step c ck st" "stream_loop parse c xs" st'] by auto
      then have ck: "chunk_step c ck st = (chunk_deltas ck, Continue st1)"
        using chunk_delivers [of ck c st] by (cases "chunk_step c ck st") simp
      then have rest: "stream_loop parse c xs st1 = (fst (stream_loop parse c xs st1), Break st')"
        "es = chunk_deltas ck @ fst (stream_loop parse c xs st1)"
        using loop st1(2) unfolding ck by (auto simp: prod_eq_iff)
      from Cons.IH [OF rest(1) Cons.prems(2)] rest(2) folded_trans [OF chunk_continue [OF st1(1)]] Payload Inr
      show ?thesis by auto
    qed
  qed
qed

section \<open>Decoded fragments\<close>

lemma bind_Inr_iff: "result_bind r f = Inr y \<longleftrightarrow> (\<exists>x. r = Inr x \<and> f x = Inr y)"
  by (cases r) simp_all

lemma result_map_all:
  "result_map f xs = Inr ys \<Longrightarrow> (\<And>x y. f x = Inr y \<Longrightarrow> P y) \<Longrightarrow> list_all P ys"
  by (induction xs arbitrary: ys) (auto split: sum.splits)

lemma decode_dt_call_mergeable: "decode_dt_call j = Inr d \<Longrightarrow> mergeable d"
  by (auto simp: decode_dt_call_def bind_Inr_iff mergeable_def)

lemma decode_choice_mergeable:
  "decode_choice j = Inr ch \<Longrightarrow> list_all mergeable (delta_calls (choice_delta ch))"
  by (auto simp: decode_choice_def decode_delta_def bind_Inr_iff intro: result_map_all decode_dt_call_mergeable)

lemma decode_chunk_mergeable:
  assumes "decode_chunk j = Inr ck"
  shows "list_all (\<lambda>ch. list_all mergeable (delta_calls (choice_delta ch))) (choices ck)"
  using assms
  by (auto simp: decode_chunk_def bind_Inr_iff intro: result_map_all decode_choice_mergeable)

lemma decoded_mergeable: "list_all mergeable (concat (map chunk_calls (decoded parse raws)))"
proof (induction raws)
  case (Cons raw raws)
  show ?case
  proof (cases "result_bind (parse raw) decode_chunk")
    case (Inr ck)
    then obtain j where "decode_chunk j = Inr ck" by (auto simp: bind_Inr_iff)
    from decode_chunk_mergeable [OF this] Cons Inr show ?thesis
      by (auto simp: chunk_calls_def list_all_iff)
  qed simp
qed simp

lemma then_step_Return:
  "snd (then_step r f) = Return \<longleftrightarrow> snd r = Return \<or> (\<exists>st. snd r = Continue st \<and> snd (f st) = Return)"
  by (cases r; cases "snd r") auto

lemma parts_return:
  "snd (reasoning_step c s st) \<noteq> Return" "snd (content_step s st) \<noteq> Return"
  "list_all mergeable ds \<Longrightarrow> snd (tools_step ds st) \<noteq> Return"
  unfolding reasoning_step_def content_step_def tools_step_def guard_reasoning_def guard_content_def
  using merge_delta_ok [of ds "acc st"]
  by (auto simp: Let_def split: option.splits prod.splits bool.splits)

lemma choices_return:
  "list_all (\<lambda>ch. list_all mergeable (delta_calls (choice_delta ch))) chs \<Longrightarrow> snd (choices_loop c chs st) \<noteq> Return"
  by (induction chs arbitrary: st) (auto simp: then_step_Return choice_step_def Let_def parts_return)

lemma chunk_return:
  "result_bind (parse raw) decode_chunk = Inr ck \<Longrightarrow> snd (chunk_step c ck st) \<noteq> Return"
  using choices_return
  by (auto simp: chunk_step_def then_step_Return bind_Inr_iff dest!: decode_chunk_mergeable)

text \<open>The loop returns early only on a payload that does not decode.\<close>

lemma loop_return:
  "stream_loop parse c xs st = (es, Return) \<Longrightarrow>
     \<not> all_decode parse (payloads xs) \<and> es \<noteq> [] \<and> (\<exists>e. last es = ErrorEvent (UnmarshalChunk e))"
proof (induction xs arbitrary: st es)
  case (Cons x xs)
  show ?case
  proof (cases x)
    case Silence
    with Cons show ?thesis by (auto split: if_splits)
  next
    case (Payload raw)
    show ?thesis
    proof (cases "result_bind (parse raw) decode_chunk")
      case (Inl e)
      with Payload Cons.prems show ?thesis by auto
    next
      case (Inr ck)
      then have loop: "then_step (chunk_step c ck st) (stream_loop parse c xs) = (es, Return)"
        using Cons.prems Payload by simp
      with chunk_return [of parse raw ck c st, OF Inr] obtain ds st1 where st1: "chunk_step c ck st = (ds, Continue st1)"
        "snd (stream_loop parse c xs st1) = Return"
        by (metis then_step_Return prod.collapse snd_conv)
      let ?r = "stream_loop parse c xs st1"
      have r: "?r = (fst ?r, Return)" using st1(2) by (simp add: prod_eq_iff)
      have es: "es = ds @ fst ?r" using loop unfolding st1(1) by simp
      with es Cons.IH [OF r] show ?thesis by (simp add: Payload)
    qed
  qed
qed simp

section \<open>The reply a list of chunks stands for\<close>

definition usage_events :: "chunk_usage option \<Rightarrow> event list" where
  "usage_events u = (case u of None \<Rightarrow> [] | Some u \<Rightarrow> [UsageEvent (usage_of u)])"

definition full_reply :: "chunk list \<Rightarrow> event list" where
  "full_reply cks =
     (let calls = snd (finalize (fst (merge_delta new_accumulator (concat (map chunk_calls cks)))));
          reason = last_reason [] (concat (map (\<lambda>ck. map choice_finish (choices ck)) cks))
      in concat (map chunk_deltas cks) @
         (if calls = [] then [] else [ToolCallComplete calls]) @
         usage_events (last_some None (map chunk_usage cks)) @
         [Done (if calls \<noteq> [] \<and> reason = [] then ''tool_calls'' else reason)])"

lemma run_uncut:
  assumes "stream_loop parse c xs (stream_init c) = (es, Break st)" "\<not> aborted st"
  shows "es @ stream_end None st = full_reply (decoded parse (payloads xs))"
proof -
  have f: "folded (concat (map chunk_calls (decoded parse (payloads xs)))) (map chunk_usage (decoded parse (payloads xs)))
      (concat (map (\<lambda>ck. map choice_finish (choices ck)) (decoded parse (payloads xs)))) (stream_init c) st"
    and es: "es = concat (map chunk_deltas (decoded parse (payloads xs)))"
    using loop_uncut [OF assms] by simp_all
  show ?thesis
    using f assms(2)
    by (simp add: es full_reply_def stream_end_def folded_def stream_init_def Let_def usage_events_def)
qed

text \<open>Where a completed call, an error and a done event come from.\<close>

lemma delta_not [simp]:
  "list_all delta_event ds \<Longrightarrow> ToolCallComplete cs \<notin> set ds"
  "list_all delta_event ds \<Longrightarrow> ErrorEvent e \<notin> set ds"
  "list_all delta_event ds \<Longrightarrow> Done r \<notin> set ds"
  by (auto simp: list_all_iff)

lemma stream_end_aborted:
  "aborted st \<Longrightarrow> stream_end err st = usage_events (last_usage st) @ [Done (finish_reason st)]"
  by (simp add: stream_end_def usage_events_def)

lemma stream_end_failed:
  "\<not> aborted st \<Longrightarrow> stream_end (Some e) st = [ErrorEvent (SseStream e)]"
  by (simp add: stream_end_def)

lemma run_stream_ends:
  obtains (undecodable) ds e where "run_stream parse c xs err = ds @ [ErrorEvent (UnmarshalChunk e)]"
      "list_all delta_event ds" "\<not> all_decode parse (payloads xs)"
  | (cut) ds u r where "run_stream parse c xs err = ds @ usage_events u @ [Done r]"
      "list_all delta_event ds" "r \<in> set abort_reasons"
  | (failed) ds e where "run_stream parse c xs err = ds @ [ErrorEvent (SseStream e)]"
      "list_all delta_event ds" "err = Some e"
  | (whole) "run_stream parse c xs err = full_reply (decoded parse (payloads xs))"
      "all_decode parse (payloads xs)" "err = None"
proof (cases rule: run_stream_cases [of parse c xs err])
  case (returned ds e)
  with loop_return [OF returned(3)] undecodable show thesis by auto
next
  case (broke ds st)
  show thesis
  proof (cases "aborted st")
    case True
    with broke show thesis by (intro cut [of ds "last_usage st" "finish_reason st"]) (auto simp: stream_end_aborted)
  next
    case False
    show thesis
    proof (cases err)
      case None
      with broke False run_uncut [OF broke(3) False] loop_uncut [OF broke(3) False] show thesis
        by (intro whole) auto
    next
      case (Some e)
      with broke False show thesis by (intro failed [of ds e]) (auto simp: stream_end_failed)
    qed
  qed
qed

lemma chunk_deltas_not [simp]:
  "ToolCallComplete cs \<notin> set (chunk_deltas ck)" "ErrorEvent e \<notin> set (chunk_deltas ck)"
  by (auto simp: chunk_deltas_def choice_deltas_def)

lemma usage_events_not [simp]:
  "ToolCallComplete cs \<notin> set (usage_events u)" "ErrorEvent e \<notin> set (usage_events u)"
  by (auto simp: usage_events_def split: option.splits)

lemma full_reply_no_error: "ErrorEvent e \<notin> set (full_reply cks)"
  by (auto simp: full_reply_def Let_def)

lemma full_reply_calls:
  "ToolCallComplete cs \<in> set (full_reply cks) \<Longrightarrow>
     cs = snd (finalize (fst (merge_delta new_accumulator (concat (map chunk_calls cks)))))"
  by (auto simp: full_reply_def Let_def split: if_splits)

lemma full_reply_deltas: "takeWhile delta_event (full_reply cks) = concat (map chunk_deltas cks)"
proof -
  have "list_all delta_event (concat (map chunk_deltas cks))"
    using chunk_deltas_delta by (auto simp: list_all_iff)
  then have "\<forall>e \<in> set (concat (map chunk_deltas cks)). delta_event e" by (simp only: list_all_iff)
  then show ?thesis
    unfolding full_reply_def Let_def
    by (subst takeWhile_append2) (auto simp: usage_events_def split: option.splits)
qed

text \<open>C2: A tool call is delivered whole or not at all. If a stream carries a completed-calls
  event, then the SSE reader reported no error, every payload decoded, no guard cut the stream,
  and the calls are exactly the ones assembled from all the fragments of the whole stream: one
  per index with a name, with the concatenated name and arguments.\<close>
theorem tool_calls_delivered_whole:
  assumes "ToolCallComplete cs \<in> set (run_stream parse c xs err)"
  shows "err = None \<and> all_decode parse (payloads xs) \<and>
    (let ds = concat (map chunk_calls (decoded parse (payloads xs))) in
      cs = map (\<lambda>i. with_id i (assembled new_call (fragments i ds))) (announced ds))"
proof (cases rule: run_stream_ends [of parse c xs err])
  case whole
  then have "cs = snd (finalize (fst (merge_delta new_accumulator (concat (map chunk_calls (decoded parse (payloads xs)))))))"
    using assms full_reply_calls by simp
  with whole show ?thesis by (simp add: Let_def finalize_merge [OF decoded_mergeable])
qed (use assms in auto)

text \<open>C5: A done event with a reason that is not one of the guards' certifies the reply: the
  whole stream was read without error and the events are exactly the ones its chunks stand for,
  deltas in order, then the assembled calls, the last usage, and the last finish reason (or
  "tool_calls" where the server gave none).\<close>
theorem done_certifies_reply:
  assumes "last (run_stream parse c xs err) = Done r" and "r \<notin> set abort_reasons"
  shows "err = None \<and> all_decode parse (payloads xs) \<and>
    run_stream parse c xs err = full_reply (decoded parse (payloads xs))"
  by (cases rule: run_stream_ends [of parse c xs err]) (use assms in auto)

text \<open>C32: Errors are what they say. An error event is the last event; it reports either a
  payload that does not decode or the error the SSE reader stored. (The merge error of the source
  cannot occur on decoded fragments.)\<close>
theorem error_event_causes:
  assumes "ErrorEvent e \<in> set (run_stream parse c xs err)"
  shows "last (run_stream parse c xs err) = ErrorEvent e \<and>
    (case e of
       UnmarshalChunk _ \<Rightarrow> \<not> all_decode parse (payloads xs)
     | SseStream s \<Rightarrow> err = Some s
     | _ \<Rightarrow> False)"
proof (cases rule: run_stream_ends [of parse c xs err])
  case whole
  with assms show ?thesis by (simp add: full_reply_no_error)
qed (use assms in auto)

text \<open>Whatever the guards do, the deltas delivered are a prefix of the deltas the server
  sent, in the order it sent them: nothing is dropped, repeated or reordered.\<close>
theorem deltas_in_order:
  "prefix (takeWhile delta_event (run_stream parse c xs err))
     (concat (map chunk_deltas (decoded parse (payloads xs))))"
proof -
  have *: "takeWhile delta_event (ds @ es) = filter delta_event ds"
    if "list_all delta_event ds" "closing es" for ds es
  proof -
    have "takeWhile delta_event es = []" using that(2) by (cases es rule: closing.cases) auto
    with that(1) show ?thesis by (induction ds) auto
  qed
  show ?thesis
  proof (cases rule: run_stream_cases [of parse c xs err])
    case (returned ds e)
    have "filter delta_event ds = filter delta_event (ds @ [ErrorEvent e])" by simp
    also have "prefix \<dots> (concat (map chunk_deltas (decoded parse (payloads xs))))"
      using loop_delivers [of parse c xs "stream_init c"] by (simp only: returned(3) fst_conv)
    finally show ?thesis using * [OF returned(2), of "[ErrorEvent e]"] by (simp only: returned(1)) simp
  next
    case (broke ds st)
    show ?thesis
      using loop_delivers [of parse c xs "stream_init c"] * [OF broke(2) stream_end_closing]
      by (simp only: broke(1,3) fst_conv)
  qed
qed

text \<open>Without guards no step aborts.\<close>

definition unguarded :: "openai_client \<Rightarrow> bool" where
  "unguarded c \<longleftrightarrow> \<not> loop_guard c \<and> reasoning_budget c \<le> 0 \<and> stall_timeout c \<le> 0"

lemma parts_unguarded:
  "detector st = None \<Longrightarrow> reasoning_budget c \<le> 0 \<Longrightarrow> \<exists>es. reasoning_step c s st = (es, Continue st)"
  "detector st = None \<Longrightarrow> \<exists>es st'. content_step s st = (es, Continue st') \<and> detector st' = None"
  "list_all mergeable ds \<Longrightarrow> detector st = None \<Longrightarrow> \<exists>es st'. tools_step ds st = (es, Continue st') \<and> detector st' = None"
  using merge_delta_ok [of ds "acc st"]
  by (auto simp: reasoning_step_def content_step_def tools_step_def guard_reasoning_def guard_content_def
      split: prod.splits)

lemma choices_unguarded:
  "list_all (\<lambda>ch. list_all mergeable (delta_calls (choice_delta ch))) chs \<Longrightarrow> detector st = None \<Longrightarrow>
     reasoning_budget c \<le> 0 \<Longrightarrow> \<exists>es st'. choices_loop c chs st = (es, Continue st') \<and> detector st' = None"
proof (induction chs arbitrary: st)
  case (Cons ch chs)
  let ?st = "if choice_finish ch \<noteq> [] then st\<lparr>finish_reason := choice_finish ch\<rparr> else st"
  let ?d = "choice_delta ch"
  have "detector ?st = None" using Cons.prems by simp
  then obtain e1 where 1: "reasoning_step c (reasoning_content ?d) ?st = (e1, Continue ?st)"
    using parts_unguarded(1) Cons.prems(3) by blast
  obtain e2 s2 where 2: "content_step (delta_content ?d) ?st = (e2, Continue s2)" "detector s2 = None"
    using parts_unguarded(2) \<open>detector ?st = None\<close> by blast
  have "list_all mergeable (delta_calls ?d)" using Cons.prems(1) by simp
  from parts_unguarded(3) [OF this 2(2)]
  obtain e3 s3 where 3: "tools_step (delta_calls ?d) s2 = (e3, Continue s3)" "detector s3 = None" by blast
  have "choice_step c ch st = (e1 @ e2 @ e3, Continue s3)"
    unfolding choice_step_def Let_def 1 by (simp add: 2 3)
  with Cons.IH [of s3] Cons.prems 3(2) show ?case by auto
qed simp

lemma loop_unguarded:
  "all_decode parse (payloads xs) \<Longrightarrow> unguarded c \<Longrightarrow> detector st = None \<Longrightarrow> \<not> aborted st \<Longrightarrow>
     \<exists>es st'. stream_loop parse c xs st = (es, Break st') \<and> \<not> aborted st'"
proof (induction xs arbitrary: st)
  case (Cons x xs)
  show ?case
  proof (cases x)
    case Silence
    with Cons show ?thesis by (auto simp: unguarded_def)
  next
    case (Payload raw)
    with Cons.prems(1) obtain ck where ck: "result_bind (parse raw) decode_chunk = Inr ck"
      by (cases "result_bind (parse raw) decode_chunk") auto
    then have "list_all (\<lambda>ch. list_all mergeable (delta_calls (choice_delta ch))) (choices ck)"
      by (auto simp: bind_Inr_iff dest: decode_chunk_mergeable)
    with choices_unguarded [of "choices ck" "st\<lparr>started := True\<rparr>" c] Cons.prems
    obtain es st1 where st1: "choices_loop c (choices ck) (st\<lparr>started := True\<rparr>) = (es, Continue st1)" "detector st1 = None"
      by (auto simp: unguarded_def)
    define st2 where "st2 = (case chunk_usage ck of None \<Rightarrow> st1 | Some u \<Rightarrow> st1\<lparr>last_usage := Some u\<rparr>)"
    have st2: "chunk_step c ck st = (es, Continue st2)"
      by (simp add: chunk_step_def st1 st2_def)
    have "\<not> aborted st2"
      using chunk_abort_inv [OF Cons.prems(4), of c ck] unfolding st2 by simp
    moreover have "detector st2 = None" using st1 by (simp add: st2_def split: option.split)
    ultimately show ?thesis
      using Cons.IH [of st2] Cons.prems Payload ck st2 by auto
  qed
qed simp

lemma run_unguarded:
  assumes "unguarded c" "all_decode parse (payloads xs)"
  shows "run_stream parse c xs None = full_reply (decoded parse (payloads xs))"
proof -
  have "detector (stream_init c) = None" "\<not> aborted (stream_init c)"
    using assms(1) by (simp_all add: stream_init_def unguarded_def)
  from loop_unguarded [OF assms(2,1) this] obtain es st where
    "stream_loop parse c xs (stream_init c) = (es, Break st)" "\<not> aborted st" by blast
  then show ?thesis using run_uncut by (simp add: run_stream_def)
qed

text \<open>C6: A healthy stream is delivered completely: with the guards off, when every payload
  decodes and the SSE reader ends without error, \<open>Chat\<close> returns exactly the reply its
  chunks stand for, however long the pauses between them.\<close>
theorem healthy_stream_complete:
  assumes "unguarded c" "all_decode parse (payloads xs)"
  shows "run_stream parse c xs None = full_reply (decoded parse (payloads xs))"
  by (rule run_unguarded [OF assms])

lemma parts_started:
  "snd (reasoning_step c s st) = Continue st' \<Longrightarrow> started st' = started st"
  "snd (content_step s st) = Continue st' \<Longrightarrow> started st' = started st"
  "snd (tools_step ds st) = Continue st' \<Longrightarrow> started st' = started st"
  unfolding reasoning_step_def content_step_def tools_step_def guard_reasoning_def guard_content_def
  by (auto simp: Let_def split: option.splits prod.splits bool.splits if_splits)

lemma choices_started: "snd (choices_loop c chs st) = Continue st' \<Longrightarrow> started st' = started st"
  by (induction chs arbitrary: st)
    (auto simp: then_step_Continue choice_step_def Let_def dest!: parts_started split: if_splits)

lemma chunk_started: "snd (chunk_step c ck st) = Continue st' \<Longrightarrow> started st'"
  by (auto simp: chunk_step_def then_step_Continue dest!: choices_started split: option.splits)


section \<open>The reasoning budget\<close>

fun event_runes :: "event \<Rightarrow> nat" where
  "event_runes (ReasoningDelta s) = length (runes s)"
| "event_runes _ = 0"

definition reasoning_total :: "event list \<Rightarrow> nat" where
  "reasoning_total es = sum_list (map event_runes es)"

lemma reasoning_total_simps [simp]:
  "reasoning_total [] = 0" "reasoning_total (e # es) = event_runes e + reasoning_total es"
  "reasoning_total (es @ es') = reasoning_total es + reasoning_total es'"
  by (simp_all add: reasoning_total_def)

lemma reasoning_total_butlast: "reasoning_total (butlast es) \<le> reasoning_total es"
  by (cases es rule: rev_cases) simp_all

text \<open>A choice that only thinks.\<close>

definition thinking :: "choice \<Rightarrow> bool" where
  "thinking ch \<longleftrightarrow> delta_content (choice_delta ch) = [] \<and> delta_calls (choice_delta ch) = []"

text \<open>How a step counts: what it delivers beyond its last event is within the budget, and all of
  it unless the stream is aborted.\<close>

definition counted :: "int \<Rightarrow> nat \<Rightarrow> event list \<times> outcome \<Rightarrow> bool" where
  "counted b n r =
     (case r of
        (es, Continue st) \<Rightarrow> \<not> acting st \<and> reasoning_runes st = n + reasoning_total es \<and> int (reasoning_runes st) \<le> b
      | (es, Break st) \<Rightarrow> int (n + reasoning_total (butlast es)) \<le> b \<and> (aborted st \<or> int (n + reasoning_total es) \<le> b)
      | (es, Return) \<Rightarrow> int (n + reasoning_total es) \<le> b)"

lemma counted_simps [simp]:
  "counted b n (es, Continue st) \<longleftrightarrow>
     \<not> acting st \<and> reasoning_runes st = n + reasoning_total es \<and> int (reasoning_runes st) \<le> b"
  "counted b n (es, Break st) \<longleftrightarrow>
     int (n + reasoning_total (butlast es)) \<le> b \<and> (aborted st \<or> int (n + reasoning_total es) \<le> b)"
  "counted b n (es, Return) \<longleftrightarrow> int (n + reasoning_total es) \<le> b"
  by (simp_all add: counted_def)

lemma counted_then:
  assumes "counted b n r"
    and "\<And>st. \<not> acting st \<Longrightarrow> int (reasoning_runes st) \<le> b \<Longrightarrow> counted b (reasoning_runes st) (f st)"
  shows "counted b n (then_step r f)"
proof (cases r)
  case (Pair es out)
  show ?thesis
  proof (cases out)
    case (Continue st)
    with Pair assms(1) have st: "\<not> acting st" "reasoning_runes st = n + reasoning_total es"
      "int (reasoning_runes st) \<le> b" by simp_all
    obtain es' out' where f: "f st = (es', out')" by fastforce
    with assms(2) [OF st(1,3)] st Pair Continue reasoning_total_butlast [of es] show ?thesis
      by (cases out'; cases "es' = []") (auto simp: butlast_append)
  qed (use Pair assms(1) in simp_all)
qed

lemma reasoning_counted:
  assumes "0 < reasoning_budget c" "\<not> acting st" "int (reasoning_runes st) \<le> reasoning_budget c"
  shows "counted (reasoning_budget c) (reasoning_runes st) (reasoning_step c s st)"
  using assms
  by (auto simp: reasoning_step_def guard_reasoning_def Let_def abort_def
      split: option.splits prod.splits bool.splits)

lemma choice_counted:
  assumes "thinking ch" "0 < reasoning_budget c" "\<not> acting st" "int (reasoning_runes st) \<le> reasoning_budget c"
  shows "counted (reasoning_budget c) (reasoning_runes st) (choice_step c ch st)"
proof -
  let ?st = "if choice_finish ch \<noteq> [] then st\<lparr>finish_reason := choice_finish ch\<rparr> else st"
  have st: "\<not> acting ?st" "reasoning_runes ?st = reasoning_runes st" using assms(3) by simp_all
  have "counted (reasoning_budget c) (reasoning_runes ?st)
    (reasoning_step c (reasoning_content (choice_delta ch)) ?st)"
    by (rule reasoning_counted) (use assms st in simp_all)
  then have "counted (reasoning_budget c) (reasoning_runes st)
    (reasoning_step c (reasoning_content (choice_delta ch)) ?st)" by (simp only: st(2))
  then show ?thesis
    unfolding choice_step_def Let_def
    by (rule counted_then) (use assms(1) in \<open>simp add: thinking_def content_step_def tools_step_def\<close>)
qed

lemma choices_counted:
  assumes "list_all thinking chs" "0 < reasoning_budget c" "\<not> acting st" "int (reasoning_runes st) \<le> reasoning_budget c"
  shows "counted (reasoning_budget c) (reasoning_runes st) (choices_loop c chs st)"
  using assms
  by (induction chs arbitrary: st) (auto intro!: counted_then choice_counted)

lemma chunk_counted:
  assumes "list_all thinking (choices ck)" "0 < reasoning_budget c" "\<not> acting st"
    "int (reasoning_runes st) \<le> reasoning_budget c"
  shows "counted (reasoning_budget c) (reasoning_runes st) (chunk_step c ck st)"
proof -
  have "counted (reasoning_budget c) (reasoning_runes st) (choices_loop c (choices ck) (st\<lparr>started := True\<rparr>))"
    using choices_counted [of "choices ck" c "st\<lparr>started := True\<rparr>"] assms by simp
  then show ?thesis
    unfolding chunk_step_def by (rule counted_then) (simp split: option.split)
qed

lemma loop_counted:
  assumes "list_all (\<lambda>ck. list_all thinking (choices ck)) (decoded parse (payloads xs))"
    "0 < reasoning_budget c" "\<not> acting st" "int (reasoning_runes st) \<le> reasoning_budget c"
  shows "counted (reasoning_budget c) (reasoning_runes st) (stream_loop parse c xs st)"
  using assms
proof (induction xs arbitrary: st)
  case (Cons x xs)
  show ?case
  proof (cases x)
    case Silence
    with Cons show ?thesis by auto
  next
    case (Payload raw)
    with Cons show ?thesis
      by (auto split: sum.split intro!: counted_then chunk_counted)
  qed
qed simp

text \<open>The reasoning budget bounds a model that only thinks. While a stream brings neither
  text nor tool calls, the reasoning delivered before the last fragment never exceeds the budget,
  and when all of it does, the stream ends with the reason of a guard, never as a finished reply.\<close>
theorem reasoning_budget_bounds:
  assumes "0 < reasoning_budget c"
    and "list_all (\<lambda>ck. list_all thinking (choices ck)) (decoded parse (payloads xs))"
  shows "let rs = takeWhile delta_event (run_stream parse c xs err) in
    int (reasoning_total (butlast rs)) \<le> reasoning_budget c \<and>
    (reasoning_budget c < int (reasoning_total rs) \<longrightarrow>
       (\<exists>r \<in> set abort_reasons. last (run_stream parse c xs err) = Done r))"
proof -
  define rs where "rs = takeWhile delta_event (run_stream parse c xs err)"
  have count: "counted (reasoning_budget c) 0 (stream_loop parse c xs (stream_init c))"
    using loop_counted [OF assms(2,1), of "stream_init c"] assms(1) by (simp add: stream_init_def)
  have rs: "rs = ds" if "run_stream parse c xs err = ds @ es" "list_all delta_event ds" "closing es" for ds es
  proof -
    have "takeWhile delta_event es = []" using that(3) by (cases es rule: closing.cases) auto
    with that(2) show ?thesis unfolding rs_def that(1) by (induction ds) auto
  qed
  have "int (reasoning_total (butlast rs)) \<le> reasoning_budget c \<and>
    (reasoning_budget c < int (reasoning_total rs) \<longrightarrow>
       (\<exists>r \<in> set abort_reasons. last (run_stream parse c xs err) = Done r))"
  proof (cases rule: run_stream_cases [of parse c xs err])
    case (returned ds e)
    with rs [OF returned(1,2)] count reasoning_total_butlast [of ds] show ?thesis by simp
  next
    case (broke ds st)
    with rs [OF broke(1,2) stream_end_closing] count show ?thesis
      by (auto simp: stream_end_aborted)
  qed
  then show ?thesis unfolding rs_def Let_def .
qed

section \<open>Witnesses\<close>

text \<open>Three payloads: a text delta, a whole call, a thought; anything else is not JSON.\<close>

definition demo_choice :: "(string \<times> json) list \<Rightarrow> json" where
  "demo_choice ms = JObj [(''choices'', JArr [JObj [(''delta'', JObj ms)]])]"

definition demo_parse :: "string \<Rightarrow> json_error + json" where
  "demo_parse s =
     (if s = ''T'' then Inr (demo_choice [(''content'', JStr ''hi'')])
      else if s = ''C'' then Inr (demo_choice [(''tool_calls'', JArr [JObj [(''id'', JStr ''a''),
        (''function'', JObj [(''name'', JStr ''f''), (''arguments'', JStr ''{}'')])]])])
      else if s = ''R'' then Inr (demo_choice [(''reasoning_content'', JStr ''hmm'')])
      else Inl (TypeMismatch s))"

definition demo_delta :: delta where
  "demo_delta = \<lparr>delta_role = [], delta_content = [], reasoning_content = [], delta_calls = []\<rparr>"

definition demo_chunk :: "delta \<Rightarrow> chunk" where
  "demo_chunk d = \<lparr>choices = [\<lparr>choice_index = 0, choice_delta = d, choice_finish = []\<rparr>], chunk_usage = None\<rparr>"

definition demo_call :: dt_call where
  "demo_call = \<lparr>dt_index = 0, dt_id = ''a'', dt_name = ''f'', dt_args = Decoded (JStr ''{}'')\<rparr>"

definition chunk_keys :: "string list" where
  "chunk_keys = [''role'', ''content'', ''reasoning_content'', ''tool_calls'', ''index'', ''id'', ''type'',
     ''function'', ''name'', ''arguments'', ''delta'', ''finish_reason'', ''choices'', ''usage'']"

lemma chunk_keys_distinct: "distinct (map fold_key chunk_keys)"
  by (simp add: chunk_keys_def fold_key.simps upper_ascii_def)

lemma fold_chunk_keys:
  "a \<in> set chunk_keys \<Longrightarrow> b \<in> set chunk_keys \<Longrightarrow> fold_key a = fold_key b \<longleftrightarrow> a = b"
  using fold_key_distinct [OF chunk_keys_distinct] .

lemmas decode_defs = decode_chunk_def decode_choice_def decode_delta_def decode_dt_call_def
  str_field_def raw_field_def struct_field_def int_field_def pointer_field_def

lemma demo_decoded:
  "result_bind (demo_parse ''T'') decode_chunk = Inr (demo_chunk (demo_delta\<lparr>delta_content := ''hi''\<rparr>))"
  "result_bind (demo_parse ''C'') decode_chunk = Inr (demo_chunk (demo_delta\<lparr>delta_calls := [demo_call]\<rparr>))"
  "result_bind (demo_parse ''R'') decode_chunk = Inr (demo_chunk (demo_delta\<lparr>reasoning_content := ''hmm''\<rparr>))"
  "result_bind (demo_parse ''!'') decode_chunk = Inl (TypeMismatch ''!'')"
  by (simp_all add: demo_parse_def demo_choice_def demo_chunk_def demo_delta_def demo_call_def decode_defs
      fold_chunk_keys chunk_keys_def)

lemmas demo_simps = run_stream_def stream_init_def demo_client_def demo_decoded chunk_step_def choice_step_def
  demo_chunk_def demo_delta_def reasoning_step_def content_step_def tools_step_def guard_reasoning_def
  guard_content_def stream_end_def

definition demo_tool_call :: tool_call where
  "demo_tool_call = \<lparr>call_id = ''a'', call_type = ''function'', fn = \<lparr>fn_name = ''f'', arguments = ''{}''\<rparr>\<rparr>"

lemma demo_merge:
  "merge_one new_accumulator demo_call = ([(0, demo_tool_call)], None)"
  by (simp add: demo_call_def merge_one_def merge_header_def append_args_def demo_tool_call_def new_accumulator_def
      call_at_def new_call_def)

lemma demo_finalize:
  "finalize [(0, demo_tool_call)] = ([(0, demo_tool_call)], [demo_tool_call])"
  "finalize new_accumulator = ([], [])"
  by (simp_all add: finalize_def demo_tool_call_def call_at_def with_id_def Let_def new_accumulator_def)

lemma demo_runs:
  "run_stream demo_parse demo_client [Payload ''C''] None = [ToolCallComplete [demo_tool_call], Done ''tool_calls'']"
  "run_stream demo_parse demo_client [Payload ''T''] None = [TextDelta ''hi'', Done []]"
  "run_stream demo_parse demo_client [Payload ''!''] None = [ErrorEvent (UnmarshalChunk (TypeMismatch ''!''))]"
  by (simp_all add: demo_simps demo_merge demo_finalize Let_def)

theorem tool_calls_delivered_whole_witness:
  "let ds = concat (map chunk_calls (decoded demo_parse [''C''])) in
   [demo_tool_call] = map (\<lambda>i. with_id i (assembled new_call (fragments i ds))) (announced ds)"
  using tool_calls_delivered_whole [of "[demo_tool_call]" demo_parse demo_client "[Payload ''C'']" None]
  by (simp add: demo_runs)

theorem done_certifies_reply_witness:
  "run_stream demo_parse demo_client [Payload ''T''] None = full_reply (decoded demo_parse [''T''])"
  using done_certifies_reply [of demo_parse demo_client "[Payload ''T'']" None "[]"]
  by (simp add: demo_runs abort_reasons_def finish_repetition_def finish_stall_def finish_reasoning_budget_def)

theorem error_event_causes_witness:
  "\<not> all_decode demo_parse [''!'']"
  using error_event_causes [of "UnmarshalChunk (TypeMismatch ''!'')" demo_parse demo_client "[Payload ''!'']" None]
  by (simp add: demo_runs)

theorem healthy_stream_complete_witness:
  "run_stream demo_parse demo_client [Silence, Payload ''T'', Silence, Payload ''C''] None =
     [TextDelta ''hi'', ToolCallComplete [demo_tool_call], Done ''tool_calls'']"
proof -
  have "unguarded demo_client" by (simp add: unguarded_def demo_client_def)
  moreover have "all_decode demo_parse (payloads [Silence, Payload ''T'', Silence, Payload ''C''])"
    by (simp add: demo_decoded)
  ultimately show ?thesis
    by (rule trans [OF healthy_stream_complete])
      (simp add: full_reply_def chunk_deltas_def choice_deltas_def chunk_calls_def usage_events_def demo_decoded
        demo_chunk_def demo_delta_def demo_merge demo_finalize Let_def)
qed


lemma demo_runes: "length (runes ''hmm'') = 3"
  by (subst runes_ascii) simp_all

theorem reasoning_budget_bounds_witness:
  "\<exists>r \<in> set abort_reasons.
     last (run_stream demo_parse (demo_client\<lparr>reasoning_budget := 2\<rparr>) [Payload ''R'', Payload ''R''] None) = Done r"
proof -
  let ?c = "demo_client\<lparr>reasoning_budget := 2\<rparr>" and ?xs = "[Payload ''R'', Payload ''R'']"
  have run: "run_stream demo_parse ?c ?xs None = [ReasoningDelta ''hmm'', Done finish_reasoning_budget]"
    by (simp add: demo_simps Let_def abort_def demo_runes)
  have "list_all (\<lambda>ck. list_all thinking (choices ck)) (decoded demo_parse (payloads ?xs))"
    by (simp add: demo_decoded demo_chunk_def demo_delta_def thinking_def)
  from reasoning_budget_bounds [OF _ this, of ?c None] show ?thesis
    unfolding run by (simp add: demo_runes Let_def)
qed

end
