(* ===== verification/ChatClient.thy ===== *)
theory ChatClient
  imports ChatStream
begin

text \<open>
  What is built on the event stream of a chat client: the iterator \<open>Stream\<close> (llm/stream.go), the
  one-shot \<open>Complete\<close> (llm/complete.go), the pool-bounded client (llm/pooled.go) and the scripted
  client for tests (llm/llmtest/llmtest.go). The contract between a client and its consumers is a
  locale, which the OpenAI client, its pooled wrapper and the scripted client satisfy.
\<close>

section \<open>Stream\<close>

text \<open>What the result of \<open>Chat\<close> and of the consumers can fail with.\<close>

datatype client_error =
    ChatFailed go_error
  | StreamFailed stream_error
  | GotToolCall string
  | EmptyQueue nat
  | PoolFailed string

type_synonym chat_result = "client_error + event list"

text \<open>
  The loop over the channel: an error event is yielded on the error side, any other event as it
  is; a consumer that asks to stop leaves the remaining events to be drained. The consumer is a
  function on its own state; the result is that state and the drained events.
\<close>

type_synonym 's consumer = "'s \<Rightarrow> client_error + event \<Rightarrow> 's \<times> bool"

definition yielded :: "event \<Rightarrow> client_error + event" where
  "yielded ev = (case ev of ErrorEvent e \<Rightarrow> Inl (StreamFailed e) | _ \<Rightarrow> Inr ev)"

fun yield_loop :: "'s consumer \<Rightarrow> event list \<Rightarrow> 's \<Rightarrow> 's \<times> event list" where
  "yield_loop f [] s = (s, [])"
| "yield_loop f (ev # evs) s =
     (case f s (yielded ev) of (s', True) \<Rightarrow> yield_loop f evs s' | (s', False) \<Rightarrow> (s', evs))"

definition stream_iter :: "chat_result \<Rightarrow> 's consumer \<Rightarrow> 's \<Rightarrow> 's \<times> event list" where
  "stream_iter r f s = (case r of Inl e \<Rightarrow> (fst (f s (Inl e)), []) | Inr evs \<Rightarrow> yield_loop f evs s)"

text \<open>
  \<open>Chat\<close> of the OpenAI client: the request phase, and on a response its stream. The result has the
  tracker after the request phase and whether that started the probe.
\<close>

definition chat_openai :: "(string \<Rightarrow> json_error + json) \<Rightarrow> openai_client \<Rightarrow> world \<Rightarrow> nat \<Rightarrow> tracker \<Rightarrow>
    sse_input list \<Rightarrow> sse_error option \<Rightarrow> chat_result \<times> tracker \<times> bool" where
  "chat_openai parse c w now t xs err =
     (let s = chat_request_phase c w now t in
      (case cs_result s of
         Inl e \<Rightarrow> Inl (ChatFailed e)
       | Inr _ \<Rightarrow> Inr (run_stream parse c xs err), cs_tracker s, cs_probe_started s))"

section \<open>Complete\<close>

text \<open>The value \<open>Complete\<close> returns; indexing an empty list of calls panics.\<close>

datatype completion = Panicked | Failed client_error | Completed string message_usage

record completing =
  so_far :: string
  usage_seen :: message_usage
  returned :: "completion option"

definition zero_usage :: message_usage where
  "zero_usage = \<lparr>input_tokens = 0, output_tokens = 0, cache_read_tokens = 0, cache_write_tokens = 0,
     reasoning_tokens = 0, total_tokens = 0\<rparr>"

definition complete_body :: "completing consumer" where
  "complete_body s item =
     (case item of
        Inl e \<Rightarrow> (s\<lparr>returned := Some (Failed e)\<rparr>, False)
      | Inr (TextDelta t) \<Rightarrow> (s\<lparr>so_far := so_far s @ t\<rparr>, True)
      | Inr (ToolCallComplete cs) \<Rightarrow>
          (s\<lparr>returned := Some (case cs of [] \<Rightarrow> Panicked | c # _ \<Rightarrow> Failed (GotToolCall (fn_name (fn c))))\<rparr>, False)
      | Inr (UsageEvent u) \<Rightarrow> (s\<lparr>usage_seen := u\<rparr>, True)
      | Inr _ \<Rightarrow> (s, True))"

definition complete :: "chat_result \<Rightarrow> completion" where
  "complete r =
     (let s = fst (stream_iter r complete_body \<lparr>so_far = [], usage_seen = zero_usage, returned = None\<rparr>)
      in case returned s of Some c \<Rightarrow> c | None \<Rightarrow> Completed (so_far s) (usage_seen s))"

section \<open>The pooled client\<close>

text \<open>
  One call of the pooled client as the actions it performs, with the value it returns. The
  deferred calls of the forwarding goroutine run in reverse order: the slot is released, then the
  channel closed.
\<close>

datatype pool_action = Acquire | Release | Inner | Forward event | Close

definition pooled_chat :: "client_error option \<Rightarrow> chat_result \<Rightarrow> pool_action list \<times> chat_result" where
  "pooled_chat acquire_err inner =
     (case acquire_err of
        Some e \<Rightarrow> ([], Inl e)
      | None \<Rightarrow>
          (case inner of
             Inl e \<Rightarrow> ([Acquire, Inner, Release], Inl e)
           | Inr evs \<Rightarrow> ([Acquire, Inner] @ map Forward evs @ [Release, Close], Inr evs)))"

section \<open>The scripted client\<close>

text \<open>
  \<open>Script\<close>; a gate is the outcome of waiting on it: opened, or the context done first.
\<close>

datatype gate = NoGate | Opened | CtxDone

record script =
  sc_reasoning :: string
  sc_text :: string
  sc_calls :: "tool_call list"
  sc_gate :: gate
  sc_err :: "stream_error option"
  sc_finish :: string
  sc_usage :: "message_usage option"
  suppress_usage :: bool

record mock =
  mock_queue :: "script list"
  mock_calls :: "chat_request list"

definition new_mock :: mock where
  "new_mock = \<lparr>mock_queue = [], mock_calls = []\<rparr>"

definition mock_call :: "string \<Rightarrow> string \<Rightarrow> string \<Rightarrow> tool_call" where
  "mock_call i n a = \<lparr>call_id = i, call_type = ''function'', fn = \<lparr>fn_name = n, arguments = a\<rparr>\<rparr>"

definition mock_push :: "script \<Rightarrow> mock \<Rightarrow> mock" where
  "mock_push s m = m\<lparr>mock_queue := mock_queue m @ [s]\<rparr>"

definition mock_call_count :: "mock \<Rightarrow> nat" where
  "mock_call_count m = length (mock_calls m)"

definition leftover :: "mock \<Rightarrow> nat" where
  "leftover m = length (mock_queue m)"

definition call_chars :: "tool_call \<Rightarrow> nat" where
  "call_chars tc = length (fn_name (fn tc)) + length (arguments (fn tc))"

definition input_chars :: "message list \<Rightarrow> nat" where
  "input_chars ms = (\<Sum>m\<leftarrow>ms. length (content m) + length (role m) + length (tool_call_id m) +
     (\<Sum>tc\<leftarrow>tool_calls m. length (call_id tc) + call_chars tc))"

definition auto_usage :: "chat_request \<Rightarrow> script \<Rightarrow> message_usage" where
  "auto_usage req s =
     (let inp = input_chars (req_messages req) div 4;
          out = (length (sc_text s) + (\<Sum>tc\<leftarrow>sc_calls s. call_chars tc)) div 4;
          inp = (if inp = 0 then 1 else inp);
          out = (if out = 0 \<and> (sc_text s \<noteq> [] \<or> sc_calls s \<noteq> []) then 1 else out)
      in zero_usage\<lparr>input_tokens := int inp, output_tokens := int out, total_tokens := int (inp + out)\<rparr>)"

definition script_events :: "chat_request \<Rightarrow> script \<Rightarrow> event list" where
  "script_events req s =
     (if sc_reasoning s \<noteq> [] then [ReasoningDelta (sc_reasoning s)] else []) @
     (if sc_text s \<noteq> [] then [TextDelta (sc_text s)] else []) @
     map (\<lambda>tc. ToolCallComplete [tc]) (sc_calls s) @
     (if sc_gate s = CtxDone then []
      else case sc_err s of
        Some e \<Rightarrow> [ErrorEvent e]
      | None \<Rightarrow>
          (if suppress_usage s then []
           else [UsageEvent (case sc_usage s of Some u \<Rightarrow> u | None \<Rightarrow> auto_usage req s)]) @
          [Done (sc_finish s)])"

definition mock_chat :: "chat_request \<Rightarrow> mock \<Rightarrow> mock \<times> chat_result" where
  "mock_chat req m =
     (let m = m\<lparr>mock_calls := mock_calls m @ [req]\<rparr>
      in case mock_queue m of
           [] \<Rightarrow> (m, Inl (EmptyQueue (length (mock_calls m))))
         | s # q \<Rightarrow> (m\<lparr>mock_queue := q\<rparr>, Inr (script_events req s)))"

section \<open>The contract of a client\<close>

fun terminal_event :: "event \<Rightarrow> bool" where
  "terminal_event (Done r) = True"
| "terminal_event (ErrorEvent e) = True"
| "terminal_event _ = False"

text \<open>What stops \<open>Complete\<close>, and the text and usage it collects.\<close>

fun stops :: "event \<Rightarrow> bool" where
  "stops (ErrorEvent e) = True"
| "stops (ToolCallComplete cs) = True"
| "stops _ = False"

fun event_text :: "event \<Rightarrow> string" where
  "event_text (TextDelta t) = t"
| "event_text _ = []"

fun event_usage :: "event \<Rightarrow> message_usage option" where
  "event_usage (UsageEvent u) = Some u"
| "event_usage _ = None"

definition replied :: "event list \<Rightarrow> string" where
  "replied evs = concat (map event_text evs)"

definition usage_after :: "message_usage \<Rightarrow> event list \<Rightarrow> message_usage" where
  "usage_after u evs = foldl (\<lambda>u e. case event_usage e of None \<Rightarrow> u | Some v \<Rightarrow> v) u evs"

lemma collected_simps [simp]:
  "replied [] = []" "replied (e # evs) = event_text e @ replied evs"
  "usage_after u [] = u" "usage_after u (e # evs) = usage_after (case event_usage e of None \<Rightarrow> u | Some v \<Rightarrow> v) evs"
  by (simp_all add: replied_def usage_after_def)

lemma complete_body_simps [simp]:
  "complete_body s (yielded (TextDelta t)) = (s\<lparr>so_far := so_far s @ t\<rparr>, True)"
  "complete_body s (yielded (ReasoningDelta t)) = (s, True)"
  "complete_body s (yielded (UsageEvent u)) = (s\<lparr>usage_seen := u\<rparr>, True)"
  "complete_body s (yielded (Done r)) = (s, True)"
  "complete_body s (yielded (ErrorEvent e)) = (s\<lparr>returned := Some (Failed (StreamFailed e))\<rparr>, False)"
  "complete_body s (yielded (ToolCallComplete cs)) = (s\<lparr>returned := Some (case cs of [] \<Rightarrow> Panicked
     | c # _ \<Rightarrow> Failed (GotToolCall (fn_name (fn c))))\<rparr>, False)"
  by (simp_all add: complete_body_def yielded_def)

lemma complete_loop_plain:
  "returned s = None \<Longrightarrow> find stops evs = None \<Longrightarrow>
     fst (yield_loop complete_body evs s) =
       s\<lparr>so_far := so_far s @ replied evs, usage_seen := usage_after (usage_seen s) evs\<rparr>"
proof (induction evs arbitrary: s)
  case (Cons ev evs)
  then show ?case by (cases ev) simp_all
qed simp

lemma complete_loop_stopped:
  "returned s = None \<Longrightarrow> find stops evs = Some e \<Longrightarrow>
     returned (fst (yield_loop complete_body evs s)) = Some (case e of
          ErrorEvent x \<Rightarrow> Failed (StreamFailed x)
        | ToolCallComplete (c # _) \<Rightarrow> Failed (GotToolCall (fn_name (fn c)))
        | _ \<Rightarrow> Panicked)"
proof (induction evs arbitrary: s)
  case (Cons ev evs)
  then show ?case by (cases ev) (auto split: list.split)
qed simp

lemma complete_events:
  "complete (Inr evs) =
     (case find stops evs of
        None \<Rightarrow> Completed (replied evs) (usage_after zero_usage evs)
      | Some (ErrorEvent x) \<Rightarrow> Failed (StreamFailed x)
      | Some (ToolCallComplete (c # _)) \<Rightarrow> Failed (GotToolCall (fn_name (fn c)))
      | Some _ \<Rightarrow> Panicked)"
  using complete_loop_plain [of "\<lparr>so_far = [], usage_seen = zero_usage, returned = None\<rparr>" evs]
    complete_loop_stopped [of "\<lparr>so_far = [], usage_seen = zero_usage, returned = None\<rparr>" evs]
  by (simp add: complete_def stream_iter_def Let_def split: option.split)

text \<open>The contract: nothing follows a terminal event, and a completed-calls event has calls.\<close>

locale chat_client =
  fixes events :: "'i \<Rightarrow> event list"
  assumes terminal_last: "list_all (\<lambda>e. \<not> terminal_event e) (butlast (events i))"
    and calls_nonempty: "ToolCallComplete [] \<notin> set (events i)"
begin

lemma find_stops:
  "find stops (events i) = Some e \<Longrightarrow> (\<exists>x. e = ErrorEvent x) \<or> (\<exists>c cs. e = ToolCallComplete (c # cs))"
proof -
  assume "find stops (events i) = Some e"
  then have "stops e" "e \<in> set (events i)" by (auto simp: find_Some_iff)
  with calls_nonempty [of i] show ?thesis
    by (cases e; auto) (metis list.exhaust)
qed

lemma complete_never_panics: "complete (Inr (events i)) \<noteq> Panicked"
  using find_stops [of i] by (auto simp: complete_events split: option.split)

lemma complete_result:
  "complete (Inr (events i)) = Completed t u \<longleftrightarrow>
     (\<forall>e \<in> set (events i). \<not> stops e) \<and> t = replied (events i) \<and> u = usage_after zero_usage (events i)"
proof (cases "find stops (events i)")
  case None
  then have "\<forall>e \<in> set (events i). \<not> stops e" by (simp add: find_None_iff)
  with None show ?thesis by (auto simp: complete_events)
next
  case (Some e)
  then have "stops e" "e \<in> set (events i)" by (auto simp: find_Some_iff)
  with Some find_stops [of i e] show ?thesis by (auto simp: complete_events)
qed

end

lemma closing_terminal:
  "closing es \<Longrightarrow> list_all (\<lambda>e. \<not> terminal_event e) (butlast es) \<and> ToolCallComplete [] \<notin> set es"
  by (cases es rule: closing.cases) auto

lemma delta_event_plain: "delta_event e \<Longrightarrow> \<not> terminal_event e" "delta_event e \<Longrightarrow> e \<noteq> ToolCallComplete cs"
  by (cases e; simp)+

lemma closing_nonempty: "closing es \<Longrightarrow> es \<noteq> []"
  by auto

lemma run_stream_terminal:
  "list_all (\<lambda>e. \<not> terminal_event e) (butlast (run_stream parse c xs err)) \<and>
   ToolCallComplete [] \<notin> set (run_stream parse c xs err)"
proof -
  obtain ds es where r: "run_stream parse c xs err = ds @ es" "list_all delta_event ds" "closing es"
    by (cases rule: run_stream_cases [of parse c xs err])
      (use stream_end_closing closing.simps(1) in blast)+
  then show ?thesis
    using closing_terminal [OF r(3)] closing_nonempty [OF r(3)] delta_event_plain
    by (auto simp: butlast_append list_all_iff)
qed

interpretation openai_client: chat_client
  "\<lambda>(parse, c, xs, err). run_stream parse c xs err"
  using run_stream_terminal by unfold_locales auto

lemma plain_before:
  "list_all P pre \<Longrightarrow> list_all P (butlast es) \<Longrightarrow> list_all P (butlast (pre @ es))"
  by (auto simp: list_all_iff butlast_append dest: in_set_butlastD)

lemma script_terminal: "list_all (\<lambda>e. \<not> terminal_event e) (butlast (script_events req s))"
  unfolding script_events_def
  by (intro plain_before) (auto simp: list_all_iff split: option.split)

interpretation mock_client: chat_client "\<lambda>(req, s). script_events req s"
proof unfold_locales
  fix i :: "chat_request \<times> script"
  obtain req s where i: "i = (req, s)" by (cases i)
  show "list_all (\<lambda>e. \<not> terminal_event e) (butlast (case i of (req, s) \<Rightarrow> script_events req s))"
    by (simp add: i script_terminal)
  show "ToolCallComplete [] \<notin> set (case i of (req, s) \<Rightarrow> script_events req s)"
    by (auto simp: i script_events_def split: option.splits)
qed

text \<open>The answer of \<open>Complete\<close> to a reply without calls.\<close>

lemma reply_of_deltas:
  "replied (concat (map chunk_deltas cks)) =
     concat (map (\<lambda>ck. concat (map (\<lambda>ch. delta_content (choice_delta ch)) (choices ck))) cks)"
  "usage_after u (concat (map chunk_deltas cks)) = u" "find stops (concat (map chunk_deltas cks)) = None"
proof -
  have c: "replied (choice_deltas ch) = delta_content (choice_delta ch)" "list_all (\<lambda>e. event_usage e = None \<and> \<not> stops e) (choice_deltas ch)" for ch
    by (auto simp: choice_deltas_def)
  have app: "replied (x @ y) = replied x @ replied y" for x y by (simp add: replied_def)
  have "replied (concat (map choice_deltas chs)) = concat (map (\<lambda>ch. delta_content (choice_delta ch)) chs)" for chs
    by (induction chs) (simp_all add: app c)
  then show "replied (concat (map chunk_deltas cks)) =
     concat (map (\<lambda>ck. concat (map (\<lambda>ch. delta_content (choice_delta ch)) (choices ck))) cks)"
    by (induction cks) (simp_all add: app chunk_deltas_def)
  have all: "list_all (\<lambda>e. event_usage e = None \<and> \<not> stops e) (concat (map chunk_deltas cks))"
    using c(2) by (auto simp: chunk_deltas_def list_all_iff)
  then show "find stops (concat (map chunk_deltas cks)) = None" by (auto simp: find_None_iff list_all_iff)
  have "list_all (\<lambda>e. event_usage e = None) evs \<Longrightarrow> usage_after u evs = u" for evs
    by (induction evs) auto
  with all show "usage_after u (concat (map chunk_deltas cks)) = u" by (auto simp: list_all_iff)
qed

lemma complete_full_reply:
  assumes "list_all (\<lambda>ck. chunk_calls ck = []) cks"
  shows "complete (Inr (full_reply cks)) =
    Completed (concat (map (\<lambda>ck. concat (map (\<lambda>ch. delta_content (choice_delta ch)) (choices ck))) cks))
      (case last_some None (map chunk_usage cks) of None \<Rightarrow> zero_usage | Some u \<Rightarrow> usage_of u)"
proof -
  have calls: "concat (map chunk_calls cks) = []" using assms by (auto simp: list_all_iff)
  have app: "replied (x @ y) = replied x @ replied y" "usage_after u (x @ y) = usage_after (usage_after u x) y"
    "find P (x @ y) = (case find P x of None \<Rightarrow> find P y | Some e \<Rightarrow> Some e)" for x y u and P :: "event \<Rightarrow> bool"
    by (simp_all add: replied_def usage_after_def, induction x) auto
  obtain r where "full_reply cks = concat (map chunk_deltas cks) @ usage_events (last_some None (map chunk_usage cks)) @ [Done r]"
    unfolding full_reply_def Let_def calls by (simp add: demo_finalize(2))
  then show ?thesis
    by (auto simp: complete_events app reply_of_deltas usage_events_def split: option.split)
qed

section \<open>Properties\<close>

text \<open>C35: \<open>Complete\<close> on the OpenAI client is safe and exact. It never indexes an empty list of
  calls, and it returns a text with a usage exactly when the stream carries neither an error nor a
  completed call; the text is then all the text deltas in order and the usage the last one
  reported (zero when there was none). Otherwise it fails.\<close>
theorem complete_exact:
  "complete (Inr (run_stream parse c xs err)) \<noteq> Panicked \<and>
   (complete (Inr (run_stream parse c xs err)) = Completed t u \<longleftrightarrow>
      (\<forall>e \<in> set (run_stream parse c xs err). \<not> stops e) \<and>
      t = replied (run_stream parse c xs err) \<and> u = usage_after zero_usage (run_stream parse c xs err))"
  using openai_client.complete_never_panics [of "(parse, c, xs, err)"]
    openai_client.complete_result [of "(parse, c, xs, err)" t u] by simp

theorem complete_exact_witness:
  "complete (Inr (run_stream demo_parse demo_client [Payload ''T''] None)) = Completed ''hi'' zero_usage"
  using complete_exact [of demo_parse demo_client "[Payload ''T'']" None "''hi''" zero_usage]
  by (simp add: demo_runs)

text \<open>A consumer that records what it is given and stops after \<open>n\<close> items.\<close>

definition taking :: "nat \<Rightarrow> (client_error + event) list consumer" where
  "taking n seen item = (seen @ [item], length seen + 1 < n)"

lemma yield_loop_taking:
  "length seen < n \<Longrightarrow> yield_loop (taking n) evs seen =
     (seen @ map yielded (take (n - length seen) evs), drop (n - length seen) evs)"
proof (induction evs arbitrary: seen)
  case (Cons ev evs)
  then obtain k where k: "n - length seen = Suc k" by (metis Suc_diff_Suc)
  show ?case
  proof (cases "length seen + 1 < n")
    case True
    then have "n - length (seen @ [yielded ev]) = k" using k by simp
    with Cons.IH [of "seen @ [yielded ev]"] True show ?thesis unfolding k by (simp add: taking_def)
  next
    case False
    with Cons.prems k have "k = 0" by simp
    with False show ?thesis unfolding k by (simp add: taking_def)
  qed
qed simp

text \<open>\<open>Stream\<close> loses nothing. A consumer that stops after \<open>n\<close> items has seen exactly the
  first \<open>n\<close> events, in order, the error events on the error side, and exactly the rest is drained;
  a failed call is yielded once as its error.\<close>
theorem stream_iter_prefix:
  assumes "0 < n"
  shows "stream_iter (Inr evs) (taking n) [] = (map yielded (take n evs), drop n evs) \<and>
    stream_iter (Inl e) (taking n) [] = ([Inl e], [])"
  using assms by (simp add: stream_iter_def yield_loop_taking) (simp add: taking_def)

theorem stream_iter_prefix_witness:
  "stream_iter (Inr [TextDelta ''a'', ErrorEvent (OtherError ''x''), Done []]) (taking 2) [] =
     ([Inr (TextDelta ''a''), Inl (StreamFailed (OtherError ''x''))], [Done []])"
  using stream_iter_prefix [of 2 "[TextDelta ''a'', ErrorEvent (OtherError ''x''), Done []]" undefined]
  by (simp add: yielded_def)

text \<open>The discipline of a slot: held from its acquisition to its release, work only while it is
  held, and given back at the end.\<close>

fun slot_discipline :: "bool \<Rightarrow> pool_action list \<Rightarrow> bool" where
  "slot_discipline held [] = (\<not> held)"
| "slot_discipline held (Acquire # as) = (\<not> held \<and> slot_discipline True as)"
| "slot_discipline held (Release # as) = (held \<and> slot_discipline False as)"
| "slot_discipline held (Inner # as) = (held \<and> slot_discipline held as)"
| "slot_discipline held (Forward e # as) = (held \<and> slot_discipline held as)"
| "slot_discipline held (Close # as) = (\<not> held \<and> slot_discipline held as)"

lemma discipline_forwards: "slot_discipline True (map Forward evs @ as) = slot_discipline True as"
  by (induction evs) simp_all

definition forwarded :: "pool_action list \<Rightarrow> event list" where
  "forwarded as = concat (map (\<lambda>a. case a of Forward e \<Rightarrow> [e] | _ \<Rightarrow> []) as)"

lemma forwarded_simps [simp]:
  "forwarded [] = []" "forwarded (a # as) = (case a of Forward e \<Rightarrow> [e] | _ \<Rightarrow> []) @ forwarded as"
  "forwarded (map Forward evs) = evs" "forwarded (as @ as') = forwarded as @ forwarded as'"
  by (simp_all add: forwarded_def, induction evs) simp_all

text \<open>The pooled client holds its slot for exactly the life of the stream. Whatever the pool
  and the client answer, the slot is acquired before the inner call, every event is forwarded
  while it is held, it is released exactly once, on the error path too, and before the channel
  closes; the events are forwarded unmodified, and a refused acquisition never reaches the
  client.\<close>
theorem pooled_slot_lifetime:
  "(case pooled_chat acquire_err inner of (acts, r) \<Rightarrow>
      r = (case acquire_err of Some e \<Rightarrow> Inl e | None \<Rightarrow> inner) \<and>
      slot_discipline False acts \<and>
      (Inner \<in> set acts \<longleftrightarrow> acquire_err = None) \<and>
      forwarded acts = (case r of Inl _ \<Rightarrow> [] | Inr evs \<Rightarrow> evs))"
  by (auto simp: pooled_chat_def discipline_forwards split: option.split sum.split)

interpretation pooled_client: chat_client
  "\<lambda>(parse, c, xs, err). forwarded (fst (pooled_chat None (Inr (run_stream parse c xs err))))"
proof unfold_locales
  fix i :: "(string \<Rightarrow> json_error + json) \<times> openai_client \<times> sse_input list \<times> sse_error option"
  have "(case i of (parse, c, xs, err) \<Rightarrow> forwarded (fst (pooled_chat None (Inr (run_stream parse c xs err))))) =
      (case i of (parse, c, xs, err) \<Rightarrow> run_stream parse c xs err)"
    by (cases i) (simp add: pooled_chat_def)
  then show "list_all (\<lambda>e. \<not> terminal_event e) (butlast (case i of (parse, c, xs, err) \<Rightarrow>
      forwarded (fst (pooled_chat None (Inr (run_stream parse c xs err))))))"
    and "ToolCallComplete [] \<notin> set (case i of (parse, c, xs, err) \<Rightarrow>
      forwarded (fst (pooled_chat None (Inr (run_stream parse c xs err)))))"
    using openai_client.terminal_last openai_client.calls_nonempty by simp_all
qed

section \<open>The scripted client, replayed\<close>

fun mock_chats :: "chat_request list \<Rightarrow> mock \<Rightarrow> mock \<times> chat_result list" where
  "mock_chats [] m = (m, [])"
| "mock_chats (req # reqs) m =
     (case mock_chat req m of (m', r) \<Rightarrow> case mock_chats reqs m' of (m'', rs) \<Rightarrow> (m'', r # rs))"

text \<open>The scripts are replayed first in first out, and every request is recorded.\<close>

lemma mock_replays:
  "length reqs \<le> leftover m \<Longrightarrow>
     mock_chats reqs m =
       (m\<lparr>mock_queue := drop (length reqs) (mock_queue m), mock_calls := mock_calls m @ reqs\<rparr>,
        map2 (\<lambda>req s. Inr (script_events req s)) reqs (mock_queue m))"
proof (induction reqs arbitrary: m)
  case (Cons req reqs)
  then obtain s q where q: "mock_queue m = s # q" by (cases "mock_queue m") (auto simp: leftover_def)
  then have "mock_chat req m = (m\<lparr>mock_queue := q, mock_calls := mock_calls m @ [req]\<rparr>, Inr (script_events req s))"
    by (simp add: mock_chat_def Let_def)
  with Cons q show ?case by (simp add: leftover_def)
qed simp

lemma mock_exhausted:
  "leftover m = 0 \<Longrightarrow> snd (mock_chat req m) = Inl (EmptyQueue (Suc (mock_call_count m)))"
  by (simp add: mock_chat_def leftover_def mock_call_count_def Let_def split: list.split)

text \<open>
  What a mock bound to a test reports to it: a chat on an empty queue, and at the end the scripts
  left over.
\<close>

definition chat_report :: "chat_result \<Rightarrow> string list" where
  "chat_report r =
     (case r of
        Inl (EmptyQueue n) \<Rightarrow> [''llmtest: Chat called with empty script queue (call #'' @ itoa (int n) @ '')'']
      | _ \<Rightarrow> [])"

definition unconsumed_report :: "mock \<Rightarrow> string list" where
  "unconsumed_report m =
     (if 0 < leftover m then [''llmtest: '' @ itoa (int (leftover m)) @ '' unconsumed scripts at end of test''] else [])"

definition test_reports :: "script list \<Rightarrow> chat_request list \<Rightarrow> string list" where
  "test_reports ss reqs =
     (case mock_chats reqs (foldl (\<lambda>m s. mock_push s m) new_mock ss) of
        (m, rs) \<Rightarrow> concat (map chat_report rs) @ unconsumed_report m)"

lemma mock_pushes: "foldl (\<lambda>m s. mock_push s m) m ss = m\<lparr>mock_queue := mock_queue m @ ss\<rparr>"
  by (induction ss arbitrary: m) (simp_all add: mock_push_def)

lemma mock_chats_silent:
  "mock_chats reqs m = (m', rs) \<Longrightarrow>
     concat (map chat_report rs) @ unconsumed_report m' = [] \<longleftrightarrow> length reqs = leftover m"
proof (induction reqs arbitrary: m m' rs)
  case Nil
  then show ?case by (auto simp: unconsumed_report_def leftover_def)
next
  case (Cons req reqs)
  obtain m1 r where r: "mock_chat req m = (m1, r)" by fastforce
  obtain rs' where rs: "mock_chats reqs m1 = (m', rs')" "rs = r # rs'"
    using Cons.prems r by (auto split: prod.splits)
  show ?case
  proof (cases "mock_queue m")
    case Nil
    then show ?thesis using r rs(2) by (auto simp: mock_chat_def Let_def chat_report_def leftover_def)
  next
    case (Cons s q)
    then show ?thesis
      using r rs(2) Cons.IH [OF rs(1)] by (auto simp: mock_chat_def Let_def chat_report_def leftover_def)
  qed
qed

text \<open>A test that starts with a bound mock passes exactly if it makes one chat per script.\<close>

theorem bound_mock_counts: "test_reports ss reqs = [] \<longleftrightarrow> length reqs = length ss"
proof -
  obtain m rs where m: "mock_chats reqs (foldl (\<lambda>m s. mock_push s m) new_mock ss) = (m, rs)" by fastforce
  have "leftover (foldl (\<lambda>m s. mock_push s m) new_mock ss) = length ss"
    by (simp add: mock_pushes new_mock_def leftover_def)
  with mock_chats_silent [OF m] m show ?thesis by (simp add: test_reports_def)
qed

lemma auto_usage_positive:
  "0 < input_tokens (auto_usage req s)"
  "total_tokens (auto_usage req s) = input_tokens (auto_usage req s) + output_tokens (auto_usage req s)"
  "0 < output_tokens (auto_usage req s) \<longleftrightarrow> sc_text s \<noteq> [] \<or> sc_calls s \<noteq> []"
  by (auto simp: auto_usage_def Let_def)

end
