(* ===== verification/Pooled.thy ===== *)
theory Pooled
  imports Pool ChatClient
begin

text \<open>
  Calls of the pooled client (llm/pooled.go) over one shared pool, as many as there are: each call
  waits for its slot in the transition system of \<open>Pool\<close>, calls the inner client, forwards its
  events one by one and gives the slot back. Between any two actions of a call all the others may
  move.
\<close>

section \<open>The system\<close>

text \<open>
  Where a call of \<open>Chat\<close> is: in \<open>Acquire\<close>, in the forwarding loop with the events not yet read, about
  to release the slot with the result \<open>Chat\<close> has or will have, past the release and about to close
  the channel, or finished with its result.
\<close>

datatype phase =
    Acquiring
  | Forwarding "event list" "event list"
  | Releasing chat_result
  | Closing chat_result
  | Finished chat_result

record pooled_sys =
  slots :: psys
  phases :: "nat \<Rightarrow> phase"
  trace :: "nat \<Rightarrow> ChatClient.pool_action list"

definition acquire_failure :: "acquire_error \<Rightarrow> client_error" where
  "acquire_failure e = PoolFailed (case e of ErrQueueTimeout \<Rightarrow> ''pool: queue timeout waiting for a slot'' | CtxErr \<Rightarrow> ''context done'')"

text \<open>The channel exists, and is closed, only when the inner client gave one.\<close>

definition last_actions :: "chat_result \<Rightarrow> ChatClient.pool_action list" where
  "last_actions r = (case r of Inl _ \<Rightarrow> [] | Inr _ \<Rightarrow> [Close])"

definition move :: "nat \<Rightarrow> phase \<Rightarrow> ChatClient.pool_action list \<Rightarrow> pooled_sys \<Rightarrow> pooled_sys" where
  "move t p acts s = s\<lparr>phases := (phases s)(t := p), trace := (trace s)(t := trace s t @ acts)\<rparr>"

text \<open>
  A step of the pool in which no holder gives up its slot: a call enters, is granted its slot, gives
  up waiting, or a released slot is sent on. A refused call returns its error. Once a call holds
  its slot the inner client is called, with any answer.
\<close>

inductive pooled_step :: "pooled_sys \<Rightarrow> pooled_sys \<Rightarrow> bool" where
  pool_moves: "pool_step (slots s) p \<Longrightarrow> (\<And>t. pcs (slots s) t = Holding \<Longrightarrow> pcs p t = Holding) \<Longrightarrow>
    pooled_step s (s\<lparr>slots := p\<rparr>)"
| refused: "phases s t = Acquiring \<Longrightarrow> pcs (slots s) t = Ended (Pool.Failed e) \<Longrightarrow>
    pooled_step s (move t (Finished (Inl (acquire_failure e))) [] s)"
| inner_failed: "phases s t = Acquiring \<Longrightarrow> pcs (slots s) t = Holding \<Longrightarrow>
    pooled_step s (move t (Releasing (Inl e)) [Acquire, Inner] s)"
| inner_opened: "phases s t = Acquiring \<Longrightarrow> pcs (slots s) t = Holding \<Longrightarrow>
    pooled_step s (move t (Forwarding evs []) [Acquire, Inner] s)"
| forward: "phases s t = Forwarding (ev # evs) sent \<Longrightarrow>
    pooled_step s (move t (Forwarding evs (sent @ [ev])) [Forward ev] s)"
| drained: "phases s t = Forwarding [] sent \<Longrightarrow>
    pooled_step s (move t (Releasing (Inr sent)) [] s)"
| released: "phases s t = Releasing r \<Longrightarrow> pcs (slots s) t = Holding \<Longrightarrow> release_section (slots s) = (p, ow) \<Longrightarrow>
    pooled_step s (move t (Closing r) [Release] (s\<lparr>slots := set_pc p t (after_release ow Released)\<rparr>))"
| closed: "phases s t = Closing r \<Longrightarrow> pcs (slots s) t = Ended Released \<Longrightarrow>
    pooled_step s (move t (Finished r) (last_actions r) s)"

definition pooled_init :: "string \<Rightarrow> int \<Rightarrow> int \<Rightarrow> pooled_sys" where
  "pooled_init name sz timeout =
     \<lparr>slots = pool_init name sz timeout, phases = (\<lambda>_. Acquiring), trace = (\<lambda>_. [])\<rparr>"

inductive pooled_reachable :: "pooled_sys \<Rightarrow> bool" where
  pooled_start: "pooled_reachable (pooled_init name sz timeout)"
| pooled_more: "pooled_reachable s \<Longrightarrow> pooled_step s s' \<Longrightarrow> pooled_reachable s'"

section \<open>Lemmas\<close>

text \<open>The calls that hold a slot or the inner client's stream, and what each has done so far.\<close>

fun uses_slot :: "phase \<Rightarrow> bool" where
  "uses_slot (Forwarding _ _) = True"
| "uses_slot (Releasing _) = True"
| "uses_slot _ = False"

definition past_release :: "pc \<Rightarrow> bool" where
  "past_release p \<longleftrightarrow> p = Ended Released \<or> (\<exists>w. p = Sending w Released)"

fun phase_ok :: "pc \<Rightarrow> phase \<Rightarrow> ChatClient.pool_action list \<Rightarrow> bool" where
  "phase_ok p Acquiring acts = (acts = [] \<and> \<not> past_release p)"
| "phase_ok p (Forwarding unread sent) acts = (p = Holding \<and> acts = [Acquire, Inner] @ map Forward sent)"
| "phase_ok p (Releasing r) acts = (p = Holding \<and> pooled_chat None r = (acts @ [Release] @ last_actions r, r))"
| "phase_ok p (Closing r) acts = (past_release p \<and> pooled_chat None r = (acts @ last_actions r, r))"
| "phase_ok p (Finished r) acts =
     ((\<exists>e. p = Ended (Pool.Failed e) \<and> (acts, r) = pooled_chat (Some (acquire_failure e)) r) \<or>
      (p = Ended Released \<and> (acts, r) = pooled_chat None r))"

definition pooled_inv :: "pooled_sys \<Rightarrow> bool" where
  "pooled_inv s \<longleftrightarrow> pool_reachable (slots s) \<and> (\<forall>t. phase_ok (pcs (slots s) t) (phases s t) (trace s t))"

lemma pooled_chat_simps [simp]:
  "pooled_chat (Some e) r = ([], Inl e)"
  "pooled_chat None (Inl e) = ([Acquire, Inner, Release], Inl e)"
  "pooled_chat None (Inr evs) = ([Acquire, Inner] @ map Forward evs @ [Release, Close], Inr evs)"
  "last_actions (Inl e) = []" "last_actions (Inr evs) = [Close]"
  by (simp_all add: pooled_chat_def last_actions_def)

text \<open>How one call may move while the pool takes a step.\<close>

lemma section_pcs:
  "acquire_section s = (s', p) \<Longrightarrow> pcs s' = pcs s \<and> \<not> past_release p \<and> (\<forall>e. p \<noteq> Ended e)"
  "abandon_section s w = (s', b) \<Longrightarrow> pcs s' = pcs s"
  "release_section s = (s', ow) \<Longrightarrow> pcs s' = pcs s"
  by (auto simp: acquire_section_def abandon_section_def release_section_def past_release_def Let_def
      split: if_splits prod.splits option.splits)

lemma set_pc_pcs: "pcs (set_pc s t p) u = (if u = t then p else pcs s u)"
  by (simp add: set_pc_def)

lemma chan_pcs: "pcs (chan_send s w) = pcs s" "pcs (chan_recv s w) = pcs s"
  by (simp_all add: chan_send_def chan_recv_def)

lemma pool_step_pc:
  assumes "pool_step s s'"
  shows "pcs s t = Ended e \<Longrightarrow> pcs s' t = Ended e"
    and "past_release (pcs s t) \<Longrightarrow> past_release (pcs s' t)"
    and "\<not> past_release (pcs s t) \<Longrightarrow> pcs s t \<noteq> Holding \<Longrightarrow> \<not> past_release (pcs s' t)"
  using assms
  by (cases; auto simp: set_pc_pcs chan_pcs past_release_def after_release_def dest!: section_pcs split: if_splits option.splits)+

lemma pool_step_ok:
  assumes "pool_step p p'" "\<And>t. pcs p t = Holding \<Longrightarrow> pcs p' t = Holding" "phase_ok (pcs p t) ph acts"
  shows "phase_ok (pcs p' t) ph acts"
proof (cases ph)
  case Acquiring
  have h: "\<not> past_release Holding" by (simp add: past_release_def)
  have "\<not> past_release (pcs p' t)"
  proof (cases "pcs p t = Holding")
    case True
    with assms(2) h show ?thesis by metis
  next
    case False
    with Acquiring assms(3) pool_step_pc(3) [OF assms(1), of t] show ?thesis by simp
  qed
  with Acquiring assms(3) show ?thesis by simp
next
  case (Finished r)
  with assms(3) pool_step_pc(1) [OF assms(1), of t] show ?thesis by auto
qed (use assms(2,3) pool_step_pc(2) [OF assms(1), of t] in auto)

lemma move_simps [simp]:
  "slots (move t p acts s) = slots s" "phases (move t p acts s) u = (if u = t then p else phases s u)"
  "trace (move t p acts s) u = (if u = t then trace s t @ acts else trace s u)"
  by (simp_all add: move_def)

lemma pooled_invD: "pooled_inv s \<Longrightarrow> phases s t = p \<Longrightarrow> phase_ok (pcs (slots s) t) p (trace s t)"
  by (auto simp: pooled_inv_def)

lemma move_inv:
  "pooled_inv s \<Longrightarrow> phase_ok (pcs (slots s) t) p (trace s t @ acts) \<Longrightarrow> pooled_inv (move t p acts s)"
  by (simp add: pooled_inv_def)

lemma pooled_step_inv: "pooled_step s s' \<Longrightarrow> pooled_inv s \<Longrightarrow> pooled_inv s'"
proof (induction rule: pooled_step.induct)
  case (pool_moves s p)
  then show ?case
    using pool_step_ok [OF pool_moves(1,2)] pool_reachable.more [of "slots s" p] by (auto simp: pooled_inv_def)
next
  case (released s t r p ow)
  let ?s = "s\<lparr>slots := set_pc p t (after_release ow Released)\<rparr>"
  have "past_release (after_release ow Released)" by (simp add: past_release_def after_release_def split: option.split)
  with pooled_invD [OF released(4,1)] have "phase_ok (pcs (slots ?s) t) (Closing r) (trace ?s t @ [Release])"
    by (simp add: set_pc_pcs)
  moreover have "phase_ok (pcs (slots ?s) u) (phases ?s u) (trace ?s u)" if "u \<noteq> t" for u
    using pooled_invD [OF released(4) refl] that section_pcs(3) [OF released(3)] by (simp add: set_pc_pcs)
  moreover have "pool_reachable (slots ?s)"
    using pool_reachable.more [OF _ pool_step.release [OF released(2,3)]] released(4) by (simp add: pooled_inv_def)
  ultimately show ?case by (simp add: pooled_inv_def)
next
  case (refused s t e)
  then show ?case using pooled_invD [OF refused(3,1)] by (intro move_inv) auto
next
  case (inner_failed s t e)
  then show ?case using pooled_invD [OF inner_failed(3,1)] by (intro move_inv) auto
next
  case (inner_opened s t evs)
  then show ?case using pooled_invD [OF inner_opened(3,1)] by (intro move_inv) auto
next
  case (forward s t ev evs sent)
  then show ?case using pooled_invD [OF forward(2,1)] by (intro move_inv) auto
next
  case (drained s t sent)
  then show ?case using pooled_invD [OF drained(2,1)] by (intro move_inv) auto
next
  case (closed s t r)
  then show ?case using pooled_invD [OF closed(3,1)] by (intro move_inv) auto
qed

lemma pooled_reachable_inv: "pooled_reachable s \<Longrightarrow> pooled_inv s"
proof (induction rule: pooled_reachable.induct)
  case (pooled_start name sz timeout)
  then show ?case
    using pool_reachable.initial by (simp add: pooled_inv_def pooled_init_def past_release_def) (simp add: pool_init_def)
qed (rule pooled_step_inv)

section \<open>Properties\<close>



end
