(* ===== verification/ToolArgs.thy ===== *)
theory ToolArgs
  imports Registry Complex_Main
begin

text \<open>
  The authoring helpers of package tools: the argument extractors of tools/args.go over the
  dynamic types a decoded argument map can hold, and the schema builders of tools/schema.go. A float is the rational it denotes, an infinity or not a number.
\<close>

section \<open>Dynamic values\<close>

datatype go_float = NaN | Inf bool | Fin rat

datatype go_value =
    VStr string
  | VBool bool
  | VInt int
  | VInt64 int
  | VFloat64 go_float
  | VFloat32 go_float
  | VOther json

text \<open>\<open>ArgError\<close> and the article its message uses.\<close>

record arg_error =
  err_key :: string
  err_want :: string
  err_missing :: bool

definition article :: "string \<Rightarrow> string" where
  "article want =
     (case want of [] \<Rightarrow> ''a''
      | c # _ \<Rightarrow> if c \<in> set ''aeiou'' then ''an'' else ''a'')"

text \<open>\<open>ArgError.Error\<close>, with \<open>%q\<close> (\<open>strconv.Quote\<close>) as an argument.\<close>

definition arg_error_text :: "(string \<Rightarrow> string) \<Rightarrow> arg_error \<Rightarrow> string" where
  "arg_error_text quote e =
     (if err_missing e then ''missing required argument '' @ quote (err_key e)
      else ''argument '' @ quote (err_key e) @ '' must be '' @ article (err_want e) @ '' '' @ err_want e)"

text \<open>An error as a chain of wrappings, and \<open>IsArgError\<close> over it.\<close>

datatype tool_error = ArgErr arg_error | WrappedErr string tool_error | PlainErr string

fun is_arg_error :: "tool_error \<Rightarrow> bool" where
  "is_arg_error (ArgErr _) = True"
| "is_arg_error (WrappedErr _ e) = is_arg_error e"
| "is_arg_error (PlainErr _) = False"

section \<open>Conversions\<close>

text \<open>
  Conversion of an integer to float64: exact up to 53 bits, beyond that rounded to the nearest
  multiple of the spacing, ties to even.
\<close>

fun bit_length :: "nat \<Rightarrow> nat" where
  "bit_length n = (if n = 0 then 0 else Suc (bit_length (n div 2)))"

declare bit_length.simps [simp del]

definition round_nat53 :: "nat \<Rightarrow> nat" where
  "round_nat53 n =
     (let k = 2 ^ (bit_length n - 53); q = n div k; r = n mod k
      in if 2 * r < k \<or> (2 * r = k \<and> even q) then q * k else (q + 1) * k)"

definition float_of_int :: "int \<Rightarrow> go_float" where
  "float_of_int n = Fin (of_int (sgn n * int (round_nat53 (nat \<bar>n\<bar>))))"

definition to_float :: "go_value \<Rightarrow> go_float option" where
  "to_float v =
     (case v of VFloat64 f \<Rightarrow> Some f | VFloat32 f \<Rightarrow> Some f
      | VInt n \<Rightarrow> Some (float_of_int n) | VInt64 n \<Rightarrow> Some (float_of_int n) | _ \<Rightarrow> None)"

text \<open>
  \<open>int(n)\<close> of a float: the integer part when it fits in 64 bits, otherwise what the platform
  gives (\<open>ovf\<close>). The constant \<open>math.MaxInt64\<close> converted to float64 is \<open>2 ^ 63\<close>.
\<close>

definition int_of_float :: "int \<Rightarrow> rat \<Rightarrow> int" where
  "int_of_float ovf q =
     (let i = (if 0 \<le> q then \<lfloor>q\<rfloor> else \<lceil>q\<rceil>) in if int64_range i then i else ovf)"

definition to_int_float :: "int \<Rightarrow> go_float \<Rightarrow> int option" where
  "to_int_float ovf f =
     (case f of
        Fin q \<Rightarrow> if q \<noteq> of_int \<lfloor>q\<rfloor> \<or> 2 ^ 63 < q \<or> q < - (2 ^ 63) then None else Some (int_of_float ovf q)
      | _ \<Rightarrow> None)"

definition to_int :: "int \<Rightarrow> go_value \<Rightarrow> int option" where
  "to_int ovf v =
     (case v of VInt n \<Rightarrow> Some n | VInt64 n \<Rightarrow> Some n
      | VFloat64 f \<Rightarrow> to_int_float ovf f | VFloat32 f \<Rightarrow> to_int_float ovf f | _ \<Rightarrow> None)"

section \<open>Extractors\<close>

type_synonym args = "(string \<times> go_value) list"

definition missing_arg :: "string \<Rightarrow> string \<Rightarrow> arg_error" where
  "missing_arg key want = \<lparr>err_key = key, err_want = want, err_missing = True\<rparr>"

definition wrong_arg :: "string \<Rightarrow> string \<Rightarrow> arg_error" where
  "wrong_arg key want = \<lparr>err_key = key, err_want = want, err_missing = False\<rparr>"

definition str_arg :: "args \<Rightarrow> string \<Rightarrow> arg_error + string" where
  "str_arg as key =
     (case map_of as key of
        None \<Rightarrow> Inl (missing_arg key ''string'')
      | Some (VStr s) \<Rightarrow> Inr s
      | Some _ \<Rightarrow> Inl (wrong_arg key ''string''))"

definition float_arg :: "args \<Rightarrow> string \<Rightarrow> arg_error + go_float" where
  "float_arg as key =
     (case map_of as key of
        None \<Rightarrow> Inl (missing_arg key ''number'')
      | Some v \<Rightarrow> (case to_float v of None \<Rightarrow> Inl (wrong_arg key ''number'') | Some f \<Rightarrow> Inr f))"

definition int_arg :: "int \<Rightarrow> args \<Rightarrow> string \<Rightarrow> arg_error + int" where
  "int_arg ovf as key =
     (case map_of as key of
        None \<Rightarrow> Inl (missing_arg key ''integer'')
      | Some v \<Rightarrow> (case to_int ovf v of None \<Rightarrow> Inl (wrong_arg key ''integer'') | Some i \<Rightarrow> Inr i))"

definition bool_arg :: "args \<Rightarrow> string \<Rightarrow> arg_error + bool" where
  "bool_arg as key =
     (case map_of as key of
        None \<Rightarrow> Inl (missing_arg key ''boolean'')
      | Some (VBool b) \<Rightarrow> Inr b
      | Some _ \<Rightarrow> Inl (wrong_arg key ''boolean''))"

definition opt_arg :: "(args \<Rightarrow> string \<Rightarrow> arg_error + 'a) \<Rightarrow> args \<Rightarrow> string \<Rightarrow> 'a \<Rightarrow> arg_error + 'a" where
  "opt_arg get as key d = (if map_of as key = None then Inr d else get as key)"

definition opt_str_arg :: "args \<Rightarrow> string \<Rightarrow> string \<Rightarrow> arg_error + string" where
  "opt_str_arg = opt_arg str_arg"

definition opt_float_arg :: "args \<Rightarrow> string \<Rightarrow> go_float \<Rightarrow> arg_error + go_float" where
  "opt_float_arg = opt_arg float_arg"

definition opt_int_arg :: "int \<Rightarrow> args \<Rightarrow> string \<Rightarrow> int \<Rightarrow> arg_error + int" where
  "opt_int_arg ovf = opt_arg (int_arg ovf)"

definition opt_bool_arg :: "args \<Rightarrow> string \<Rightarrow> bool \<Rightarrow> arg_error + bool" where
  "opt_bool_arg = opt_arg bool_arg"

subsection \<open>The shared contract of the extractors\<close>

text \<open>
  An extractor fails exactly when the key is absent (and says so) or its value does not convert
  (and says which type is wanted), and the optional form only adds the default.
\<close>

locale extractor =
  fixes get :: "args \<Rightarrow> string \<Rightarrow> arg_error + 'a" and conv :: "go_value \<Rightarrow> 'a option" and want :: string
  assumes get_eq: "get as key =
    (case map_of as key of None \<Rightarrow> Inl (missing_arg key want)
     | Some v \<Rightarrow> (case conv v of None \<Rightarrow> Inl (wrong_arg key want) | Some x \<Rightarrow> Inr x))"
begin

lemma get_ok: "get as key = Inr x \<longleftrightarrow> (\<exists>v. map_of as key = Some v \<and> conv v = Some x)"
  by (auto simp: get_eq split: option.splits)

lemma get_error: "get as key = Inl e \<longleftrightarrow>
    (map_of as key = None \<and> e = missing_arg key want) \<or>
    (\<exists>v. map_of as key = Some v \<and> conv v = None \<and> e = wrong_arg key want)"
  by (auto simp: get_eq split: option.splits)

lemma opt_error: "opt_arg get as key d = Inl e \<longleftrightarrow>
    (\<exists>v. map_of as key = Some v \<and> conv v = None \<and> e = wrong_arg key want)"
  by (auto simp: opt_arg_def get_error)

lemma opt_default: "map_of as key = None \<Longrightarrow> opt_arg get as key d = Inr d"
  by (simp add: opt_arg_def)

end

definition conv_str :: "go_value \<Rightarrow> string option" where
  "conv_str v = (case v of VStr s \<Rightarrow> Some s | _ \<Rightarrow> None)"

definition conv_bool :: "go_value \<Rightarrow> bool option" where
  "conv_bool v = (case v of VBool b \<Rightarrow> Some b | _ \<Rightarrow> None)"

interpretation strs: extractor str_arg conv_str "''string''"
  by unfold_locales (simp add: str_arg_def conv_str_def split: option.split go_value.split)

interpretation bools: extractor bool_arg conv_bool "''boolean''"
  by unfold_locales (simp add: bool_arg_def conv_bool_def split: option.split go_value.split)

interpretation floats: extractor float_arg to_float "''number''"
  by unfold_locales (simp add: float_arg_def)

interpretation ints: extractor "int_arg ovf" "to_int ovf" "''integer''"
  by unfold_locales (simp add: int_arg_def)

lemma whole_rat: "(q :: rat) = of_int \<lfloor>q\<rfloor> \<longleftrightarrow> (\<exists>i. q = of_int i)"
  by (metis floor_of_int)

lemma of_int_range: "\<not> (2 ^ 63 < (of_int i :: rat)) \<and> \<not> (of_int i :: rat) < - (2 ^ 63) \<longleftrightarrow> - (2 ^ 63) \<le> i \<and> i \<le> 2 ^ 63"
proof -
  have "(2 ^ 63 < (of_int i :: rat)) = ((of_int (2 ^ 63) :: rat) < of_int i)" by simp
  moreover have "((of_int i :: rat) < - (2 ^ 63)) = ((of_int i :: rat) < of_int (- (2 ^ 63)))" by simp
  ultimately show ?thesis by (simp only: of_int_less_iff) auto
qed

lemma to_int_float_iff:
  "to_int_float ovf (Fin q) = Some n \<longleftrightarrow>
     (\<exists>i. q = of_int i \<and> - (2 ^ 63) \<le> i \<and> i \<le> 2 ^ 63 \<and> n = (if i = 2 ^ 63 then ovf else i))"
proof (cases "\<exists>i. q = of_int i")
  case True
  then obtain i where i: "q = of_int i" by blast
  have "int_of_float ovf q = (if int64_range i then i else ovf)" by (simp add: int_of_float_def i)
  then show ?thesis
    using of_int_range [of i] by (auto simp: to_int_float_def i int64_range_def)
next
  case False
  then show ?thesis using whole_rat [of q] by (auto simp: to_int_float_def)
qed

lemma to_int_float_none [simp]: "to_int_float ovf NaN = None" "to_int_float ovf (Inf b) = None"
  by (simp_all add: to_int_float_def)

section \<open>Schema builders\<close>

text \<open>\<open>Prop\<close>; a schema map is a list of members with distinct keys, sorted as it is written.\<close>

record schema_prop =
  prop_name :: string
  prop_schema :: "(string \<times> json) list"
  prop_required :: bool

definition mk_prop :: "string \<Rightarrow> string \<Rightarrow> string \<Rightarrow> schema_prop" where
  "mk_prop name typ desc =
     \<lparr>prop_name = name,
      prop_schema = (let s = map_insert ''type'' (JStr typ) [] in
        if desc \<noteq> [] then map_insert ''description'' (JStr desc) s else s),
      prop_required = False\<rparr>"

definition str_prop :: "string \<Rightarrow> string \<Rightarrow> schema_prop" where "str_prop n d = mk_prop n ''string'' d"
definition num_prop :: "string \<Rightarrow> string \<Rightarrow> schema_prop" where "num_prop n d = mk_prop n ''number'' d"
definition int_prop :: "string \<Rightarrow> string \<Rightarrow> schema_prop" where "int_prop n d = mk_prop n ''integer'' d"
definition bool_prop :: "string \<Rightarrow> string \<Rightarrow> schema_prop" where "bool_prop n d = mk_prop n ''boolean'' d"

definition enum_prop :: "string \<Rightarrow> string \<Rightarrow> string list \<Rightarrow> schema_prop" where
  "enum_prop n d vs =
     (let p = mk_prop n ''string'' d
      in p\<lparr>prop_schema := map_insert ''enum'' (JArr (map JStr vs)) (prop_schema p)\<rparr>)"

definition array_prop :: "string \<Rightarrow> string \<Rightarrow> string \<Rightarrow> schema_prop" where
  "array_prop n d item =
     (let p = mk_prop n ''array'' d
      in p\<lparr>prop_schema := map_insert ''items'' (JObj [(''type'', JStr item)]) (prop_schema p)\<rparr>)"

definition req :: "schema_prop \<Rightarrow> schema_prop" where
  "req p = p\<lparr>prop_required := True\<rparr>"

definition with_key :: "string \<Rightarrow> json \<Rightarrow> schema_prop \<Rightarrow> schema_prop" where
  "with_key k v p = p\<lparr>prop_schema := map_insert k v (prop_schema p)\<rparr>"

fun object_loop :: "schema_prop list \<Rightarrow> (string \<times> json) list \<Rightarrow> string list \<Rightarrow> (string \<times> json) list \<times> string list" where
  "object_loop [] properties required = (properties, required)"
| "object_loop (p # ps) properties required =
     object_loop ps (map_insert (prop_name p) (JObj (prop_schema p)) properties)
       (if prop_required p then required @ [prop_name p] else required)"

definition object_schema :: "schema_prop list \<Rightarrow> (string \<times> json) list" where
  "object_schema ps =
     (let (properties, required) = object_loop ps [] [];
          obj = map_insert ''properties'' (JObj properties) (map_insert ''type'' (JStr ''object'') [])
      in if required \<noteq> [] then map_insert ''required'' (JArr (map JStr required)) obj else obj)"

lemma object_loop_required:
  "snd (object_loop ps properties required) = required @ map prop_name (filter prop_required ps)"
  by (induction ps properties required rule: object_loop.induct) auto

fun last_schema :: "string \<Rightarrow> schema_prop list \<Rightarrow> json option \<Rightarrow> json option" where
  "last_schema n [] d = d"
| "last_schema n (p # ps) d = last_schema n ps (if prop_name p = n then Some (JObj (prop_schema p)) else d)"

lemma object_loop_properties:
  "map_of (fst (object_loop ps properties required)) n = last_schema n ps (map_of properties n)"
  by (induction ps properties required rule: object_loop.induct) (auto simp: map_of_map_insert)

lemma last_schema_some: "last_schema n ps d \<noteq> None \<longleftrightarrow> n \<in> prop_name ` set ps \<or> d \<noteq> None"
  by (induction ps arbitrary: d) auto

section \<open>Properties\<close>

text \<open>C38: An integer argument is taken exactly or refused. \<open>IntArg\<close> returns \<open>n\<close> only for a
  native integer \<open>n\<close> or a float denoting a whole number in range, and then that number (the one
  exception is the float \<open>2 ^ 63\<close>, which passes the range test and yields the platform's
  overflow value). An absent key gives the typed error marked missing, and any other value the
  error naming the key and the wanted type; the optional form differs only in its default for
  an absent key.\<close>
theorem int_arg_exact:
  "(int_arg ovf as key = Inr n \<longleftrightarrow>
     (\<exists>v. map_of as key = Some v \<and> (v = VInt n \<or> v = VInt64 n \<or>
        (\<exists>i. (v = VFloat64 (Fin (of_int i)) \<or> v = VFloat32 (Fin (of_int i))) \<and>
             - (2 ^ 63) \<le> i \<and> i \<le> 2 ^ 63 \<and> n = (if i = 2 ^ 63 then ovf else i))))) \<and>
   (int_arg ovf as key = Inl e \<longrightarrow>
     e = \<lparr>err_key = key, err_want = ''integer'', err_missing = (map_of as key = None)\<rparr>) \<and>
   opt_int_arg ovf as key d = (if map_of as key = None then Inr d else int_arg ovf as key)"
proof -
  have conv: "to_int ovf v = Some n \<longleftrightarrow> v = VInt n \<or> v = VInt64 n \<or>
      (\<exists>i. (v = VFloat64 (Fin (of_int i)) \<or> v = VFloat32 (Fin (of_int i))) \<and>
           - (2 ^ 63) \<le> i \<and> i \<le> 2 ^ 63 \<and> n = (if i = 2 ^ 63 then ovf else i))" for v
  proof (cases v)
    case (VFloat64 f)
    then show ?thesis by (cases f) (auto simp: to_int_def to_int_float_iff)
  next
    case (VFloat32 f)
    then show ?thesis by (cases f) (auto simp: to_int_def to_int_float_iff)
  qed (auto simp: to_int_def)
  have err: "int_arg ovf as key = Inl e \<Longrightarrow>
      e = \<lparr>err_key = key, err_want = ''integer'', err_missing = (map_of as key = None)\<rparr>"
    unfolding ints.get_error missing_arg_def wrong_arg_def by (elim disjE exE conjE) simp_all
  show ?thesis
    by (intro conjI impI err; simp only: ints.get_ok conv opt_int_arg_def opt_arg_def)
qed

theorem int_arg_exact_witness:
  "int_arg 0 [(''limit'', VFloat64 (Fin 42))] ''limit'' = Inr 42 \<and>
   int_arg 0 [(''limit'', VFloat64 (Fin (3 / 2)))] ''limit'' \<noteq> Inr 1 \<and>
   (\<exists>e. int_arg 0 [] ''limit'' = Inl e \<and> err_missing e)"
proof -
  have "(of_int i = (3 / 2 :: rat)) = False" for i
  proof -
    have "of_int i = (3 / 2 :: rat) \<Longrightarrow> of_int (2 * i) = (of_int 3 :: rat)" by simp
    then have "of_int i = (3 / 2 :: rat) \<Longrightarrow> 2 * i = 3" unfolding of_int_eq_iff .
    moreover have "2 * i \<noteq> 3" by presburger
    ultimately show ?thesis by blast
  qed
  then have no: "Fin (3 / 2) \<noteq> Fin (of_int i)" for i by (metis go_float.inject(2))
  have "int_arg 0 [(''limit'', VFloat64 (Fin (3 / 2)))] ''limit'' \<noteq> Inr 1"
    unfolding int_arg_exact [THEN conjunct1] using no by simp
  moreover have "VFloat64 (Fin 42) = VFloat64 (Fin (of_int 42))" by simp
  then have "int_arg 0 [(''limit'', VFloat64 (Fin 42))] ''limit'' = Inr 42"
    unfolding int_arg_exact [THEN conjunct1]
    by (intro exI [of _ "VFloat64 (Fin 42)"] conjI disjI2 exI [of _ 42] disjI1) simp_all
  moreover have "\<exists>e. int_arg 0 [] ''limit'' = Inl e \<and> err_missing e"
    by (auto simp: int_arg_def missing_arg_def)
  ultimately show ?thesis by blast
qed

text \<open>The range test lets the float \<open>2 ^ 63\<close> through.\<close>

lemma int_arg_out_of_range: "int_arg ovf [(k, VFloat64 (Fin (2 ^ 63)))] k = Inr ovf"
proof -
  have "(2 ^ 63 :: rat) = of_int (2 ^ 63)" by simp
  then have "to_int_float ovf (Fin (2 ^ 63)) = Some ovf"
    unfolding to_int_float_iff by (intro exI [of _ "2 ^ 63"] conjI) simp_all
  then show ?thesis by (simp only: int_arg_def to_int_def map_of_Cons_code option.case go_value.case if_True simp_thms)
qed

text \<open>The schema of a tool's parameters describes exactly the given properties: the type is
  "object", the property map has one entry per property name (the last one given under that
  name), and the required list names the required properties in the order they were passed and
  is absent when there are none, so everything required is described.\<close>
theorem object_schema_spec:
  "\<exists>properties. map_of (object_schema ps) ''type'' = Some (JStr ''object'') \<and>
     map_of (object_schema ps) ''properties'' = Some (JObj properties) \<and>
     (\<forall>n. map_of properties n = last_schema n ps None) \<and>
     dom (map_of properties) = prop_name ` set ps \<and>
     map_of (object_schema ps) ''required'' =
       (let r = map prop_name (filter prop_required ps) in if r = [] then None else Some (JArr (map JStr r))) \<and>
     set (map prop_name (filter prop_required ps)) \<subseteq> dom (map_of properties)"
proof -
  obtain properties required where l: "object_loop ps [] [] = (properties, required)"
    by (cases "object_loop ps [] []")
  then have r: "required = map prop_name (filter prop_required ps)"
    using object_loop_required [of ps "[]" "[]"] by simp
  have p: "map_of properties n = last_schema n ps None" for n
    using object_loop_properties [of ps "[]" "[]" n] l by simp
  then have d: "dom (map_of properties) = prop_name ` set ps"
    using last_schema_some [of _ ps None] by (auto simp: dom_def)
  show ?thesis
    by (rule exI [of _ properties])
       (use p d in \<open>auto simp: object_schema_def l r map_of_map_insert Let_def\<close>)
qed

end
