(* ===== verification/ToolRun.thy ===== *)
theory ToolRun
  imports ToolArgs Messages
begin

text \<open>
  What a tool returns (\<open>Result\<close> in tools/tools.go), and the adapter that makes a remote MCP tool a
  native one (tools/mcp.go). The opaque display value, the arguments, the application context and
  the error of a call are type parameters.
\<close>

section \<open>Results\<close>

record result_meta =
  paths_read :: "string list"
  paths_written :: "string list"
  cache_key :: string

record 'd tool_result =
  llm_output :: string
  full_output :: string
  display_output :: string
  display :: "'d option"
  meta :: result_meta
  result_parts :: "message_part list"

text \<open>A call returns a result and possibly an error, or panics.\<close>

datatype ('d, 'e) run_outcome = Returned "'d tool_result" "'e option" | Panicked

section \<open>The MCP adapter\<close>

text \<open>\<open>MCPTool\<close>; a nil \<open>Invoke\<close> is \<open>None\<close>.\<close>

record ('a, 'd, 'e) mcp_tool =
  mcp_name :: string
  mcp_desc :: string
  mcp_schema :: json
  mcp_invoke :: "('a \<Rightarrow> 'd tool_result \<times> 'e option) option"

text \<open>\<open>Run\<close> ignores the application context; without \<open>Invoke\<close> it panics.\<close>

definition mcp_run :: "('a, 'd, 'e) mcp_tool \<Rightarrow> 'a \<Rightarrow> 'ctx \<Rightarrow> ('d, 'e) run_outcome" where
  "mcp_run m args ctx =
     (case mcp_invoke m of None \<Rightarrow> Panicked | Some invoke \<Rightarrow> (case invoke args of (r, e) \<Rightarrow> Returned r e))"

definition mcp_as_tool :: "('a, 'd, 'e) mcp_tool \<Rightarrow> ('a \<Rightarrow> 'ctx \<Rightarrow> ('d, 'e) run_outcome) tool" where
  "mcp_as_tool m = \<lparr>tool_name = mcp_name m, tool_desc = mcp_desc m, tool_params = mcp_schema m, tool_run = mcp_run m\<rparr>"

section \<open>An adapted tool in a registry\<close>

text \<open>
  The registry cannot tell it from a native tool: it is found under its name, the model is offered
  its definition, and calling what was found calls the remote tool, whatever the context.
\<close>

lemma registered_offered: "def_of t \<in> set (snd (tool_defs (register t r)))"
proof -
  let ?ts = "AList.update (tool_name t) t (tools r)"
  have "map_of ?ts (tool_name t) = Some t" by (simp add: update_conv')
  then have "tool_name t \<in> fst ` set ?ts" by (metis map_of_SomeD image_eqI fst_conv)
  then have "def_of (the (map_of ?ts (tool_name t))) \<in> set (compute_defs ?ts)"
    unfolding compute_defs_def by (auto simp del: map_of_eq_None_iff)
  then show ?thesis by (simp add: tool_defs_def defs_fast_def defs_slow_def register_def update_conv' Let_def)
qed

theorem mcp_tool_native:
  "get_tool (register (mcp_as_tool m) r) (mcp_name m) = Some (mcp_as_tool m)"
  "\<lparr>def_type = ''function'', def_name = mcp_name m, def_desc = mcp_desc m, def_params = mcp_schema m\<rparr>
     \<in> set (snd (tool_defs (register (mcp_as_tool m) r)))"
  "tool_run (mcp_as_tool m) args ctx = tool_run (mcp_as_tool m) args ctx'"
  "tool_run (mcp_as_tool m) args ctx = Panicked \<longleftrightarrow> mcp_invoke m = None"
  using registered_offered [of "mcp_as_tool m" r]
  by (auto simp: get_register mcp_as_tool_def mcp_run_def def_of_def split: option.split prod.split)

end
