(* ===== verification/Netsec.thy ===== *)
theory Netsec
  imports Prelude
begin

text \<open>
  The egress guard of package netsec: the address classes of netsec/netsec.go over the byte
  slices of \<open>net.IP\<close>, and the resolve-and-pin dial path and the guarded client of
  netsec/dialer.go. Resolution and connecting are arguments of the model; the parts of package
  net that the code computes with (address classes, splitting and joining of host and port)
  are written out.
\<close>

unbundle bit_operations_syntax

section \<open>Addresses\<close>

text \<open>\<open>net.IP\<close> is a byte slice, \<open>None\<close> for the nil one.\<close>

type_synonym ip = "byte list option"

definition mapped_prefix :: "byte list" where
  "mapped_prefix = replicate 10 0 @ [0xff, 0xff]"

definition to4 :: "byte list \<Rightarrow> byte list option" where
  "to4 b =
     (if length b = 4 then Some b
      else if length b = 16 \<and> take 12 b = mapped_prefix then Some (drop 12 b)
      else None)"

definition ip_equal :: "byte list \<Rightarrow> byte list \<Rightarrow> bool" where
  "ip_equal x y =
     (if length x = length y then x = y
      else if length x = 4 \<and> length y = 16 then take 12 y = mapped_prefix \<and> x = drop 12 y
      else if length x = 16 \<and> length y = 4 then take 12 x = mapped_prefix \<and> drop 12 x = y
      else False)"

definition ipv4_zero :: "byte list" where "ipv4_zero = mapped_prefix @ [0, 0, 0, 0]"
definition ipv4_bcast :: "byte list" where "ipv4_bcast = mapped_prefix @ [0xff, 0xff, 0xff, 0xff]"
definition ipv6_unspecified :: "byte list" where "ipv6_unspecified = replicate 16 0"
definition ipv6_loopback :: "byte list" where "ipv6_loopback = replicate 15 0 @ [1]"

definition is_loopback :: "byte list \<Rightarrow> bool" where
  "is_loopback b = (case to4 b of Some v \<Rightarrow> v ! 0 = 127 | None \<Rightarrow> ip_equal b ipv6_loopback)"

definition is_private :: "byte list \<Rightarrow> bool" where
  "is_private b =
     (case to4 b of
        Some v \<Rightarrow> v ! 0 = 10 \<or> (v ! 0 = 172 \<and> v ! 1 AND 0xf0 = 16) \<or> (v ! 0 = 192 \<and> v ! 1 = 168)
      | None \<Rightarrow> length b = 16 \<and> b ! 0 AND 0xfe = 0xfc)"

definition is_link_local_unicast :: "byte list \<Rightarrow> bool" where
  "is_link_local_unicast b =
     (case to4 b of
        Some v \<Rightarrow> v ! 0 = 169 \<and> v ! 1 = 254
      | None \<Rightarrow> length b = 16 \<and> b ! 0 = 0xfe \<and> b ! 1 AND 0xc0 = 0x80)"

definition is_multicast :: "byte list \<Rightarrow> bool" where
  "is_multicast b =
     (case to4 b of
        Some v \<Rightarrow> v ! 0 AND 0xf0 = 0xe0
      | None \<Rightarrow> length b = 16 \<and> b ! 0 = 0xff)"

definition is_unspecified :: "byte list \<Rightarrow> bool" where
  "is_unspecified b \<longleftrightarrow> ip_equal b ipv4_zero \<or> ip_equal b ipv6_unspecified"

text \<open>\<open>IsDeniedIP\<close>\<close>

definition is_denied_ip :: "ip \<Rightarrow> bool" where
  "is_denied_ip ip =
     (case ip of
        None \<Rightarrow> True
      | Some b \<Rightarrow>
          if is_loopback b \<or> is_private b \<or> is_link_local_unicast b \<or> is_multicast b \<or> is_unspecified b
          then True
          else (case to4 b of
                  None \<Rightarrow> False
                | Some v \<Rightarrow>
                    if v ! 0 = 100 \<and> 64 \<le> v ! 1 \<and> v ! 1 \<le> 127 then True
                    else if v ! 0 = 0 then True
                    else if ip_equal v ipv4_bcast then True
                    else False))"

section \<open>The classes as address ranges\<close>

text \<open>An address as a number, and membership in a prefix of a space of \<open>w\<close> bits.\<close>

definition addr_val :: "byte list \<Rightarrow> nat" where
  "addr_val b = foldl (\<lambda>n x. n * 256 + unat x) 0 b"

definition in_prefix :: "nat \<Rightarrow> nat \<Rightarrow> byte list \<times> nat \<Rightarrow> bool" where
  "in_prefix w a p = (a div 2 ^ (w - snd p) = addr_val (fst p) div 2 ^ (w - snd p))"

definition denied_v4 :: "(byte list \<times> nat) list" where
  "denied_v4 = [([0, 0, 0, 0], 8), ([10, 0, 0, 0], 8), ([100, 64, 0, 0], 10), ([127, 0, 0, 0], 8),
     ([169, 254, 0, 0], 16), ([172, 16, 0, 0], 12), ([192, 168, 0, 0], 16), ([224, 0, 0, 0], 4),
     ([255, 255, 255, 255], 32)]"

definition denied_v6 :: "(byte list \<times> nat) list" where
  "denied_v6 = [(replicate 16 0, 128), (replicate 15 0 @ [1], 128), (0xfc # replicate 15 0, 7),
     (0xfe # 0x80 # replicate 14 0, 10), (0xff # replicate 15 0, 8)]"

lemma unat_lt_256: "unat (a :: byte) < 256"
  using unsigned_less [of a] by simp

lemma byte_masks:
  "list_all (\<lambda>n. ((of_nat n :: byte) AND 0xf0 = 16 \<longleftrightarrow> n div 16 = 1) \<and>
     ((of_nat n :: byte) AND 0xf0 = 0xe0 \<longleftrightarrow> n div 16 = 14) \<and>
     ((of_nat n :: byte) AND 0xfe = 0xfc \<longleftrightarrow> n div 2 = 126) \<and>
     ((of_nat n :: byte) AND 0xc0 = 0x80 \<longleftrightarrow> n div 64 = 2)) [0..<256]"
  by code_simp

lemma mask_iffs:
  "(a :: byte) AND 0xf0 = 16 \<longleftrightarrow> unat a div 16 = 1"
  "a AND 0xf0 = 0xe0 \<longleftrightarrow> unat a div 16 = 14"
  "a AND 0xfe = 0xfc \<longleftrightarrow> unat a div 2 = 126"
  "a AND 0xc0 = 0x80 \<longleftrightarrow> unat a div 64 = 2"
  using byte_masks unat_lt_256 [of a] unfolding list_all_iff
  by (auto dest!: bspec [where x = "unat a"])

lemma byte_eq_iff: "(a :: byte) = b \<longleftrightarrow> unat a = unat b"
  by (simp add: word_unat_eq_iff)


lemma addr_val_acc: "foldl (\<lambda>n x. n * 256 + unat (x :: byte)) n ys = n * 256 ^ length ys + addr_val ys"
proof (induction ys arbitrary: n)
  case Nil
  then show ?case by (simp add: addr_val_def)
next
  case (Cons y ys)
  from Cons [of "n * 256 + unat y"] Cons [of "unat y"] show ?case
    by (simp add: addr_val_def algebra_simps)
qed

lemma addr_val_Nil [simp]: "addr_val [] = 0"
  by (simp add: addr_val_def)

lemma addr_val_Cons: "addr_val (x # ys) = unat x * 256 ^ length ys + addr_val ys"
  using addr_val_acc [of "unat x" ys] by (simp add: addr_val_def)

lemma addr_val_append: "addr_val (xs @ ys) = addr_val xs * 256 ^ length ys + addr_val ys"
  by (induction xs) (simp_all add: addr_val_Cons algebra_simps power_add)

lemma addr_val_less: "addr_val ys < 256 ^ length ys"
proof (induction ys)
  case (Cons y ys)
  have "unat y * 256 ^ length ys + addr_val ys < (unat y + 1) * 256 ^ length ys" using Cons by simp
  also have "\<dots> \<le> 256 * 256 ^ length ys" using unat_lt_256 [of y] by (intro mult_right_mono) simp_all
  finally show ?case by (simp add: addr_val_Cons)
qed simp

lemma addr_val_prefix: "addr_val (xs @ ys) div 256 ^ length ys = addr_val xs"
  using addr_val_less [of ys] by (simp add: addr_val_append)

lemma addr_val_inj: "length xs = length ys \<Longrightarrow> addr_val xs = addr_val ys \<longleftrightarrow> xs = ys"
proof (induction xs ys rule: list_induct2)
  case (Cons x xs y ys)
  have "unat x = unat y" if "addr_val (x # xs) = addr_val (y # ys)"
  proof -
    have "addr_val ([x] @ xs) div 256 ^ length xs = addr_val ([y] @ ys) div 256 ^ length ys"
      using that Cons.hyps by simp
    then show ?thesis unfolding addr_val_prefix by (simp add: addr_val_Cons)
  qed
  with Cons show ?case by (auto simp: addr_val_Cons byte_eq_iff)
qed simp

lemma in_prefix_bytes:
  assumes "length b = length p" "k \<le> length b" "w = 8 * length b" "n = 8 * k"
  shows "in_prefix w (addr_val b) (p, n) \<longleftrightarrow> take k b = take k p"
proof -
  have pow: "(2 :: nat) ^ (w - n) = 256 ^ (length b - k)"
  proof -
    have "(2 :: nat) ^ (w - n) = 2 ^ (8 * (length b - k))" using assms by (simp add: diff_mult_distrib2)
    also have "\<dots> = 256 ^ (length b - k)" by (simp add: power_mult)
    finally show ?thesis .
  qed
  have "addr_val q div 256 ^ (length b - k) = addr_val (take k q)" if "length q = length b" for q
    using addr_val_prefix [of "take k q" "drop k q"] that by simp
  then have "in_prefix w (addr_val b) (p, n) \<longleftrightarrow> addr_val (take k b) = addr_val (take k p)"
    using assms(1) by (simp add: in_prefix_def pow)
  also have "\<dots> \<longleftrightarrow> take k b = take k p" using assms(1) by (intro addr_val_inj) simp
  finally show ?thesis .
qed

text \<open>A prefix that ends \<open>m\<close> bits before a byte boundary.\<close>

lemma in_prefix_bits:
  assumes "length b = length p" "k \<le> length b" "w = 8 * length b" "n = 8 * k - m" "m \<le> 8 * k"
  shows "in_prefix w (addr_val b) (p, n) \<longleftrightarrow> addr_val (take k b) div 2 ^ m = addr_val (take k p) div 2 ^ m"
proof -
  have "w - n = 8 * (length b - k) + m" using assms by (simp add: diff_mult_distrib2)
  then have pow: "(2 :: nat) ^ (w - n) = 256 ^ (length b - k) * 2 ^ m"
    by (simp add: power_add power_mult)
  have "addr_val q div 256 ^ (length b - k) = addr_val (take k q)" if "length q = length b" for q
    using addr_val_prefix [of "take k q" "drop k q"] that by simp
  then show ?thesis
    using assms(1) by (simp add: in_prefix_def pow div_mult2_eq)
qed

lemma two_byte_prefix:
  fixes a b :: nat
  assumes "b < 256"
  shows "(a * 256 + b) div 64 = 401 \<longleftrightarrow> a = 100 \<and> 64 \<le> b \<and> b \<le> 127"
    and "(a * 256 + b) div 16 = 2753 \<longleftrightarrow> a = 172 \<and> b div 16 = 1"
    and "(a * 256 + b) div 64 = 1018 \<longleftrightarrow> a = 254 \<and> b div 64 = 2"
proof -
  have "(a * 256 + b) div 64 = a * 4 + b div 64" "(a * 256 + b) div 16 = a * 16 + b div 16"
    using div_mult_self3 [of 64 "a * 4" b] div_mult_self3 [of 16 "a * 16" b] by (simp_all add: ac_simps)
  moreover have "b div 64 < 4" "b div 16 < 16" using assms by (simp_all add: less_mult_imp_div_less)
  moreover have "b div 64 = 1 \<longleftrightarrow> 64 \<le> b \<and> b \<le> 127"
  proof -
    have "q = 1 \<longleftrightarrow> 64 \<le> b \<and> b \<le> 127" if "q * 64 + r = b" "r < 64" for q r using that by auto
    from this [of "b div 64" "b mod 64"] show ?thesis by simp
  qed
  moreover have "x * 4 + q = 401 \<longleftrightarrow> x = 100 \<and> q = 1" "x * 4 + q = 1018 \<longleftrightarrow> x = 254 \<and> q = 2"
    if "q < 4" for x q :: nat using that by presburger+
  moreover have "x * 16 + q = 2753 \<longleftrightarrow> x = 172 \<and> q = 1" if "q < 16" for x q :: nat
    using that by presburger
  ultimately show "(a * 256 + b) div 64 = 401 \<longleftrightarrow> a = 100 \<and> 64 \<le> b \<and> b \<le> 127"
    and "(a * 256 + b) div 16 = 2753 \<longleftrightarrow> a = 172 \<and> b div 16 = 1"
    and "(a * 256 + b) div 64 = 1018 \<longleftrightarrow> a = 254 \<and> b div 64 = 2"
    by simp_all
qed

lemma denied_v4_iff:
  "list_ex (in_prefix 32 (addr_val [a, b, c, d])) denied_v4 \<longleftrightarrow>
     unat a = 0 \<or> unat a = 10 \<or> (unat a = 100 \<and> 64 \<le> unat b \<and> unat b \<le> 127) \<or> unat a = 127 \<or>
     (unat a = 169 \<and> unat b = 254) \<or> (unat a = 172 \<and> unat b div 16 = 1) \<or>
     (unat a = 192 \<and> unat b = 168) \<or> unat a div 16 = 14 \<or>
     (unat a = 255 \<and> unat b = 255 \<and> unat c = 255 \<and> unat d = 255)"
proof -
  let ?v = "[a, b, c, d]"
  have b1: "in_prefix 32 (addr_val ?v) ([p, 0, 0, 0], 8) \<longleftrightarrow> a = p" for p
    by (rule trans [OF in_prefix_bytes [where k = 1]]) simp_all
  have b2: "in_prefix 32 (addr_val ?v) ([p, q, 0, 0], 16) \<longleftrightarrow> a = p \<and> b = q" for p q
    by (rule trans [OF in_prefix_bytes [where k = 2]]) simp_all
  have b4: "in_prefix 32 (addr_val ?v) ([p, q, r, s], 32) \<longleftrightarrow> a = p \<and> b = q \<and> c = r \<and> d = s" for p q r s
    by (rule trans [OF in_prefix_bytes [where k = 4]]) simp_all
  have m1: "in_prefix 32 (addr_val ?v) ([224, 0, 0, 0], 4) \<longleftrightarrow> unat a div 16 = 14"
    by (rule trans [OF in_prefix_bits [where k = 1 and m = 4]]) (simp_all add: addr_val_Cons)
  have m2: "in_prefix 32 (addr_val ?v) ([100, 64, 0, 0], 10) \<longleftrightarrow> unat a = 100 \<and> 64 \<le> unat b \<and> unat b \<le> 127"
    by (rule trans [OF in_prefix_bits [where k = 2 and m = 6]])
      (simp_all add: addr_val_Cons two_byte_prefix(1) unat_lt_256)
  have m3: "in_prefix 32 (addr_val ?v) ([172, 16, 0, 0], 12) \<longleftrightarrow> unat a = 172 \<and> unat b div 16 = 1"
    by (rule trans [OF in_prefix_bits [where k = 2 and m = 4]])
      (simp_all add: addr_val_Cons two_byte_prefix(2) unat_lt_256)
  show ?thesis
    by (simp add: denied_v4_def b1 b2 b4 m1 m2 m3 byte_eq_iff)
qed

lemma mapped_prefix_length [simp]: "length mapped_prefix = 12"
  by (simp add: mapped_prefix_def)

lemma to4_four [simp]: "to4 [a, b, c, d] = Some [a, b, c, d]"
  by (simp add: to4_def)

lemma to4_mapped [simp]: "length v = 4 \<Longrightarrow> to4 (mapped_prefix @ v) = Some v"
  by (simp add: to4_def)

lemma four_bytes: "length v = 4 \<Longrightarrow> \<exists>a b c d. v = [a, b, c, d]"
  by (auto simp: eval_nat_numeral length_Suc_conv)

lemma to4_unmapped: "length b = 16 \<Longrightarrow> take 12 b \<noteq> mapped_prefix \<Longrightarrow> to4 b = None"
  by (simp add: to4_def)

lemma mapped_not_zero: "mapped_prefix \<noteq> replicate 12 0"
  by code_simp

lemma zero_equal:
  "ip_equal [a, b, c, d] ipv4_zero \<longleftrightarrow> a = 0 \<and> b = 0 \<and> c = 0 \<and> d = 0"
  "ip_equal [a, b, c, d] ipv4_bcast \<longleftrightarrow> a = 255 \<and> b = 255 \<and> c = 255 \<and> d = 255"
  "\<not> ip_equal [a, b, c, d] ipv6_unspecified"
  using mapped_not_zero by (simp_all add: ip_equal_def ipv4_zero_def ipv4_bcast_def ipv6_unspecified_def)

lemma denied_four:
  "is_denied_ip (Some [a, b, c, d]) \<longleftrightarrow> list_ex (in_prefix 32 (addr_val [a, b, c, d])) denied_v4"
proof -
  have "is_denied_ip (Some [a, b, c, d]) \<longleftrightarrow>
      unat a = 127 \<or> (unat a = 10 \<or> (unat a = 172 \<and> unat b div 16 = 1) \<or> (unat a = 192 \<and> unat b = 168)) \<or>
      (unat a = 169 \<and> unat b = 254) \<or> unat a div 16 = 14 \<or>
      (unat a = 0 \<and> unat b = 0 \<and> unat c = 0 \<and> unat d = 0) \<or>
      (unat a = 100 \<and> 64 \<le> unat b \<and> unat b \<le> 127) \<or> unat a = 0 \<or>
      (unat a = 255 \<and> unat b = 255 \<and> unat c = 255 \<and> unat d = 255)"
    unfolding is_denied_ip_def is_loopback_def is_private_def is_link_local_unicast_def
      is_multicast_def is_unspecified_def to4_four option.case zero_equal nth_Cons_0 One_nat_def nth_Cons_Suc
      mask_iffs
    unfolding byte_eq_iff word_le_nat_alt by (simp add: zero_equal)
  then show ?thesis unfolding denied_v4_iff by blast
qed

lemma zero_equal_mapped:
  "length v = 4 \<Longrightarrow> ip_equal (mapped_prefix @ v) ipv4_zero \<longleftrightarrow> v = [0, 0, 0, 0]"
  "length v = 4 \<Longrightarrow> \<not> ip_equal (mapped_prefix @ v) ipv6_unspecified"
  using mapped_not_zero by (simp_all add: ip_equal_def ipv4_zero_def ipv6_unspecified_def append_eq_conv_conj)

lemma denied_mapped:
  assumes "length v = 4"
  shows "is_denied_ip (Some (mapped_prefix @ v)) = is_denied_ip (Some v)"
proof -
  obtain a b c d where v: "v = [a, b, c, d]" using four_bytes [OF assms] by blast
  have "to4 (mapped_prefix @ v) = Some v" "to4 v = Some v" using assms by (simp_all add: v)
  moreover have "is_unspecified (mapped_prefix @ v) = is_unspecified v"
    using zero_equal_mapped [OF assms] by (simp add: is_unspecified_def v zero_equal)
  ultimately show ?thesis
    by (simp add: is_denied_ip_def is_loopback_def is_private_def is_link_local_unicast_def is_multicast_def)
qed

lemma denied_six:
  assumes len: "length b = 16" and un: "take 12 b \<noteq> mapped_prefix"
  shows "is_denied_ip (Some b) \<longleftrightarrow> list_ex (in_prefix 128 (addr_val b)) denied_v6"
proof -
  obtain x y r where b: "b = x # y # r" and r: "length r = 14"
    using len by (auto simp: eval_nat_numeral length_Suc_conv)
  have "b \<noteq> ipv4_zero"
  proof
    assume "b = ipv4_zero"
    then have "take 12 b = mapped_prefix" by (simp add: ipv4_zero_def)
    with un show False by simp
  qed
  then have un: "is_unspecified b \<longleftrightarrow> b = replicate 16 0"
    using len by (simp add: is_unspecified_def ip_equal_def ipv4_zero_def ipv6_unspecified_def)
  have lo: "ip_equal b ipv6_loopback \<longleftrightarrow> b = replicate 15 0 @ [1]"
    using len by (simp add: ip_equal_def ipv6_loopback_def)
  have all: "in_prefix 128 (addr_val b) (p, 128) \<longleftrightarrow> b = p" if "length p = 16" for p
    by (rule trans [OF in_prefix_bytes [where k = 16]]) (use len that in simp_all)
  have c8: "in_prefix 128 (addr_val b) (0xff # replicate 15 0, 8) \<longleftrightarrow> x = 0xff"
    by (rule trans [OF in_prefix_bytes [where k = 1]]) (use r in \<open>simp_all add: b\<close>)
  have c7: "in_prefix 128 (addr_val b) (0xfc # replicate 15 0, 7) \<longleftrightarrow> unat x div 2 = 126"
    by (rule trans [OF in_prefix_bits [where k = 1 and m = 1]]) (use r in \<open>simp_all add: b addr_val_Cons\<close>)
  have c10: "in_prefix 128 (addr_val b) (0xfe # 0x80 # replicate 14 0, 10) \<longleftrightarrow> unat x = 254 \<and> unat y div 64 = 2"
    by (rule trans [OF in_prefix_bits [where k = 2 and m = 6]])
      (use r in \<open>simp_all add: b addr_val_Cons two_byte_prefix(3) unat_lt_256\<close>)
  have "to4 b = None" using to4_unmapped [OF len assms(2)] .
  then have "is_denied_ip (Some b) \<longleftrightarrow>
      b = replicate 15 0 @ [1] \<or> unat x div 2 = 126 \<or> (unat x = 254 \<and> unat y div 64 = 2) \<or>
      x = 0xff \<or> b = replicate 16 0"
    using len by (simp add: is_denied_ip_def is_loopback_def is_private_def is_link_local_unicast_def
        is_multicast_def un lo mask_iffs byte_eq_iff [of x 254]) (simp add: b mask_iffs byte_eq_iff)
  moreover have "list_ex (in_prefix 128 (addr_val b)) denied_v6 \<longleftrightarrow>
      b = replicate 16 0 \<or> b = replicate 15 0 @ [1] \<or> unat x div 2 = 126 \<or>
      (unat x = 254 \<and> unat y div 64 = 2) \<or> x = 0xff"
    using all [of "replicate 16 0"] all [of "replicate 15 0 @ [1]"]
    by (simp only: denied_v6_def list_ex_iff list.set ball_simps bex_simps c7 c8 c10 length_replicate length_append
        list.size insert_iff empty_iff) simp
  ultimately show ?thesis by blast
qed

section \<open>Host and port\<close>

text \<open>\<open>net.SplitHostPort\<close> and \<open>net.JoinHostPort\<close>.\<close>

datatype addr_error = MissingPort | TooManyColons | MissingBracket | UnexpectedOpen | UnexpectedClose

fun last_index :: "char \<Rightarrow> string \<Rightarrow> nat option" where
  "last_index c [] = None"
| "last_index c (x # xs) =
     (case last_index c xs of Some i \<Rightarrow> Some (Suc i) | None \<Rightarrow> if x = c then Some 0 else None)"

fun first_index :: "char \<Rightarrow> string \<Rightarrow> nat option" where
  "first_index c [] = None"
| "first_index c (x # xs) = (if x = c then Some 0 else map_option Suc (first_index c xs))"

definition split_host_port :: "string \<Rightarrow> addr_error + string \<times> string" where
  "split_host_port hp =
     (case last_index (CHR '':'') hp of
        None \<Rightarrow> Inl MissingPort
      | Some i \<Rightarrow>
          let finish = (\<lambda>host j k.
                if CHR ''['' \<in> set (drop j hp) then Inl UnexpectedOpen
                else if CHR '']'' \<in> set (drop k hp) then Inl UnexpectedClose
                else Inr (host, drop (i + 1) hp))
          in if hd hp = CHR ''['' then
               (case first_index (CHR '']'') hp of
                  None \<Rightarrow> Inl MissingBracket
                | Some e \<Rightarrow>
                    if e + 1 = length hp then Inl MissingPort
                    else if e + 1 = i then finish (take (e - 1) (drop 1 hp)) 1 (e + 1)
                    else if hp ! (e + 1) = CHR '':'' then Inl TooManyColons
                    else Inl MissingPort)
             else if CHR '':'' \<in> set (take i hp) then Inl TooManyColons
             else finish (take i hp) 0 0)"

definition join_host_port :: "string \<Rightarrow> string \<Rightarrow> string" where
  "join_host_port host port =
     (if CHR '':'' \<in> set host then ''['' @ host @ '']:'' @ port else host @ '':'' @ port)"

section \<open>The dialer\<close>

text \<open>
  \<open>Dialer\<close>, a nil field being \<open>None\<close>. A resolver maps a host to its addresses or an error; a
  connection attempt gets the network, the literal target and the per-dial timeout.
\<close>

record dialer =
  dial_timeout :: int
  exempt :: "(string \<Rightarrow> bool) option"
  resolver :: "(string \<Rightarrow> string + ip list) option"
  deny :: "(ip \<Rightarrow> bool) option"

datatype dial_error =
    BadTarget addr_error
  | ResolveFailed string
  | NoAddresses
  | DeniedError string ip
  | ConnectFailed string

definition dialer_resolver :: "(string \<Rightarrow> string + ip list) \<Rightarrow> dialer \<Rightarrow> string \<Rightarrow> string + ip list" where
  "dialer_resolver dflt d = (case resolver d of None \<Rightarrow> dflt | Some r \<Rightarrow> r)"

definition dialer_deny :: "dialer \<Rightarrow> ip \<Rightarrow> bool" where
  "dialer_deny d = (case deny d of None \<Rightarrow> is_denied_ip | Some f \<Rightarrow> f)"

definition dialer_timeout :: "dialer \<Rightarrow> int" where
  "dialer_timeout d = (if 0 < dial_timeout d then dial_timeout d else 10 * 1000000000)"

definition exempted :: "dialer \<Rightarrow> string \<Rightarrow> bool" where
  "exempted d addr = (case exempt d of None \<Rightarrow> False | Some f \<Rightarrow> f addr)"

fun first_denied :: "(ip \<Rightarrow> bool) \<Rightarrow> ip list \<Rightarrow> ip option" where
  "first_denied f [] = None"
| "first_denied f (i # is) = (if f i then Some i else first_denied f is)"

text \<open>
  The dial loop, with the attempts it made: each the literal address and its port, never the
  name. \<open>connect\<close> answers with an error or a connection.
\<close>

fun dial_loop :: "(ip \<Rightarrow> string + 'conn) \<Rightarrow> ip list \<Rightarrow> dial_error \<Rightarrow> ip list \<times> (dial_error + 'conn)" where
  "dial_loop connect [] err = ([], Inl err)"
| "dial_loop connect (i # is) err =
     (case connect i of
        Inr c \<Rightarrow> ([i], Inr c)
      | Inl e \<Rightarrow> (case dial_loop connect is (ConnectFailed e) of (tried, r) \<Rightarrow> (i # tried, r)))"

definition dial_context :: "(string \<Rightarrow> string + ip list) \<Rightarrow> (string \<Rightarrow> string \<Rightarrow> int \<Rightarrow> string + 'conn) \<Rightarrow>
    (ip \<Rightarrow> string) \<Rightarrow> dialer \<Rightarrow> string \<Rightarrow> string \<Rightarrow> ip list \<times> (dial_error + 'conn)" where
  "dial_context dflt net_dial show_ip d network addr =
     (case split_host_port addr of
        Inl e \<Rightarrow> ([], Inl (BadTarget e))
      | Inr (host, port) \<Rightarrow>
          (case dialer_resolver dflt d host of
             Inl e \<Rightarrow> ([], Inl (ResolveFailed e))
           | Inr ips \<Rightarrow>
               if ips = [] then ([], Inl NoAddresses)
               else (case (if exempted d addr then None else first_denied (dialer_deny d) ips) of
                       Some i \<Rightarrow> ([], Inl (DeniedError host i))
                     | None \<Rightarrow>
                         dial_loop (\<lambda>i. net_dial network (join_host_port (show_ip i) port) (dialer_timeout d))
                           ips NoAddresses)))"

text \<open>The zero dialer of \<open>GuardedClient\<close>, its redirect check and the hops of one request.\<close>

definition zero_dialer :: dialer where
  "zero_dialer = \<lparr>dial_timeout = 0, exempt = None, resolver = None, deny = None\<rparr>"

definition check_redirect :: "'req list \<Rightarrow> bool" where
  "check_redirect via \<longleftrightarrow> \<not> 10 \<le> length via"

text \<open>
  net/http dials a target for every request and asks the check, with the requests made so far,
  before it follows a redirect. \<open>redir\<close> is the server: the target it redirects to, if any.
\<close>

fun guarded_hops :: "nat \<Rightarrow> ('req \<Rightarrow> bool) \<Rightarrow> ('req \<Rightarrow> 'req option) \<Rightarrow> 'req list \<Rightarrow> 'req \<Rightarrow> 'req list \<times> bool" where
  "guarded_hops 0 dial redir via r = (via, False)"
| "guarded_hops (Suc n) dial redir via r =
     (if \<not> dial r then (via, False)
      else case redir r of
             None \<Rightarrow> (via @ [r], True)
           | Some r' \<Rightarrow> if check_redirect (via @ [r]) then guarded_hops n dial redir (via @ [r]) r'
                        else (via @ [r], False))"

subsection \<open>Lemmas\<close>

lemma first_denied_None: "first_denied f is = None \<longleftrightarrow> list_all (\<lambda>i. \<not> f i) is"
  by (induction "is") auto

lemma first_denied_Some: "first_denied f is = Some i \<Longrightarrow> i \<in> set is \<and> f i"
  by (induction "is") (auto split: if_splits)

lemma dial_loop_tried: "set (fst (dial_loop connect is err)) \<subseteq> set is"
  by (induction connect "is" err rule: dial_loop.induct) (auto split: sum.splits prod.splits)

lemma dial_loop_prefix: "\<exists>rest. is = fst (dial_loop connect is err) @ rest"
  by (induction connect "is" err rule: dial_loop.induct) (auto split: sum.splits prod.splits)

lemma dial_loop_ok:
  "snd (dial_loop connect is err) = Inr c \<Longrightarrow> \<exists>i \<in> set is. connect i = Inr c"
  by (induction connect "is" err rule: dial_loop.induct) (auto split: sum.splits prod.splits)

lemma dial_loop_first:
  "list_all (\<lambda>j. \<not> is_ok (connect j)) before \<Longrightarrow> connect i = Inr c \<Longrightarrow>
   dial_loop connect (before @ i # after) err = (before @ [i], Inr c)"
  by (induction before arbitrary: err) (auto split: sum.splits)

lemma dial_loop_all_fail:
  "list_all (\<lambda>i. \<not> is_ok (connect i)) is \<Longrightarrow> is \<noteq> [] \<Longrightarrow>
   fst (dial_loop connect is err) = is \<and> (\<exists>e. snd (dial_loop connect is err) = Inl (ConnectFailed e))"
proof (induction "is" arbitrary: err)
  case (Cons i "is")
  then obtain e where "connect i = Inl e" by (auto split: sum.splits)
  with Cons show ?case by (cases "is") (auto split: prod.splits)
qed simp

text \<open>
  The contract of an egress predicate, proved for \<open>is_denied_ip\<close>: it fails closed on a missing
  address and does not tell an IPv4 address from its mapped form. A dial path that refuses on
  any denied address never attempts one.
\<close>

locale egress_predicate =
  fixes denied :: "ip \<Rightarrow> bool"
  assumes nil_denied: "denied None"
    and mapped_same: "length v = 4 \<Longrightarrow> denied (Some (mapped_prefix @ v)) = denied (Some v)"
begin

lemma allowed_is_present: "\<not> denied i \<Longrightarrow> \<exists>b. i = Some b"
  by (cases i) (simp_all add: nil_denied)

lemma tried_allowed:
  assumes "first_denied denied is = None" and "i \<in> set (fst (dial_loop connect is err))"
  shows "\<not> denied i \<and> (\<exists>b. i = Some b)"
proof -
  have "i \<in> set is" using assms(2) dial_loop_tried by blast
  with assms(1) have "\<not> denied i" by (auto simp: first_denied_None list_all_iff)
  with allowed_is_present show ?thesis by blast
qed

end

interpretation netsec_denied: egress_predicate is_denied_ip
  by unfold_locales (simp add: is_denied_ip_def, rule denied_mapped)

lemma last_index_append: "CHR '':'' \<notin> set port \<Longrightarrow> last_index (CHR '':'') (h @ CHR '':'' # port) = Some (length h)"
proof (induction h)
  case Nil
  have "c \<notin> set s \<Longrightarrow> last_index c s = None" for c s by (induction s) auto
  with Nil show ?case by simp
qed simp

lemma first_index_append: "c \<notin> set h \<Longrightarrow> first_index c (h @ c # r) = Some (length h)"
  by (induction h) auto

lemma split_join:
  assumes "set host \<inter> {CHR ''['', CHR '']''} = {}" and "set port \<inter> {CHR '':'', CHR ''['', CHR '']''} = {}"
  shows "split_host_port (join_host_port host port) = Inr (host, port)"
proof (cases "CHR '':'' \<in> set host")
  case False
  have "hd (host @ CHR '':'' # port) \<noteq> CHR ''[''" using assms(1) by (cases host) auto
  with False show ?thesis
    using assms last_index_append [of port host] by (simp add: join_host_port_def split_host_port_def Let_def)
next
  case True
  let ?hp = "CHR ''['' # host @ CHR '']'' # CHR '':'' # port"
  have li: "last_index (CHR '':'') ?hp = Some (length host + 2)"
    using last_index_append [of port "CHR ''['' # host @ [CHR '']'']"] assms(2) by simp
  have fi: "first_index (CHR '']'') ?hp = Some (length host + 1)"
    using first_index_append [of "CHR '']''" "CHR ''['' # host"] assms(1) by auto
  have "split_host_port ?hp = Inr (host, port)"
    using assms unfolding split_host_port_def li fi by (simp add: Let_def)
  with True show ?thesis by (simp add: join_host_port_def)
qed

lemma guarded_hops_via:
  assumes "via \<noteq> [] \<Longrightarrow> check_redirect via" and "n \<ge> 10 - length via" and "length via < 10"
  shows "length (fst (guarded_hops (Suc n) dial redir via r)) \<le> 10"
  using assms
proof (induction n arbitrary: via r)
  case 0
  then show ?case by simp
next
  case (Suc n)
  show ?case
  proof (cases "redir r")
    case None
    with Suc.prems show ?thesis by simp
  next
    case (Some r')
    have "length (fst (guarded_hops (Suc n) dial redir (via @ [r]) r')) \<le> 10" if "check_redirect (via @ [r])"
      using that Suc.prems by (intro Suc.IH) (auto simp: check_redirect_def)
    then show ?thesis using Some Suc.prems by (auto simp del: guarded_hops.simps(2) simp: guarded_hops.simps(2) [of "Suc n"])
  qed
qed

section \<open>Properties\<close>

text \<open>C4: The denylist is exactly its documented address ranges. An IPv4 address, in its
  four-byte or its IPv4-mapped form, is denied exactly when it lies in one of the nine listed
  prefixes (loopback, the private ranges, link-local, multicast, CGNAT, "this network",
  broadcast), any other 16-byte address exactly when it is unspecified, loopback, unique-local,
  link-local or multicast, and a nil address always.\<close>
theorem is_denied_ip_ranges:
  "is_denied_ip None \<and>
   (length v = 4 \<longrightarrow>
      is_denied_ip (Some v) = list_ex (in_prefix 32 (addr_val v)) denied_v4 \<and>
      is_denied_ip (Some (mapped_prefix @ v)) = list_ex (in_prefix 32 (addr_val v)) denied_v4) \<and>
   (length b = 16 \<and> take 12 b \<noteq> mapped_prefix \<longrightarrow>
      is_denied_ip (Some b) = list_ex (in_prefix 128 (addr_val b)) denied_v6)"
  using netsec_denied.nil_denied netsec_denied.mapped_same denied_six
    four_bytes [of v] denied_four by auto

theorem is_denied_ip_ranges_witness:
  "is_denied_ip (Some [169, 254, 169, 254]) \<and> is_denied_ip (Some (mapped_prefix @ [169, 254, 169, 254])) \<and>
   \<not> is_denied_ip (Some [8, 8, 8, 8])"
proof -
  have "list_ex (in_prefix 32 (addr_val [169, 254, 169, 254])) denied_v4"
    "\<not> list_ex (in_prefix 32 (addr_val [8, 8, 8, 8])) denied_v4"
    by (simp_all add: denied_v4_iff)
  then show ?thesis
    using is_denied_ip_ranges [of "[169, 254, 169, 254]" "[]"] is_denied_ip_ranges [of "[8, 8, 8, 8]" "[]"] by simp
qed


definition mixed_resolver :: "string \<Rightarrow> string + ip list" where
  "mixed_resolver h = Inr [Some [8, 8, 8, 8], Some [127, 0, 0, 1]]"



end
