(* ===== verification/Ipc.thy ===== *)
theory Ipc
  imports Prelude
begin

text \<open>
  The local-socket framing of ipc/ipc.go and the peer check of ipc/peercred_linux.go. The JSON
  codec of the envelope and the socket calls are arguments; the framing (length prefix, size
  cap, what each way of running out of input reports) is modelled on byte streams that may be
  delivered in pieces and end or fail anywhere. The codec itself is in theory \<open>Envelopes\<close>.
\<close>

section \<open>Streams\<close>

text \<open>
  A reader is the chunks its \<open>Read\<close> calls return, then end of file or an error. \<open>read_full\<close> is
  \<open>io.ReadFull\<close> for \<open>n\<close> bytes: end of file before any byte is \<open>EOF\<close>, after some but not all
  \<open>UnexpectedEOF\<close>; an empty chunk reads nothing and the loop goes on.
\<close>

datatype read_error = EOF | UnexpectedEOF | ReadFailed string

record reader =
  chunks :: "byte list list"
  ending :: "string option"

definition bytes_of :: "reader \<Rightarrow> byte list" where
  "bytes_of r = concat (chunks r)"

definition end_error :: "reader \<Rightarrow> bool \<Rightarrow> read_error" where
  "end_error r some_read = (case ending r of Some e \<Rightarrow> ReadFailed e
     | None \<Rightarrow> if some_read then UnexpectedEOF else EOF)"

fun take_bytes :: "nat \<Rightarrow> byte list list \<Rightarrow> byte list \<times> byte list list" where
  "take_bytes n [] = ([], [])"
| "take_bytes n (c # cs) =
     (if n = 0 then ([], c # cs)
      else if n < length c then (take n c, drop n c # cs)
      else (case take_bytes (n - length c) cs of (b, rest) \<Rightarrow> (c @ b, rest)))"

definition read_full :: "nat \<Rightarrow> reader \<Rightarrow> (read_error + byte list) \<times> reader" where
  "read_full n r =
     (case take_bytes n (chunks r) of (b, rest) \<Rightarrow>
        (if length b < n then Inl (end_error r (b \<noteq> [])) else Inr b, r\<lparr>chunks := rest\<rparr>))"

lemma take_bytes_spec:
  "fst (take_bytes n cs) = take n (concat cs) \<and> concat (snd (take_bytes n cs)) = drop n (concat cs)"
  by (induction n cs rule: take_bytes.induct) (auto split: prod.splits)

lemma read_full_ok:
  "n \<le> length (bytes_of r) \<Longrightarrow>
   \<exists>r'. read_full n r = (Inr (take n (bytes_of r)), r') \<and> bytes_of r' = drop n (bytes_of r) \<and> ending r' = ending r"
  using take_bytes_spec [of n "chunks r"] by (auto simp: read_full_def bytes_of_def split: prod.splits)

lemma read_full_short:
  "length (bytes_of r) < n \<Longrightarrow> fst (read_full n r) = Inl (end_error r (bytes_of r \<noteq> []))"
  using take_bytes_spec [of n "chunks r"] by (auto simp: read_full_def bytes_of_def split: prod.splits)

section \<open>Frames\<close>

definition max_message :: nat where
  "max_message = 8 * 2 ^ 20"

record envelope =
  kind :: string
  body :: "byte list"

datatype ipc_error =
    MarshalBody string string
  | MarshalEnvelope string
  | TooLarge nat
  | WriteFailed string
  | PrefixRead read_error
  | BadLength nat
  | ShortFrame read_error
  | BadEnvelope string

text \<open>\<open>Pack\<close>: \<open>marshal\<close> is \<open>json.Marshal\<close> of the body, a nil body has none.\<close>

definition pack :: "('b \<Rightarrow> string + byte list) \<Rightarrow> string \<Rightarrow> 'b option \<Rightarrow> ipc_error + envelope" where
  "pack marshal k b =
     (case b of
        None \<Rightarrow> Inr \<lparr>kind = k, body = []\<rparr>
      | Some v \<Rightarrow> (case marshal v of Inl e \<Rightarrow> Inl (MarshalBody k e) | Inr raw \<Rightarrow> Inr \<lparr>kind = k, body = raw\<rparr>))"

text \<open>\<open>binary.BigEndian\<close> on 32 bits.\<close>

definition put_u32 :: "nat \<Rightarrow> byte list" where
  "put_u32 n = [of_nat (n div 16777216), of_nat (n div 65536), of_nat (n div 256), of_nat n]"

definition get_u32 :: "byte list \<Rightarrow> nat" where
  "get_u32 b = ((unat (b ! 0) * 256 + unat (b ! 1)) * 256 + unat (b ! 2)) * 256 + unat (b ! 3)"

text \<open>
  \<open>Write\<close>: \<open>put\<close> writes to the stream (what was written, or an error with the part that was).
  The conversion to uint32 truncates; the size check makes that harmless.
\<close>

definition write_envelope :: "('e \<Rightarrow> string + byte list) \<Rightarrow>
    ('w \<Rightarrow> byte list \<Rightarrow> 'w \<times> string option) \<Rightarrow> 'w \<Rightarrow> 'e \<Rightarrow> 'w \<times> ipc_error option" where
  "write_envelope encode put w e =
     (case encode e of
        Inl x \<Rightarrow> (w, Some (MarshalEnvelope x))
      | Inr payload \<Rightarrow>
          if max_message < length payload then (w, Some (TooLarge (length payload)))
          else (case put w (put_u32 (length payload mod 2 ^ 32)) of
                  (w', Some x) \<Rightarrow> (w', Some (WriteFailed x))
                | (w', None) \<Rightarrow>
                    (case put w' payload of
                       (w'', Some x) \<Rightarrow> (w'', Some (WriteFailed x))
                     | (w'', None) \<Rightarrow> (w'', None))))"

text \<open>\<open>Read\<close>\<close>

definition read_envelope :: "(byte list \<Rightarrow> string + 'e) \<Rightarrow> reader \<Rightarrow> (ipc_error + 'e) \<times> reader" where
  "read_envelope decode r =
     (case read_full 4 r of
        (Inl e, r') \<Rightarrow> (Inl (PrefixRead e), r')
      | (Inr prefix, r') \<Rightarrow>
          (let n = get_u32 prefix in
           if n = 0 \<or> max_message < n then (Inl (BadLength n), r')
           else (case read_full n r' of
                   (Inl e, r'') \<Rightarrow> (Inl (ShortFrame e), r'')
                 | (Inr payload, r'') \<Rightarrow>
                     (case decode payload of
                        Inl x \<Rightarrow> (Inl (BadEnvelope x), r'')
                      | Inr e \<Rightarrow> (Inr e, r'')))))"

fun write_all :: "('e \<Rightarrow> string + byte list) \<Rightarrow> ('w \<Rightarrow> byte list \<Rightarrow> 'w \<times> string option) \<Rightarrow>
    'w \<Rightarrow> 'e list \<Rightarrow> 'w \<times> ipc_error option" where
  "write_all encode put w [] = (w, None)"
| "write_all encode put w (e # es) =
     (case write_envelope encode put w e of
        (w', Some x) \<Rightarrow> (w', Some x)
      | (w', None) \<Rightarrow> write_all encode put w' es)"

fun read_all :: "nat \<Rightarrow> (byte list \<Rightarrow> string + 'e) \<Rightarrow> reader \<Rightarrow> 'e list \<times> ipc_error option" where
  "read_all 0 decode r = ([], None)"
| "read_all (Suc n) decode r =
     (case read_envelope decode r of
        (Inl x, _) \<Rightarrow> ([], Some x)
      | (Inr e, r') \<Rightarrow> (case read_all n decode r' of (es, x) \<Rightarrow> (e # es, x)))"

section \<open>Peer credentials\<close>

text \<open>
  \<open>CheckPeerUID\<close>: the connection is a unix socket or not, \<open>SyscallConn\<close>, \<open>Control\<close> and the
  \<open>SO_PEERCRED\<close> lookup each may fail, and the peer's uid (32 bits) is compared with ours.
\<close>

datatype peer_error = NotUnixSocket | SyscallFailed string | CredFailed string | OtherUid int int

record peer_conn =
  is_unix :: bool
  syscall_conn :: "string option"
  control :: "string option"
  peer_cred :: "string + 32 word"

definition check_peer_uid :: "int \<Rightarrow> peer_conn \<Rightarrow> peer_error option" where
  "check_peer_uid our_uid c =
     (if \<not> is_unix c then Some NotUnixSocket
      else case syscall_conn c of Some e \<Rightarrow> Some (SyscallFailed e)
      | None \<Rightarrow> (case control c of Some e \<Rightarrow> Some (SyscallFailed e)
      | None \<Rightarrow> (case peer_cred c of Inl e \<Rightarrow> Some (CredFailed e)
      | Inr uid \<Rightarrow> if uint uid \<noteq> our_uid then Some (OtherUid (uint uid) our_uid) else None)))"

lemma check_peer_uid_accepts:
  "check_peer_uid our c = None \<longleftrightarrow>
     is_unix c \<and> syscall_conn c = None \<and> control c = None \<and> (\<exists>u. peer_cred c = Inr u \<and> uint u = our)"
  by (auto simp: check_peer_uid_def split: option.splits sum.splits)

section \<open>Round trip\<close>

lemma put_u32_length [simp]: "length (put_u32 n) = 4"
  by (simp add: put_u32_def)

lemma unat_of_nat_byte: "unat (of_nat n :: byte) = n mod 256"
  by (simp add: unat_of_nat)

lemma get_u32_four: "get_u32 [a, b, c, d] = ((unat a * 256 + unat b) * 256 + unat c) * 256 + unat d"
  by (simp add: get_u32_def)

lemma get_put_u32:
  assumes "n < 2 ^ 32"
  shows "get_u32 (put_u32 n) = n"
proof -
  define p where "p = n div 256"
  define q where "q = p div 256"
  have d: "n div 65536 = q" "n div 16777216 = q div 256" "n div 256 = p"
    by (simp_all add: p_def q_def div_mult2_eq [symmetric])
  have "n div 16777216 < 256" using assms by (intro less_mult_imp_div_less) simp
  then have "q div 256 mod 256 = q div 256" by (simp add: d)
  moreover have "q div 256 * 256 + q mod 256 = q" "q * 256 + p mod 256 = p" "p * 256 + n mod 256 = n"
    by (simp_all add: p_def q_def)
  ultimately show ?thesis
    unfolding put_u32_def get_u32_four unat_of_nat_byte d by (simp only:)
qed

lemma max_message_less: "n \<le> max_message \<Longrightarrow> n < 2 ^ 32"
  by (simp add: max_message_def)

text \<open>The bytes one payload becomes on the wire.\<close>

definition frame :: "byte list \<Rightarrow> byte list" where
  "frame p = put_u32 (length p) @ p"

definition payload_ok :: "byte list \<Rightarrow> bool" where
  "payload_ok p \<longleftrightarrow> p \<noteq> [] \<and> length p \<le> max_message"

text \<open>A writer that appends to a buffer.\<close>

definition append_put :: "byte list \<Rightarrow> byte list \<Rightarrow> byte list \<times> string option" where
  "append_put w b = (w @ b, None)"

lemma write_frame:
  assumes "encode e = Inr p" "payload_ok p"
  shows "write_envelope encode append_put w e = (w @ frame p, None)"
  using assms max_message_less [of "length p"]
  by (simp add: write_envelope_def payload_ok_def append_put_def frame_def)

lemma read_frame:
  assumes b: "bytes_of r = frame p @ rest" and ok: "payload_ok p"
  shows "\<exists>r'. read_envelope decode r =
      (case decode p of Inl x \<Rightarrow> (Inl (BadEnvelope x), r') | Inr e \<Rightarrow> (Inr e, r')) \<and>
    bytes_of r' = rest \<and> ending r' = ending r"
proof -
  have "4 \<le> length (bytes_of r)" by (simp add: b frame_def)
  from read_full_ok [OF this] obtain r1 where
    r1: "read_full 4 r = (Inr (put_u32 (length p)), r1)" "bytes_of r1 = p @ rest" "ending r1 = ending r"
    by (auto simp: b frame_def)
  have "length p \<le> length (bytes_of r1)" by (simp add: r1)
  from read_full_ok [OF this] obtain r2 where
    r2: "read_full (length p) r1 = (Inr p, r2)" "bytes_of r2 = rest" "ending r2 = ending r"
    by (auto simp: r1)
  have "get_u32 (put_u32 (length p)) = length p"
    using ok max_message_less by (intro get_put_u32) (simp add: payload_ok_def)
  then show ?thesis
    using ok r1 r2 by (intro exI [of _ r2]) (auto simp: read_envelope_def payload_ok_def Let_def split: sum.split)
qed

lemma read_end: "bytes_of r = [] \<Longrightarrow> ending r = None \<Longrightarrow> fst (read_envelope decode r) = Inl (PrefixRead EOF)"
  using read_full_short [of r 4] by (auto simp: read_envelope_def end_error_def split: prod.splits sum.splits)

subsection \<open>The interface: a self-delimiting format\<close>

text \<open>
  Whoever speaks the protocol relies on one law: reading takes exactly one frame off the front
  of the bytes, whatever follows. Then any sequence of frames is read back in order.
\<close>

locale framing =
  fixes enframe :: "'p \<Rightarrow> byte list" and read1 :: "'r \<Rightarrow> ('x + 'p) \<times> 'r" and rest_of :: "'r \<Rightarrow> byte list"
    and good :: "'p \<Rightarrow> bool" and live :: "'r \<Rightarrow> bool"
  assumes read1_frame: "live r \<Longrightarrow> good p \<Longrightarrow> rest_of r = enframe p @ rest \<Longrightarrow>
    \<exists>r'. read1 r = (Inr p, r') \<and> rest_of r' = rest \<and> live r'"
begin

fun take_frames :: "nat \<Rightarrow> 'r \<Rightarrow> 'p list \<times> 'r" where
  "take_frames 0 r = ([], r)"
| "take_frames (Suc n) r =
     (case read1 r of (Inl _, r') \<Rightarrow> ([], r')
      | (Inr p, r') \<Rightarrow> (case take_frames n r' of (ps, r'') \<Rightarrow> (p # ps, r'')))"

lemma take_frames_all:
  "live r \<Longrightarrow> list_all good ps \<Longrightarrow> rest_of r = concat (map enframe ps) @ rest \<Longrightarrow>
   \<exists>r'. take_frames (length ps) r = (ps, r') \<and> rest_of r' = rest \<and> live r'"
proof (induction ps arbitrary: r)
  case (Cons p ps)
  then obtain r1 where r1: "read1 r = (Inr p, r1)" "rest_of r1 = concat (map enframe ps) @ rest" "live r1"
    using read1_frame [of r p "concat (map enframe ps) @ rest"] by auto
  with Cons obtain r2 where "take_frames (length ps) r1 = (ps, r2)" "rest_of r2 = rest" "live r2" by auto
  with r1 show ?case by simp
qed simp

end

interpretation ipc_frames: framing frame "read_envelope Inr" bytes_of payload_ok "\<lambda>r. ending r = None"
proof
  fix r :: reader and p rest
  assume "ending r = None" "payload_ok p" "bytes_of r = frame p @ rest"
  then show "\<exists>r'. read_envelope Inr r = (Inr p, r') \<and> bytes_of r' = rest \<and> ending r' = None"
    using read_frame [of r p rest Inr] by auto
qed

text \<open>Decoding the payloads afterwards is the same as decoding each while reading.\<close>

lemma read_envelope_decode:
  "read_envelope decode r =
     (case read_envelope Inr r of
        (Inl x, r') \<Rightarrow> (Inl x, r')
      | (Inr p, r') \<Rightarrow> (case decode p of Inl x \<Rightarrow> (Inl (BadEnvelope x), r') | Inr e \<Rightarrow> (Inr e, r')))"
  by (simp add: read_envelope_def Let_def split: prod.split sum.split)

lemma read_all_frames:
  "ending r = None \<Longrightarrow> list_all (\<lambda>p. payload_ok p \<and> is_ok (decode p)) ps \<Longrightarrow>
   bytes_of r = concat (map frame ps) \<Longrightarrow>
   read_all (Suc (length ps)) decode r = (map (\<lambda>p. projr (decode p)) ps, Some (PrefixRead EOF))"
proof (induction ps arbitrary: r)
  case Nil
  then show ?case
    using read_end [of r decode] by (auto split: prod.splits sum.splits)
next
  case (Cons p ps)
  then obtain e where e: "decode p = Inr e" by (auto split: sum.splits)
  with Cons read_frame [of r p "concat (map frame ps)" decode] obtain r'
    where r': "read_envelope decode r = (Inr e, r')" "bytes_of r' = concat (map frame ps)" "ending r' = None"
    by auto
  with Cons have "read_all (Suc (length ps)) decode r' = (map (\<lambda>p. projr (decode p)) ps, Some (PrefixRead EOF))"
    by simp
  then show ?case using r' e by (simp del: read_all.simps(2) add: read_all.simps(2) [of "Suc (length ps)"])
qed

lemma write_all_frames:
  "list_all2 (\<lambda>e p. encode e = Inr p \<and> payload_ok p) es ps \<Longrightarrow>
   write_all encode append_put w es = (w @ concat (map frame ps), None)"
  by (induction es ps arbitrary: w rule: list_all2_induct) (simp_all add: write_frame)

section \<open>Properties\<close>

text \<open>What one side sends the other receives, for any codec. For a codec that decodes what it encodes into
  a payload within the cap, writing any sequence of envelopes and reading the bytes back, however
  the transport cuts them into pieces, yields the same envelopes in order and then a clean end of
  file.\<close>
theorem ipc_roundtrip:
  assumes codec: "\<And>e. e \<in> set es \<Longrightarrow> \<exists>p. encode e = Inr p \<and> payload_ok p \<and> decode p = Inr e"
    and "bytes_of r = fst (write_all encode append_put [] es)" and "ending r = None"
  shows "snd (write_all encode append_put [] es) = None \<and>
    read_all (Suc (length es)) decode r = (es, Some (PrefixRead EOF))"
proof -
  let ?ps = "map (\<lambda>e. projr (encode e)) es"
  have l: "list_all2 (\<lambda>e p. encode e = Inr p \<and> payload_ok p) es ?ps"
    unfolding list_all2_map2 list_all2_same using codec by fastforce
  have d: "decode (projr (encode e)) = Inr e" if "e \<in> set es" for e using codec [OF that] by auto
  have "list_all (\<lambda>p. payload_ok p \<and> is_ok (decode p)) ?ps"
    using l d by (auto simp: list_all_length list_all2_conv_all_nth)
  moreover have "bytes_of r = concat (map frame ?ps)"
    using write_all_frames [OF l, of "[]"] assms(2) by simp
  moreover have "map (\<lambda>p. projr (decode p)) ?ps = es" using d by (simp add: map_idI)
  ultimately show ?thesis
    using read_all_frames [of r decode ?ps] write_all_frames [OF l, of "[]"] assms(3) by simp
qed

theorem ipc_roundtrip_witness:
  "read_all 3 (Inr :: byte list \<Rightarrow> string + byte list)
     \<lparr>chunks = [[0], [0, 0, 1, 7, 0], [0, 0, 2], [8, 9]], ending = None\<rparr> =
   ([[7], [8, 9]], Some (PrefixRead EOF))"
proof -
  let ?r = "\<lparr>chunks = [[0], [0, 0, 1, 7, 0], [0, 0, 2], [8, 9]], ending = None\<rparr>"
  have ok: "payload_ok [7]" "payload_ok [8, 9]" by (simp_all add: payload_ok_def max_message_def)
  have "write_all Inr append_put [] [[7], [8, 9]] = ([] @ concat (map frame [[7], [8, 9]]), None)"
    by (rule write_all_frames) (simp add: ok)
  then have "bytes_of ?r = fst (write_all Inr append_put [] [[7], [8, 9]])"
    by (simp add: frame_def put_u32_def bytes_of_def)
  moreover have "\<exists>p. (Inr e :: string + byte list) = Inr p \<and> payload_ok p \<and> (Inr p :: string + byte list) = Inr e"
    if "e \<in> set [[7], [8, 9]]" for e using that ok by auto
  ultimately have "read_all (Suc (length [[7], [8, 9]])) (Inr :: byte list \<Rightarrow> string + byte list) ?r =
      ([[7], [8, 9]], Some (PrefixRead EOF))"
    using ipc_roundtrip [of "[[7], [8, 9]]" Inr Inr ?r] by simp
  then show ?thesis by (simp only: list.size One_nat_def add_0_right add_Suc_right numeral_3_eq_3)
qed

text \<open>A truncated frame is told apart from an orderly close. If the stream ends inside a
  frame, the read fails and says where: at a frame boundary with the verbatim end of file, inside
  the length prefix with an unexpected end, after the prefix as a short frame; it never yields an
  envelope.\<close>
theorem ipc_truncation:
  assumes "payload_ok p" and "k < length (frame p)" and "bytes_of r = take k (frame p)" and "ending r = None"
  shows "fst (read_envelope decode r) =
    (if k = 0 then Inl (PrefixRead EOF)
     else if k < 4 then Inl (PrefixRead UnexpectedEOF)
     else if k = 4 then Inl (ShortFrame EOF)
     else Inl (ShortFrame UnexpectedEOF))"
proof (cases "k < 4")
  case True
  then have "bytes_of r = take k (put_u32 (length p))" by (simp add: assms(3) frame_def)
  moreover have "take k (put_u32 (length p)) = [] \<longleftrightarrow> k = 0" by (simp add: put_u32_def)
  ultimately show ?thesis
    using True read_full_short [of r 4] assms(4)
    by (auto simp: read_envelope_def end_error_def split: prod.splits)
next
  case False
  then have b: "bytes_of r = put_u32 (length p) @ take (k - 4) p" by (simp add: assms(3) frame_def)
  have "4 \<le> length (bytes_of r)" by (simp add: b)
  from read_full_ok [OF this] obtain r1 where
    r1: "read_full 4 r = (Inr (put_u32 (length p)), r1)" "bytes_of r1 = take (k - 4) p" "ending r1 = None"
    using assms(4) by (auto simp: b)
  have "get_u32 (put_u32 (length p)) = length p"
    using assms(1) max_message_less by (intro get_put_u32) (simp add: payload_ok_def)
  moreover have "length (bytes_of r1) < length p" using assms(2) False by (simp add: r1 frame_def)
  then have "fst (read_full (length p) r1) = Inl (end_error r1 (bytes_of r1 \<noteq> []))"
    by (rule read_full_short)
  moreover have "bytes_of r1 = [] \<longleftrightarrow> k = 4" using False assms(1) by (auto simp: r1 payload_ok_def)
  ultimately show ?thesis
    using False r1 assms(1)
    by (auto simp: read_envelope_def payload_ok_def Let_def end_error_def split: prod.splits)
qed

theorem ipc_truncation_witness:
  "fst (read_envelope (Inr :: byte list \<Rightarrow> string + byte list) \<lparr>chunks = [[0, 0, 0, 2, 5]], ending = None\<rparr>) =
   Inl (ShortFrame UnexpectedEOF)"
  using ipc_truncation [of "[5, 6]" 5 "\<lparr>chunks = [[0, 0, 0, 2, 5]], ending = None\<rparr>" Inr]
  by (simp add: payload_ok_def max_message_def frame_def put_u32_def bytes_of_def)

text \<open>The cap is enforced on both sides. A payload beyond it is refused before a byte is
  written, and a prefix that announces nothing or more than the cap is refused having consumed
  just the four bytes of the prefix, so no peer can make the reader allocate more than the cap.\<close>
theorem ipc_size_cap:
  "(encode e = Inr p \<and> max_message < length p \<longrightarrow>
      write_envelope encode put w e = (w, Some (TooLarge (length p)))) \<and>
   (4 \<le> length (bytes_of r) \<and> (get_u32 (take 4 (bytes_of r)) = 0 \<or> max_message < get_u32 (take 4 (bytes_of r))) \<longrightarrow>
      (\<exists>r'. read_envelope decode r = (Inl (BadLength (get_u32 (take 4 (bytes_of r)))), r') \<and>
        bytes_of r' = drop 4 (bytes_of r)))"
  using read_full_ok [of 4 r] by (auto simp: write_envelope_def read_envelope_def Let_def)

theorem ipc_size_cap_witness:
  "fst (read_envelope (Inr :: byte list \<Rightarrow> string + byte list) \<lparr>chunks = [[255, 255, 255, 255]], ending = None\<rparr>) =
   Inl (BadLength 4294967295)"
  using ipc_size_cap [of "\<lambda>_. Inr []" "()" "[]" "\<lambda>w _. (w, None)" "()"
      "\<lparr>chunks = [[255, 255, 255, 255]], ending = None\<rparr>" Inr]
  by (auto simp: bytes_of_def get_u32_def max_message_def)

end
