(* ===== verification/JsonText.thy ===== *)
theory JsonText
  imports Json
begin

text \<open>
  The text level of Go's \<open>encoding/json\<close>: the parser behind \<open>json.Unmarshal\<close> and \<open>json.Valid\<close>
  (white space, literals, numbers, strings with their escapes and surrogate pairs, arrays and
  objects nested at most 10000 deep, nothing but white space after the value). The main
  result is that what \<open>json.Marshal\<close> writes is read back: the same tree, up to the replacement
  character put where a string is not valid UTF-8.
\<close>

section \<open>White space and literals\<close>

definition json_ws :: "char \<Rightarrow> bool" where
  "json_ws c \<longleftrightarrow> c = CHR '' '' \<or> c = CHR 9 \<or> c = CHR 10 \<or> c = CHR 13"

definition skip_json_ws :: "string \<Rightarrow> string" where
  "skip_json_ws s = dropWhile json_ws s"

lemma skip_json_ws_length: "length (skip_json_ws s) \<le> length s"
  by (simp add: skip_json_ws_def length_dropWhile_le)

lemma skip_json_ws_Cons [simp]: "\<not> json_ws c \<Longrightarrow> skip_json_ws (c # s) = c # s"
  by (simp add: skip_json_ws_def)

lemma skip_json_ws_Nil [simp]: "skip_json_ws [] = []"
  by (simp add: skip_json_ws_def)

lemma skip_json_ws_idem [simp]: "skip_json_ws (skip_json_ws s) = skip_json_ws s"
  by (simp add: skip_json_ws_def dropWhile_idem)

section \<open>Strings\<close>

definition hex_value :: "char \<Rightarrow> nat option" where
  "hex_value c =
     (let n = (of_char c :: nat) in
      if 48 \<le> n \<and> n \<le> 57 then Some (n - 48)
      else if 97 \<le> n \<and> n \<le> 102 then Some (n - 87)
      else if 65 \<le> n \<and> n \<le> 70 then Some (n - 55)
      else None)"

fun hex4 :: "string \<Rightarrow> (nat \<times> string) option" where
  "hex4 (a # b # c # d # r) =
     (case (hex_value a, hex_value b, hex_value c, hex_value d) of
        (Some w, Some x, Some y, Some z) \<Rightarrow> Some (((w * 16 + x) * 16 + y) * 16 + z, r)
      | _ \<Rightarrow> None)"
| "hex4 _ = None"

text \<open>
  The escape after a backslash: the bytes it stands for and the rest of the text. A high
  surrogate followed by the escape of a low one is one rune; any other surrogate is replaced
  (\<open>encode_rune\<close> does so).
\<close>

definition unicode_escape :: "string \<Rightarrow> (string \<times> string) option" where
  "unicode_escape s =
     (case hex4 s of None \<Rightarrow> None
      | Some (u, r) \<Rightarrow>
          if 0xD800 \<le> u \<and> u < 0xDC00 then
            (case r of
               b # v # r' \<Rightarrow>
                 if b = CHR 92 \<and> v = CHR ''u'' then
                   (case hex4 r' of None \<Rightarrow> Some (encode_rune u, r)
                    | Some (u', r'') \<Rightarrow>
                        if 0xDC00 \<le> u' \<and> u' < 0xE000
                        then Some (encode_rune ((u - 0xD800) * 1024 + (u' - 0xDC00) + 0x10000), r'')
                        else Some (encode_rune u, r))
                 else Some (encode_rune u, r)
             | _ \<Rightarrow> Some (encode_rune u, r))
          else Some (encode_rune u, r))"

fun string_escape :: "string \<Rightarrow> (string \<times> string) option" where
  "string_escape (c # r) =
     (if c = CHR 34 \<or> c = CHR 92 \<or> c = CHR ''/'' then Some ([c], r)
      else if c = CHR ''b'' then Some ([CHR 8], r)
      else if c = CHR ''f'' then Some ([CHR 12], r)
      else if c = CHR ''n'' then Some ([CHR 10], r)
      else if c = CHR ''r'' then Some ([CHR 13], r)
      else if c = CHR ''t'' then Some ([CHR 9], r)
      else if c = CHR ''u'' then unicode_escape r
      else None)"
| "string_escape [] = None"

lemma hex4_shorter: "hex4 s = Some (u, r) \<Longrightarrow> length r < length s"
  by (cases s rule: hex4.cases) (auto split: option.splits)

lemma unicode_escape_shorter: "unicode_escape s = Some (b, r) \<Longrightarrow> length r < length s"
  by (auto simp: unicode_escape_def dest!: hex4_shorter split: option.splits list.splits if_splits)

lemma string_escape_shorter: "string_escape s = Some (b, r) \<Longrightarrow> length r < length s"
  by (cases s) (auto dest: unicode_escape_shorter split: if_splits)

text \<open>The contents of a string after its opening quote, and what follows the closing one.\<close>

function string_body :: "string \<Rightarrow> (string \<times> string) option" where
  "string_body [] = None"
| "string_body (c # s) =
     (if c = CHR 34 then Some ([], s)
      else if (of_char c :: nat) < 32 then None
      else if c = CHR 92 then
        (case string_escape s of None \<Rightarrow> None
         | Some (b, r) \<Rightarrow> map_option (\<lambda>(t, r'). (b @ t, r')) (string_body r))
      else
        (case decode_rune (c # s) of (x, w) \<Rightarrow>
           map_option (\<lambda>(t, r'). (encode_rune x @ t, r')) (string_body (drop w (c # s)))))"
  by pat_completeness auto
termination
proof (relation "measure length")
  fix c s b r and p :: "string \<times> string"
  assume "string_escape s = Some p" "(b, r) = p"
  then show "(r, c # s) \<in> measure length" using string_escape_shorter [of s b r] by simp
next
  fix c s x w
  assume "(x, w) = decode_rune (c # s)"
  then have "1 \<le> w" using decode_rune_width [of "c # s"] by (metis snd_conv)
  then show "(drop w (c # s), c # s) \<in> measure length" by simp
qed simp

declare string_body.simps(2) [simp del]

lemma string_body_shorter: "string_body s = Some (t, r) \<Longrightarrow> length r < length s"
proof (induction s arbitrary: t rule: string_body.induct)
  case (2 c s)
  obtain x w where d: "decode_rune (c # s) = (x, w)" by (cases "decode_rune (c # s)")
  with decode_rune_width [of "c # s"] have w: "1 \<le> w" by simp
  consider "c = CHR 34 \<or> (of_char c :: nat) < 32" | "c = CHR 92" | "c \<noteq> CHR 34" "\<not> (of_char c :: nat) < 32" "c \<noteq> CHR 92"
    by blast
  then show ?case
  proof cases
    case 1
    with "2.prems" show ?thesis by (auto simp: string_body.simps(2) [of c s] split: if_splits)
  next
    case esc: 2
    with "2.prems" obtain b r0 t' where r0: "string_escape s = Some (b, r0)" "string_body r0 = Some (t', r)"
      by (auto simp: string_body.simps(2) [of "CHR 92" s] split: option.splits)
    with "2.IH"(1) [of "(b, r0)" b r0 t'] esc have "length r < length r0" by simp
    with string_escape_shorter [OF r0(1)] show ?thesis by simp
  next
    case 3
    with "2.prems" d obtain t' where "string_body (drop w (c # s)) = Some (t', r)"
      by (auto simp: string_body.simps(2) [of c s])
    with "2.IH"(2) [OF 3 d [symmetric]] 3 w show ?thesis by fastforce
  qed
qed simp

section \<open>Numbers\<close>

definition number_int :: "string \<Rightarrow> (string \<times> string) option" where
  "number_int s =
     (case s of [] \<Rightarrow> None
      | c # r \<Rightarrow>
          if c = CHR ''0'' then Some ([c], r)
          else if is_digit c then Some (takeWhile is_digit s, dropWhile is_digit s)
          else None)"

definition digits1 :: "string \<Rightarrow> (string \<times> string) option" where
  "digits1 s = (if takeWhile is_digit s = [] then None else Some (takeWhile is_digit s, dropWhile is_digit s))"

definition number_frac :: "string \<Rightarrow> (string \<times> string) option" where
  "number_frac s =
     (case s of c # r \<Rightarrow> if c = CHR ''.'' then map_option (apfst ((#) c)) (digits1 r) else Some ([], s)
      | [] \<Rightarrow> Some ([], s))"

definition exp_sign :: "string \<Rightarrow> string \<times> string" where
  "exp_sign s = (case s of c # r \<Rightarrow> if c = CHR ''+'' \<or> c = CHR ''-'' then ([c], r) else ([], s) | [] \<Rightarrow> ([], s))"

definition number_exp :: "string \<Rightarrow> (string \<times> string) option" where
  "number_exp s =
     (case s of c # r \<Rightarrow>
        if c = CHR ''e'' \<or> c = CHR ''E''
        then (case exp_sign r of (g, r') \<Rightarrow> map_option (apfst (\<lambda>t. c # g @ t)) (digits1 r'))
        else Some ([], s)
      | [] \<Rightarrow> Some ([], s))"

definition number_sign :: "string \<Rightarrow> string \<times> string" where
  "number_sign s = (case s of c # r \<Rightarrow> if c = CHR ''-'' then ([c], r) else ([], s) | [] \<Rightarrow> ([], s))"

definition json_number :: "string \<Rightarrow> (string \<times> string) option" where
  "json_number s =
     (case number_sign s of (g, r) \<Rightarrow>
      (case number_int r of None \<Rightarrow> None | Some (i, r1) \<Rightarrow>
       (case number_frac r1 of None \<Rightarrow> None | Some (f, r2) \<Rightarrow>
        (case number_exp r2 of None \<Rightarrow> None | Some (e, r3) \<Rightarrow> Some (g @ i @ f @ e, r3)))))"

definition valid_number :: "string \<Rightarrow> bool" where
  "valid_number s \<longleftrightarrow> json_number s = Some (s, [])"

lemmas number_part_defs = number_int_def digits1_def number_frac_def exp_sign_def number_exp_def number_sign_def

text \<open>The parts of a number split the text, and what cannot extend a number does not change it.\<close>

lemma number_parts_split:
  "number_int s = Some (a, b) \<Longrightarrow> s = a @ b \<and> a \<noteq> []"
  "digits1 s = Some (a, b) \<Longrightarrow> s = a @ b"
  "number_frac s = Some (a, b) \<Longrightarrow> s = a @ b"
  "exp_sign s = (a, b) \<Longrightarrow> s = a @ b"
  "number_exp s = Some (a, b) \<Longrightarrow> s = a @ b"
  "number_sign s = (a, b) \<Longrightarrow> s = a @ b"
proof -
  show d: "digits1 s = Some (a, b) \<Longrightarrow> s = a @ b" for s a b
    by (auto simp: digits1_def split: if_splits)
  show e: "exp_sign s = (a, b) \<Longrightarrow> s = a @ b" for s a b
    by (auto simp: exp_sign_def split: list.splits if_splits)
  show "number_int s = Some (a, b) \<Longrightarrow> s = a @ b \<and> a \<noteq> []"
    by (auto simp: number_int_def split: list.splits if_splits)
  show "number_frac s = Some (a, b) \<Longrightarrow> s = a @ b"
    by (auto simp: number_frac_def dest!: d split: list.splits if_splits)
  show "number_exp s = Some (a, b) \<Longrightarrow> s = a @ b"
    by (auto simp: number_exp_def dest!: d e split: list.splits if_splits prod.splits)
  show "number_sign s = (a, b) \<Longrightarrow> s = a @ b"
    by (auto simp: number_sign_def split: list.splits if_splits)
qed

lemma json_number_split: "json_number s = Some (t, r) \<Longrightarrow> s = t @ r \<and> t \<noteq> []"
  by (auto simp: json_number_def dest!: number_parts_split split: prod.splits option.splits)

definition ends_number :: "string \<Rightarrow> bool" where
  "ends_number s \<longleftrightarrow>
     (case s of [] \<Rightarrow> True
      | c # _ \<Rightarrow> \<not> is_digit c \<and> c \<noteq> CHR ''.'' \<and> c \<noteq> CHR ''e'' \<and> c \<noteq> CHR ''E'' \<and> c \<noteq> CHR ''+'' \<and> c \<noteq> CHR ''-'')"

lemma digits_append:
  assumes "ends_number u"
  shows "takeWhile is_digit (s @ u) = takeWhile is_digit s" "dropWhile is_digit (s @ u) = dropWhile is_digit s @ u"
proof -
  from assms have u: "takeWhile is_digit u = []" "dropWhile is_digit u = u"
    by (auto simp: ends_number_def split: list.splits)
  show "takeWhile is_digit (s @ u) = takeWhile is_digit s" by (induction s) (simp_all add: u)
  show "dropWhile is_digit (s @ u) = dropWhile is_digit s @ u" by (induction s) (simp_all add: u)
qed

lemma number_parts_append:
  assumes u: "ends_number u"
  shows "number_int s = Some (a, b) \<Longrightarrow> number_int (s @ u) = Some (a, b @ u)"
    and "digits1 s = Some (a, b) \<Longrightarrow> digits1 (s @ u) = Some (a, b @ u)"
    and "number_frac s = Some (a, b) \<Longrightarrow> number_frac (s @ u) = Some (a, b @ u)"
    and "exp_sign s = (a, b) \<Longrightarrow> exp_sign (s @ u) = (a, b @ u)"
    and "number_exp s = Some (a, b) \<Longrightarrow> number_exp (s @ u) = Some (a, b @ u)"
    and "s \<noteq> [] \<Longrightarrow> number_sign s = (a, b) \<Longrightarrow> number_sign (s @ u) = (a, b @ u)"
proof -
  note da = digits_append [OF u]
  have n: "number_frac u = Some ([], u)" "number_exp u = Some ([], u)" "exp_sign u = ([], u)"
    using u by (auto simp: number_frac_def number_exp_def exp_sign_def ends_number_def split: list.splits)
  show d: "digits1 s = Some (a, b) \<Longrightarrow> digits1 (s @ u) = Some (a, b @ u)" for s a b
    by (auto simp: digits1_def da split: if_splits)
  show e: "exp_sign s = (a, b) \<Longrightarrow> exp_sign (s @ u) = (a, b @ u)" for s a b
    using n(3) by (cases s) (auto simp: exp_sign_def split: if_splits)
  show "number_int s = Some (a, b) \<Longrightarrow> number_int (s @ u) = Some (a, b @ u)"
    using da [of s] by (auto simp: number_int_def split: list.splits if_splits)
  show "number_frac s = Some (a, b) \<Longrightarrow> number_frac (s @ u) = Some (a, b @ u)"
    using d n(1) by (cases s) (auto simp: number_frac_def split: if_splits)
  show "number_exp s = Some (a, b) \<Longrightarrow> number_exp (s @ u) = Some (a, b @ u)"
  proof (cases s)
    case (Cons c s')
    obtain g r where g: "exp_sign s' = (g, r)" by (cases "exp_sign s'")
    then have "exp_sign (s' @ u) = (g, r @ u)" by (rule e)
    moreover assume "number_exp s = Some (a, b)"
    ultimately show ?thesis using g Cons d by (auto simp: number_exp_def split: if_splits)
  qed (auto simp: n(2) number_exp_def [of "[]"])
  show "s \<noteq> [] \<Longrightarrow> number_sign s = (a, b) \<Longrightarrow> number_sign (s @ u) = (a, b @ u)"
    by (auto simp: number_sign_def split: list.splits if_splits)
qed

lemma json_number_append:
  assumes "json_number s = Some (t, r)" "ends_number u"
  shows "json_number (s @ u) = Some (t, r @ u)"
proof -
  obtain g r0 where g: "number_sign s = (g, r0)" by (cases "number_sign s")
  have "s \<noteq> []" using assms(1) json_number_split by auto
  note a = number_parts_append [OF assms(2)]
  show ?thesis
    using assms(1) a(6) [OF \<open>s \<noteq> []\<close> g]
    by (auto simp: json_number_def g a(1,3,5) split: option.splits prod.splits)
qed

text \<open>The decimal numbers Go prints are numbers of JSON.\<close>

lemma nat_dec_lead: "0 < n \<Longrightarrow> hd (nat_dec n) \<noteq> CHR ''0''"
proof (induction n rule: nat_dec.induct)
  case (1 n)
  show ?case
  proof (cases "n < 10")
    case True
    then have "of_char (digit_char n) = 48 + n" by simp
    with "1.prems" have "(of_char (digit_char n) :: nat) \<noteq> of_char (CHR ''0'')" by simp
    then have "digit_char n \<noteq> CHR ''0''" by metis
    with True show ?thesis by (simp add: nat_dec.simps [of n])
  next
    case False
    with 1 have "hd (nat_dec (n div 10)) \<noteq> CHR ''0''" by simp
    with False show ?thesis by (simp add: nat_dec.simps [of n] hd_append)
  qed
qed

lemma number_int_nat_dec: "number_int (nat_dec n) = Some (nat_dec n, [])"
proof -
  obtain c cs where eq: "nat_dec n = c # cs" by (cases "nat_dec n") auto
  have all: "list_all is_digit (c # cs)" using nat_dec_digits [of n] eq by simp
  then have tw: "takeWhile is_digit (c # cs) = c # cs" "dropWhile is_digit (c # cs) = []"
    by (simp_all add: list_all_iff takeWhile_eq_all_conv dropWhile_eq_Nil_conv)
  show ?thesis
  proof (cases "n = 0")
    case True
    then show ?thesis by (simp add: nat_dec.simps digit_chars number_int_def)
  next
    case False
    then have "c \<noteq> CHR ''0''" using nat_dec_lead [of n] eq by simp
    with all tw show ?thesis by (simp add: number_int_def eq)
  qed
qed

lemma number_sign_nat_dec: "number_sign (nat_dec n) = ([], nat_dec n)"
proof -
  obtain c cs where eq: "nat_dec n = c # cs" by (cases "nat_dec n") auto
  from nat_dec_hd [OF eq] have "c \<noteq> CHR ''-''" by auto
  then show ?thesis by (simp add: eq number_sign_def)
qed

lemma valid_number_itoa [simp]: "valid_number (itoa n)"
proof -
  have "number_sign (CHR ''-'' # s) = (''-'', s)" for s by (simp add: number_sign_def)
  moreover have "number_frac [] = Some ([], [])" "number_exp [] = Some ([], [])"
    by (simp_all add: number_frac_def number_exp_def)
  ultimately show ?thesis
    by (simp add: valid_number_def json_number_def itoa_def number_sign_nat_dec number_int_nat_dec)
qed

text \<open>The characters of a number.\<close>

definition number_char :: "char \<Rightarrow> bool" where
  "number_char c \<longleftrightarrow> is_digit c \<or> c \<in> {CHR ''-'', CHR ''+'', CHR ''.'', CHR ''e'', CHR ''E''}"

lemma digits_number_chars: "list_all number_char (takeWhile is_digit s)"
  by (auto simp: list_all_iff number_char_def dest: set_takeWhileD)

lemma number_part_chars:
  "number_sign s = (a, b) \<Longrightarrow> list_all number_char a"
  "number_int s = Some (a, b) \<Longrightarrow> list_all number_char a"
  "digits1 s = Some (a, b) \<Longrightarrow> list_all number_char a"
  "exp_sign s = (a, b) \<Longrightarrow> list_all number_char a"
  using digits_number_chars [of s]
  by (auto simp: number_sign_def number_int_def digits1_def exp_sign_def number_char_def is_digit_def
      split: list.splits if_splits)

lemma number_frac_exp_chars:
  "number_frac s = Some (a, b) \<Longrightarrow> list_all number_char a"
  "number_exp s = Some (a, b) \<Longrightarrow> list_all number_char a"
proof -
  have "number_char (CHR ''.'')" "number_char (CHR ''e'')" "number_char (CHR ''E'')" by (simp_all add: number_char_def)
  then show "number_frac s = Some (a, b) \<Longrightarrow> list_all number_char a" "number_exp s = Some (a, b) \<Longrightarrow> list_all number_char a"
    by (auto simp: number_frac_def number_exp_def dest!: number_part_chars split: list.splits if_splits prod.splits)
qed

lemma valid_number_chars: "valid_number s \<Longrightarrow> list_all number_char s"
  unfolding valid_number_def json_number_def
  by (auto split: option.splits prod.splits dest: number_part_chars number_frac_exp_chars)

section \<open>Strings written and read back\<close>

lemma hex_value_digit: "d < 16 \<Longrightarrow> hex_value (hex_digit d) = Some d"
  by (simp add: hex_value_def hex_digit_def)

lemma hex4_small: "a < 16 \<Longrightarrow> b < 16 \<Longrightarrow>
    hex4 (CHR ''0'' # CHR ''0'' # hex_digit a # hex_digit b # t) = Some (a * 16 + b, t)"
  by (simp add: hex_value_digit) (simp add: hex_value_def)

lemma string_body_escape:
  "string_body (CHR 92 # s) =
     (case string_escape s of None \<Rightarrow> None
      | Some (b, r) \<Rightarrow> map_option (\<lambda>(t, r'). (b @ t, r')) (string_body r))"
  by (simp add: string_body.simps(2))

lemma string_body_quote [simp]: "string_body (CHR 34 # s) = Some ([], s)"
  by (simp add: string_body.simps(2))

lemma string_escape_control:
  assumes "n < 128"
  shows "string_escape (CHR ''u'' # CHR ''0'' # CHR ''0'' # hex_digit (n div 16) # hex_digit (n mod 16) # t) =
    Some ([char_of n], t)"
  using assms hex4_small [of "n div 16" "n mod 16" t]
  by (simp add: unicode_escape_def encode_rune_def)

lemma string_body_ascii:
  assumes "32 \<le> (of_char c :: nat)" "(of_char c :: nat) < 128" "c \<noteq> CHR 34" "c \<noteq> CHR 92"
  shows "string_body (c # t) = map_option (\<lambda>(u, r). (c # u, r)) (string_body t)"
  using assms by (simp add: string_body.simps(2) decode_rune_ascii encode_rune_def)

lemma char_eqI: "(of_char c :: nat) = of_char d \<Longrightarrow> c = d"
  by simp

lemma string_body_json_escape:
  assumes "(of_char c :: nat) < 128"
  shows "string_body (json_escape c @ t) = map_option (\<lambda>(u, r). (c # u, r)) (string_body t)"
proof -
  define n where "n = (of_char c :: nat)"
  then have cn: "char_of n = c" by simp
  have named: "c = d \<Longrightarrow> ?thesis" if "d \<in> {CHR 34, CHR 92, CHR 8, CHR 12, CHR 10, CHR 13, CHR 9}" for d
    using that by (auto simp: string_body_escape)
  show ?thesis
  proof (cases "c \<in> {CHR 34, CHR 92, CHR 8, CHR 12, CHR 10, CHR 13, CHR 9}")
    case True
    then show ?thesis using named by blast
  next
    case False
    then have n: "n \<noteq> 8" "n \<noteq> 12" "n \<noteq> 10" "n \<noteq> 13" "n \<noteq> 9"
      using char_eqI [of c "CHR 8"] char_eqI [of c "CHR 12"] char_eqI [of c "CHR 10"] char_eqI [of c "CHR 13"]
        char_eqI [of c "CHR 9"] by (auto simp: n_def)
    show ?thesis
    proof (cases "n < 32 \<or> c = CHR ''<'' \<or> c = CHR ''>'' \<or> c = CHR ''&''")
      case True
      then have "json_escape c =
          CHR 92 # CHR ''u'' # CHR ''0'' # CHR ''0'' # hex_digit (n div 16) # [hex_digit (n mod 16)]"
        using False n by (auto simp: n_def Let_def)
      then show ?thesis
        using string_escape_control [of n t] assms by (simp add: string_body_escape n_def)
    next
      case plain: False
      then have "json_escape c = [c]" using False n by (simp add: n_def Let_def)
      then show ?thesis using plain False assms string_body_ascii [of c t] by (simp add: n_def)
    qed
  qed
qed

text \<open>One rune: whatever way it is written, it is read back as itself.\<close>

lemma string_body_json_rune:
  assumes d: "decode_rune (x # xs) = (r, w)"
  shows "string_body (json_rune (r, take w (x # xs)) @ t) =
    map_option (\<lambda>(u, v). (encode_rune r @ u, v)) (string_body t)"
proof -
  have len: "length (take w (x # xs)) = w" using decode_rune_length [OF d] by simp
  consider "r < 128" | "128 \<le> r" "invalid_rune (r, w)" | "r = 0x2028 \<or> r = 0x2029" "\<not> invalid_rune (r, w)"
    | "128 \<le> r" "\<not> invalid_rune (r, w)" "r \<noteq> 0x2028" "r \<noteq> 0x2029" by fastforce
  then show ?thesis
  proof cases
    case 1
    then show ?thesis
      using string_body_json_escape [of "char_of r" t] by (simp add: json_rune_def encode_rune_def)
  next
    case 2
    then have "r = 0xFFFD" by (simp add: invalid_rune_def)
    have "string_escape (''ufffd'' @ t) = Some (encode_rune 0xFFFD, t)"
      by (simp add: unicode_escape_def hex_value_def)
    then show ?thesis using 2 len \<open>r = 0xFFFD\<close> by (simp add: json_rune_def string_body_escape)
  next
    case 3
    then have "string_escape (''u202'' @ hex_digit (r mod 16) # t) = Some (encode_rune r, t)"
      by (auto simp: unicode_escape_def hex_value_def hex_digit_def)
    then show ?thesis using 3 len by (auto simp: json_rune_def string_body_escape)
  next
    case 4
    have e: "take w (x # xs) = encode_rune r" using encode_decode_rune [OF d _ 4(2)] by simp
    have l: "decode_rune (take w (x # xs) @ t) = (r, w)" using decode_rune_local [OF d _ 4(2)] by simp
    have "\<not> (of_char x :: nat) < 128" using d 4(1) decode_rune_ascii [of x xs] by auto
    then have "x \<noteq> CHR 34" "x \<noteq> CHR 92" "\<not> (of_char x :: nat) < 32" by auto
    moreover obtain y ys where "take w (x # xs) = x # ys" using decode_rune_width [of "x # xs"] d by (cases w) auto
    ultimately have "string_body (take w (x # xs) @ t) =
        map_option (\<lambda>(u, v). (encode_rune r @ u, v)) (string_body (drop w (take w (x # xs) @ t)))"
      using l by (simp add: string_body.simps(2))
    also have "drop w (take w (x # xs) @ t) = t" using len by simp
    finally show ?thesis using 4 len by (simp add: json_rune_def)
  qed
qed

lemma string_body_quoted: "string_body (json_quoted s @ CHR 34 # t) = Some (replace_invalid s, t)"
proof (induction s rule: utf8_split.induct)
  case 1
  then show ?case by (simp add: json_quoted_def replace_invalid_def)
next
  case (2 x xs)
  obtain r w where d: "decode_rune (x # xs) = (r, w)" by (cases "decode_rune (x # xs)")
  have "json_quoted (x # xs) = json_rune (r, take w (x # xs)) @ json_quoted (drop w (x # xs))"
    "replace_invalid (x # xs) = encode_rune r @ replace_invalid (drop w (x # xs))"
    by (simp_all add: json_quoted_def replace_invalid_def runes_def utf8_split_decode [OF d] del: utf8_split.simps)
  then show ?case using string_body_json_rune [OF d] "2.IH" [OF d [symmetric]] by simp
qed

section \<open>Values\<close>

text \<open>
  A non-empty sequence of items separated by commas, up to the closing bracket. The guard on the
  length of what is left makes the recursion a function for any item parser; an item parser
  that consumes input never meets it (\<open>sep_loop_unfold\<close>).
\<close>

type_synonym 'a text_parser = "string \<Rightarrow> ('a \<times> string) option"

function sep_loop :: "'a text_parser \<Rightarrow> char \<Rightarrow> 'a list text_parser" where
  "sep_loop item close s =
     (case item s of None \<Rightarrow> None
      | Some (v, r) \<Rightarrow>
          (case skip_json_ws r of [] \<Rightarrow> None
           | c # r' \<Rightarrow>
               if c = close then Some ([v], r')
               else if c = CHR '','' \<and> length r' < length s then map_option (apfst ((#) v)) (sep_loop item close r')
               else None))"
  by pat_completeness auto
termination
  by (relation "measure (\<lambda>(_, _, s). length s)") auto

declare sep_loop.simps [simp del]

definition member_text :: "'a text_parser \<Rightarrow> (string \<times> 'a) text_parser" where
  "member_text p s =
     (case skip_json_ws s of [] \<Rightarrow> None
      | q # s1 \<Rightarrow>
          if q = CHR 34 then
            (case string_body s1 of None \<Rightarrow> None
             | Some (k, s2) \<Rightarrow>
                 (case skip_json_ws s2 of [] \<Rightarrow> None
                  | c # s3 \<Rightarrow> if c = CHR '':'' then map_option (apfst (Pair k)) (p s3) else None))
          else None)"

definition bracketed :: "'a text_parser \<Rightarrow> char \<Rightarrow> 'a list text_parser" where
  "bracketed item close s =
     (case skip_json_ws s of [] \<Rightarrow> None
      | c # r \<Rightarrow> if c = close then Some ([], r) else sep_loop item close s)"

text \<open>One value; \<open>inner\<close> parses the values inside it, and is absent at the deepest level allowed.\<close>

definition parse_value :: "json text_parser option \<Rightarrow> json text_parser" where
  "parse_value inner s =
     (case skip_json_ws s of [] \<Rightarrow> None
      | c # r \<Rightarrow>
          if c = CHR 34 then map_option (apfst JStr) (string_body r)
          else if c = CHR ''['' then
            (case inner of None \<Rightarrow> None | Some p \<Rightarrow> map_option (apfst JArr) (bracketed p (CHR '']'') r))
          else if c = CHR ''{'' then
            (case inner of None \<Rightarrow> None | Some p \<Rightarrow> map_option (apfst JObj) (bracketed (member_text p) (CHR ''}'') r))
          else if c = CHR ''n'' then map_option (Pair JNull) (strip_prefix ''ull'' r)
          else if c = CHR ''t'' then map_option (Pair (JBool True)) (strip_prefix ''rue'' r)
          else if c = CHR ''f'' then map_option (Pair (JBool False)) (strip_prefix ''alse'' r)
          else map_option (apfst JNum) (json_number (c # r)))"

fun nested :: "nat \<Rightarrow> json text_parser" where
  "nested 0 s = parse_value None s"
| "nested (Suc d) s = parse_value (Some (nested d)) s"

definition max_nesting :: nat where
  "max_nesting = 10000"

definition json_parse :: "string \<Rightarrow> json_error + json" where
  "json_parse s =
     (case nested max_nesting s of
        Some (v, r) \<Rightarrow> if skip_json_ws r = [] then Inr v else Inl SyntaxError
      | None \<Rightarrow> Inl SyntaxError)"

definition json_valid :: "string \<Rightarrow> bool" where
  "json_valid s \<longleftrightarrow> is_ok (json_parse s)"

lemma nested_numeral [simp]: "nested (numeral k) s = parse_value (Some (nested (pred_numeral k))) s"
  by (simp add: numeral_eq_Suc)

section \<open>Parsers consume their input\<close>

definition consumes :: "'a text_parser \<Rightarrow> bool" where
  "consumes p \<longleftrightarrow> (\<forall>s v r. p s = Some (v, r) \<longrightarrow> length r < length s)"

lemma consumesD: "consumes p \<Longrightarrow> p s = Some (v, r) \<Longrightarrow> length r < length s"
  by (auto simp: consumes_def)

lemma skip_json_ws_Cons_length: "skip_json_ws s = c # r \<Longrightarrow> length r < length s"
  using skip_json_ws_length [of s] by simp

lemma sep_loop_unfold:
  assumes "consumes item"
  shows "sep_loop item close s =
     (case item s of None \<Rightarrow> None
      | Some (v, r) \<Rightarrow>
          (case skip_json_ws r of [] \<Rightarrow> None
           | c # r' \<Rightarrow>
               if c = close then Some ([v], r')
               else if c = CHR '','' then map_option (apfst ((#) v)) (sep_loop item close r')
               else None))"
proof -
  have "length r' < length s" if "item s = Some (v, r)" "skip_json_ws r = c # r'" for v r c r'
    using consumesD [OF assms that(1)] skip_json_ws_Cons_length [OF that(2)] by simp
  then show ?thesis
    by (subst sep_loop.simps) (auto split: option.splits list.splits)
qed

lemma sep_loop_consumes:
  assumes "consumes item"
  shows "consumes (sep_loop item close)"
proof -
  have "length r < length s" if "sep_loop item close s = Some (v, r)" for s v r
    using that
  proof (induction s arbitrary: v rule: measure_induct_rule [of length])
    case (less s)
    then obtain x r0 c r' where x: "item s = Some (x, r0)" and c: "skip_json_ws r0 = c # r'"
      by (subst (asm) sep_loop_unfold [OF assms]) (auto split: option.splits list.splits)
    have l: "length r' < length s" using consumesD [OF assms x] skip_json_ws_Cons_length [OF c] by simp
    have "r = r' \<or> (\<exists>v'. sep_loop item close r' = Some (v', r))"
      using less.prems x c by (subst (asm) sep_loop_unfold [OF assms]) (auto split: if_splits)
    with less.IH [OF l] l show ?case by fastforce
  qed
  then show ?thesis by (auto simp: consumes_def)
qed

lemma bracketed_consumes:
  assumes "consumes item"
  shows "consumes (bracketed item close)"
proof -
  have "length r < length s" if b: "bracketed item close s = Some (v, r)" for s v r
  proof -
    from b obtain c t where c: "skip_json_ws s = c # t" by (auto simp: bracketed_def split: list.splits)
    with b have "r = t \<or> sep_loop item close s = Some (v, r)" by (auto simp: bracketed_def split: if_splits)
    then show ?thesis using skip_json_ws_Cons_length [OF c] consumesD [OF sep_loop_consumes [OF assms]] by blast
  qed
  then show ?thesis by (auto simp: consumes_def)
qed

lemma member_text_consumes:
  assumes "consumes p"
  shows "consumes (member_text p)"
proof -
  have "length r < length s" if m: "member_text p s = Some (v, r)" for s v r
  proof -
    from m obtain s1 k s2 s3 x where "skip_json_ws s = CHR 34 # s1" "string_body s1 = Some (k, s2)" "skip_json_ws s2 = CHR '':'' # s3"
      "p s3 = Some (x, r)"
      by (auto simp: member_text_def split: list.splits if_splits option.splits)
    then show ?thesis
      using skip_json_ws_Cons_length [of s] string_body_shorter [of s1] skip_json_ws_Cons_length [of s2] consumesD [OF assms, of s3]
      by fastforce
  qed
  then show ?thesis by (auto simp: consumes_def)
qed

lemma parse_value_consumes:
  assumes "\<And>p. inner = Some p \<Longrightarrow> consumes p"
  shows "consumes (parse_value inner)"
proof -
  have "length r < length s" if m: "parse_value inner s = Some (v, r)" for s v r
  proof -
    from m obtain c t where c: "skip_json_ws s = c # t" by (auto simp: parse_value_def split: list.splits)
    have l: "length t < length s" using skip_json_ws_Cons_length [OF c] .
    have b: "consumes (bracketed q cl)" if "consumes q" for q :: "'x text_parser" and cl
      using that by (rule bracketed_consumes)
    have n: "length r < length (c # t)" if "json_number (c # t) = Some (x, r)" for x
      using json_number_split [OF that] by (metis length_append length_greater_0_conv less_add_same_cancel2)
    from m c assms have "length r \<le> length t"
      by (auto simp: parse_value_def strip_prefix_Some dest!: string_body_shorter n split: if_splits option.splits
          dest: consumesD [OF bracketed_consumes] consumesD [OF bracketed_consumes [OF member_text_consumes]])
    with l show ?thesis by simp
  qed
  then show ?thesis by (auto simp: consumes_def)
qed

lemma nested_consumes: "consumes (nested d)"
proof (induction d)
  case 0
  then show ?case using parse_value_consumes [of None] by (simp add: consumes_def)
next
  case (Suc d)
  then show ?case using parse_value_consumes [of "Some (nested d)"] by (simp add: consumes_def)
qed

section \<open>What is rendered is parsed back\<close>

fun json_clean :: "json \<Rightarrow> json" where
  "json_clean (JStr s) = JStr (replace_invalid s)"
| "json_clean (JArr xs) = JArr (map json_clean xs)"
| "json_clean (JObj ms) = JObj (map (\<lambda>(k, v). (replace_invalid k, json_clean v)) ms)"
| "json_clean v = v"

fun json_depth :: "json \<Rightarrow> nat" where
  "json_depth (JArr xs) = Suc (foldr max (map json_depth xs) 0)"
| "json_depth (JObj ms) = Suc (foldr max (map (\<lambda>(_, v). json_depth v) ms) 0)"
| "json_depth _ = 0"

fun json_numbers :: "json \<Rightarrow> bool" where
  "json_numbers (JNum s) = valid_number s"
| "json_numbers (JArr xs) = list_all json_numbers xs"
| "json_numbers (JObj ms) = list_all (\<lambda>(_, v). json_numbers v) ms"
| "json_numbers _ = True"

fun json_utf8 :: "json \<Rightarrow> bool" where
  "json_utf8 (JStr s) = valid_utf8 s"
| "json_utf8 (JArr xs) = list_all json_utf8 xs"
| "json_utf8 (JObj ms) = list_all (\<lambda>(k, v). valid_utf8 k \<and> json_utf8 v) ms"
| "json_utf8 _ = True"

lemma json_clean_utf8: "json_utf8 j \<Longrightarrow> json_clean j = j"
  by (induction j) (fastforce simp: replace_invalid_valid list_all_iff intro: map_idI)+

lemma foldr_max_le: "x \<in> set xs \<Longrightarrow> x \<le> foldr max xs (0::nat)"
  by (induction xs) auto

lemma sep_loop_join:
  assumes "xs \<noteq> []" "close \<noteq> CHR '',''" "\<not> json_ws close"
    and "\<And>x t. x \<in> set xs \<Longrightarrow> hd (t @ [close]) \<in> {CHR '','', close} \<Longrightarrow> t \<noteq> [] \<Longrightarrow> item (f x @ t) = Some (g x, t)"
  shows "sep_loop item close (join '','' (map f xs) @ close # t) = Some (map g xs, t)"
  using assms(1,4)
proof (induction xs rule: induct_list012)
  case (2 x)
  then have "item (f x @ close # t) = Some (g x, close # t)" by simp
  then show ?case by (simp add: sep_loop.simps [of item close "f x @ close # t"] assms(3))
next
  case (3 x y xs)
  define u where "u = join '','' (map f (y # xs)) @ close # t"
  have i: "item (f x @ CHR '','' # u) = Some (g x, CHR '','' # u)" using "3.prems" by simp
  have u: "sep_loop item close u = Some (map g (y # xs), t)"
    unfolding u_def using "3.prems" by (intro "3.IH"(2)) simp_all
  have "join '','' (map f (x # y # xs)) @ close # t = f x @ CHR '','' # u" by (simp add: u_def)
  with i u show ?case
    using assms(2) by (simp only: sep_loop.simps [of item close "f x @ CHR '','' # u"]) (simp add: json_ws_def)
qed simp

lemma nested_eq: "nested d s = parse_value (case d of 0 \<Rightarrow> None | Suc e \<Rightarrow> Some (nested e)) s"
  by (cases d) simp_all

definition starts_value :: "string \<Rightarrow> bool" where
  "starts_value s \<longleftrightarrow> s \<noteq> [] \<and> \<not> json_ws (hd s) \<and> hd s \<noteq> CHR '']'' \<and> hd s \<noteq> CHR ''}''"

lemma number_start:
  assumes "valid_number s"
  shows "s \<noteq> [] \<and> (hd s = CHR ''-'' \<or> is_digit (hd s))"
  using assms
  by (auto simp: valid_number_def json_number_def number_sign_def number_int_def is_digit_def
      split: list.splits if_splits option.splits prod.splits)

lemma not_digit_chars:
  "\<not> is_digit (CHR 34)" "\<not> is_digit (CHR ''['')" "\<not> is_digit (CHR ''{'')" "\<not> is_digit (CHR ''n'')"
  "\<not> is_digit (CHR ''t'')" "\<not> is_digit (CHR ''f'')" "\<not> is_digit (CHR '']'')" "\<not> is_digit (CHR ''}'')"
  "\<not> is_digit (CHR '' '')" "\<not> is_digit (CHR 9)" "\<not> is_digit (CHR 10)" "\<not> is_digit (CHR 13)" "\<not> is_digit (CHR '','')"
  by (simp_all add: is_digit_def)

lemma number_not_ws: "is_digit c \<or> c = CHR ''-'' \<Longrightarrow> \<not> json_ws c"
  by (auto simp: json_ws_def not_digit_chars)

lemma json_render_start: "json_numbers j \<Longrightarrow> starts_value (json_render j)"
  using number_start by (cases j) (auto simp: starts_value_def json_ws_def not_digit_chars dest!: number_start)

lemma ends_number_sep [simp]: "ends_number (CHR '','' # t)" "ends_number (CHR '']'' # t)" "ends_number (CHR ''}'' # t)"
  "ends_number []"
  by (simp_all add: ends_number_def is_digit_def)

lemma parse_number:
  assumes "valid_number s" "ends_number t"
  shows "parse_value inner (s @ t) = Some (JNum s, t)"
proof -
  have n: "json_number (s @ t) = Some (s, t)"
    using json_number_append [of s s "[]" t] assms by (simp add: valid_number_def)
  obtain c r where s: "s = c # r" "is_digit c \<or> c = CHR ''-''" using number_start [OF assms(1)] by (cases s) auto
  then show ?thesis
    using n number_not_ws [of c] by (auto simp: parse_value_def not_digit_chars)
qed

lemma bracketed_join:
  assumes "close \<noteq> CHR '',''" "\<not> json_ws close" "\<And>x. x \<in> set xs \<Longrightarrow> f x \<noteq> [] \<and> \<not> json_ws (hd (f x)) \<and> hd (f x) \<noteq> close"
    and "\<And>x t. x \<in> set xs \<Longrightarrow> hd (t @ [close]) \<in> {CHR '','', close} \<Longrightarrow> t \<noteq> [] \<Longrightarrow> item (f x @ t) = Some (g x, t)"
  shows "bracketed item close (join '','' (map f xs) @ close # t) = Some (map g xs, t)"
proof (cases xs)
  case Nil
  then show ?thesis using assms(2) by (simp add: bracketed_def)
next
  case (Cons x ys)
  obtain c r where c: "f x = c # r" "\<not> json_ws c" "c \<noteq> close" using assms(3) [of x] Cons by (cases "f x") auto
  then obtain r' where "join '','' (map f xs) @ close # t = c # r'" using Cons by (cases ys) auto
  then show ?thesis
    using sep_loop_join [of xs close item f g t] assms Cons c by (simp add: bracketed_def)
qed

lemma member_text_field:
  assumes "starts_value s" "p (s @ t) = Some (v, t)"
  shows "member_text p ([CHR 34] @ json_quoted k @ [CHR 34] @ '':'' @ s @ t) = Some ((replace_invalid k, v), t)"
  using assms by (simp add: member_text_def string_body_quoted json_ws_def)

lemma foldr_max_less: "foldr max xs (0::nat) \<le> d \<longleftrightarrow> (\<forall>x \<in> set xs. x \<le> d)"
  by (induction xs) auto

lemma nested_render:
  "json_numbers j \<Longrightarrow> json_depth j \<le> d \<Longrightarrow> ends_number t \<Longrightarrow>
   nested d (json_render j @ t) = Some (json_clean j, t)"
proof (induction j arbitrary: d t)
  case JNull
  then show ?case by (simp add: nested_eq [of d] parse_value_def json_ws_def)
next
  case (JBool b)
  then show ?case by (simp add: nested_eq [of d] parse_value_def json_ws_def)
next
  case (JNum s)
  then show ?case by (simp add: nested_eq [of d] parse_number)
next
  case (JStr s)
  then show ?case by (simp add: nested_eq [of d] parse_value_def json_ws_def string_body_quoted)
next
  case (JArr xs)
  then obtain e where e: "d = Suc e" "\<forall>x \<in> set xs. json_depth x \<le> e" by (cases d) (auto simp: foldr_max_less)
  have "nested e (json_render x @ u) = Some (json_clean x, u)"
    if "x \<in> set xs" "hd (u @ '']'') \<in> {CHR '','', CHR '']''}" "u \<noteq> []" for x u
    using that JArr e by (cases u) (auto simp: list_all_iff)
  moreover have "json_render x \<noteq> [] \<and> \<not> json_ws (hd (json_render x)) \<and> hd (json_render x) \<noteq> CHR '']''" if "x \<in> set xs" for x
    using json_render_start [of x] JArr.prems(1) that by (simp add: starts_value_def list_all_iff)
  ultimately have "bracketed (nested e) (CHR '']'') (join '','' (map json_render xs) @ CHR '']'' # t) = Some (map json_clean xs, t)"
    by (intro bracketed_join) (auto simp: json_ws_def)
  then show ?case by (simp add: e parse_value_def json_ws_def)
next
  case (JObj ms)
  then obtain e where e: "d = Suc e" "\<forall>m \<in> set ms. json_depth (snd m) \<le> e"
    by (cases d) (auto simp: foldr_max_less case_prod_unfold)
  have "member_text (nested e) (field_text m @ u) = Some ((replace_invalid (fst m), json_clean (snd m)), u)"
    if m: "m \<in> set ms" and u: "hd (u @ ''}'') \<in> {CHR '','', CHR ''}''}" "u \<noteq> []" for m u
  proof -
    have n: "json_numbers (snd m)" using JObj.prems(1) m by (auto simp: list_all_iff)
    have "ends_number u" using u by (cases u) auto
    then have "nested e (json_render (snd m) @ u) = Some (json_clean (snd m), u)"
      using JObj.IH [of m "snd m"] m e(2) n by (cases m) auto
    then show ?thesis using member_text_field [OF json_render_start [OF n], of "nested e" u]
      by (simp add: field_text_def)
  qed
  then have "bracketed (member_text (nested e)) (CHR ''}'') (join '','' (map field_text ms) @ CHR ''}'' # t) =
      Some (map (\<lambda>m. (replace_invalid (fst m), json_clean (snd m))) ms, t)"
    by (intro bracketed_join) (auto simp: json_ws_def field_text_def)
  then show ?case by (simp add: object_text e parse_value_def json_ws_def case_prod_unfold del: json_render.simps(6))
qed

lemma json_parse_render:
  assumes "json_numbers j" "json_depth j \<le> max_nesting"
  shows "json_parse (json_render j) = Inr (json_clean j)"
  using nested_render [of j max_nesting "[]"] assms by (simp add: json_parse_def)

section \<open>No control characters in what is rendered\<close>

text \<open>Neither is an opening bracket of markup written.\<close>

definition printable :: "char \<Rightarrow> bool" where
  "printable c \<longleftrightarrow> 32 \<le> (of_char c :: nat) \<and> (of_char c :: nat) \<noteq> 60"

lemma printable_chars [simp]:
  "printable (CHR 34)" "printable (CHR 92)" "printable (CHR '','')" "printable (CHR '':'')" "printable (CHR ''['')"
  "printable (CHR '']'')" "printable (CHR ''{'')" "printable (CHR ''}'')" "printable (CHR ''u'')" "printable (CHR ''0'')"
  by (simp_all add: printable_def)

lemma hex_digit_printable: "d < 16 \<Longrightarrow> printable (hex_digit d)"
  by (simp add: printable_def hex_digit_def)

lemma json_escape_printable: "list_all printable (json_escape c)"
proof -
  define n where "n = (of_char c :: nat)"
  have n: "n < 256" using nat_of_char_less_256 [of c] by (simp add: n_def)
  have h: "list_all printable [hex_digit (n div 16), hex_digit (n mod 16)]" using n by (simp add: hex_digit_printable)
  have "(of_char c :: nat) = of_char (CHR ''<'') \<longleftrightarrow> c = CHR ''<''" by (rule of_char_eq_iff)
  then have lt: "c = CHR ''<'' \<longleftrightarrow> n = 60" by (simp add: n_def)
  have c: "printable c \<longleftrightarrow> \<not> n < 32 \<and> n \<noteq> 60" by (simp add: printable_def n_def not_less)
  have w: "list_all printable ''bfnrt''" by (simp add: printable_def)
  show ?thesis using h w unfolding json_escape.simps Let_def n_def [symmetric] by (simp add: c lt)
qed

lemma json_rune_printable:
  assumes d: "decode_rune (x # xs) = (r, w)"
  shows "list_all printable (json_rune (r, take w (x # xs)))"
proof -
  have len: "length (take w (x # xs)) = w" using decode_rune_length [OF d] by simp
  have u: "list_all printable ''ufffd''" "list_all printable ''u202''" by (simp_all add: printable_def)
  show ?thesis
  proof (cases "r < 128 \<or> invalid_rune (r, w) \<or> r = 0x2028 \<or> r = 0x2029")
    case True
    then show ?thesis using u len json_escape_printable by (auto simp: json_rune_def hex_digit_printable simp del: json_escape.simps)
  next
    case False
    then have j: "json_rune (r, take w (x # xs)) = take w (x # xs)" using len by (simp add: json_rune_def)
    have h: "printable c" if "cont (of_char c)" for c using that by (simp add: printable_def cont_def)
    have "x # xs \<noteq> []" "\<not> invalid_rune (r, w)" using False by simp_all
    with d have "list_all printable (take w (x # xs))"
    proof (cases rule: decode_rune_cases)
      case (one a s')
      with False show ?thesis by simp
    next
      case (two a b s')
      then show ?thesis using h by (simp add: shape2_def) (simp add: printable_def)
    next
      case (three a b c s')
      then have "printable a" by (simp add: shape3_def printable_def)
      with three(1-3) show ?thesis using h by (simp add: shape3_def numeral_3_eq_3)
    next
      case (four a b c d s')
      then have "printable a" by (simp add: shape4_def printable_def)
      with four(1-3) show ?thesis using h by (simp add: shape4_def eval_nat_numeral)
    qed
    with j show ?thesis by simp
  qed
qed

lemma json_quoted_printable: "list_all printable (json_quoted s)"
proof (induction s rule: utf8_split.induct)
  case 1
  then show ?case by (simp add: json_quoted_def)
next
  case (2 x xs)
  obtain r w where d: "decode_rune (x # xs) = (r, w)" by (cases "decode_rune (x # xs)")
  have "json_quoted (x # xs) = json_rune (r, take w (x # xs)) @ json_quoted (drop w (x # xs))"
    by (simp add: json_quoted_def utf8_split_decode [OF d] del: utf8_split.simps)
  then show ?case using json_rune_printable [OF d] "2.IH" [OF d [symmetric]] by simp
qed

lemma join_printable: "(\<And>x. x \<in> set xs \<Longrightarrow> list_all printable x) \<Longrightarrow> list_all printable (join '','' xs)"
  by (induction xs rule: induct_list012) simp_all

lemma json_render_printable: "json_numbers j \<Longrightarrow> list_all printable (json_render j)"
proof (induction j)
  case (JNum s)
  then have "list_all number_char s" by (simp add: valid_number_chars)
  then show ?case by (auto simp: list_all_iff number_char_def printable_def is_digit_def)
next
  case (JArr xs)
  then have "list_all printable (join '','' (map json_render xs))" by (intro join_printable) (auto simp: list_all_iff)
  then show ?case by simp
next
  case (JObj ms)
  have "list_all printable (field_text m)" if "m \<in> set ms" for m
    using JObj that json_quoted_printable [of "fst m"] by (cases m) (auto simp: field_text_def list_all_iff)
  then have "list_all printable (join '','' (map field_text ms))" by (intro join_printable) auto
  then show ?case unfolding object_text by simp
next
  case (JStr s)
  then show ?case using json_quoted_printable by simp
qed (simp_all add: printable_def)

end
