(* ===== verification/JsonRaw.thy ===== *)
theory JsonRaw
  imports JsonText
begin

text \<open>
  Values kept as text (\<open>json.RawMessage\<close>, and texts put together by hand): the members of an object
  with the text of each value, and what the parser of \<open>JsonText\<close> makes of a valid text inside a
  larger one. The parser looks at no more than the value it reads, and a value needs only as many
  levels as it is deep.
\<close>

section \<open>Members with their text\<close>

definition raw_value :: "'a text_parser \<Rightarrow> ('a \<times> string) text_parser" where
  "raw_value p s =
     (let s' = skip_json_ws s
      in map_option (\<lambda>(v, r). ((v, take (length s' - length r) s'), r)) (p s'))"

definition raw_object :: "string \<Rightarrow> (string \<times> json \<times> string) list option" where
  "raw_object s =
     (case skip_json_ws s of [] \<Rightarrow> None
      | c # r \<Rightarrow>
          if c = CHR ''{'' then map_option fst (bracketed (member_text (raw_value (nested (max_nesting - 1)))) (CHR ''}'') r)
          else None)"

text \<open>The text under a key; the last one counts.\<close>

definition raw_member :: "string \<Rightarrow> (string \<times> json \<times> string) list \<Rightarrow> string" where
  "raw_member n ms =
     (case filter (\<lambda>(k, _). fold_key k = fold_key n) ms of [] \<Rightarrow> []
      | m # r \<Rightarrow> snd (snd (last (m # r))))"

definition raw_str_field :: "string \<Rightarrow> (string \<times> json \<times> string) list \<Rightarrow> json_error + string" where
  "raw_str_field n ms = str_field n (map (\<lambda>(k, v, _). (k, v)) ms)"

lemma raw_object_render:
  assumes n: "list_all (\<lambda>(_, v). json_numbers v \<and> json_depth v < max_nesting) ms"
  shows "raw_object (json_render (JObj ms)) =
    Some (map (\<lambda>(k, v). (replace_invalid k, json_clean v, json_render v)) ms)"
proof -
  let ?item = "member_text (raw_value (nested (max_nesting - 1)))"
  have "?item (field_text m @ u) = Some ((replace_invalid (fst m), json_clean (snd m), json_render (snd m)), u)"
    if m: "m \<in> set ms" and u: "hd (u @ ''}'') \<in> {CHR '','', CHR ''}''}" "u \<noteq> []" for m u
  proof -
    have v: "json_numbers (snd m)" "json_depth (snd m) \<le> max_nesting - 1" using n m by (auto simp: list_all_iff)
    have "ends_number u" using u by (cases u) auto
    with v have "nested (max_nesting - 1) (json_render (snd m) @ u) = Some (json_clean (snd m), u)"
      by (intro nested_render)
    moreover have st: "starts_value (json_render (snd m))" using json_render_start v(1) by blast
    moreover from st obtain c r where "json_render (snd m) = c # r" "\<not> json_ws c"
      by (cases "json_render (snd m)") (auto simp: starts_value_def)
    ultimately have "raw_value (nested (max_nesting - 1)) (json_render (snd m) @ u) =
        Some ((json_clean (snd m), json_render (snd m)), u)"
      by (simp add: raw_value_def)
    then show ?thesis using member_text_field [OF st] by (simp add: field_text_def)
  qed
  then have "bracketed ?item (CHR ''}'') (join '','' (map field_text ms) @ CHR ''}'' # []) =
      Some (map (\<lambda>m. (replace_invalid (fst m), json_clean (snd m), json_render (snd m))) ms, [])"
    by (intro bracketed_join) (auto simp: json_ws_def field_text_def)
  then show ?thesis
    unfolding object_text by (simp add: raw_object_def json_ws_def case_prod_unfold)
qed

section \<open>Parsing is local\<close>

text \<open>
  A parser that has read a value does not look at what follows, as long as that cannot extend a
  number.
\<close>

definition local_parser :: "'a text_parser \<Rightarrow> bool" where
  "local_parser p \<longleftrightarrow> (\<forall>s v r u. ends_number u \<longrightarrow> p s = Some (v, r) \<longrightarrow> p (s @ u) = Some (v, r @ u))"

lemma local_parserI:
  "(\<And>s v r u. ends_number u \<Longrightarrow> p s = Some (v, r) \<Longrightarrow> p (s @ u) = Some (v, r @ u)) \<Longrightarrow> local_parser p"
  by (simp add: local_parser_def)

lemma local_parserD: "local_parser p \<Longrightarrow> ends_number u \<Longrightarrow> p s = Some (v, r) \<Longrightarrow> p (s @ u) = Some (v, r @ u)"
  by (simp add: local_parser_def)

lemma skip_json_ws_append: "skip_json_ws s = c # r \<Longrightarrow> skip_json_ws (s @ u) = c # r @ u"
proof (induction s)
  case (Cons a s)
  then show ?case by (cases "json_ws a") (simp_all add: skip_json_ws_def)
qed simp

lemma hex4_append: "hex4 s = Some (x, r) \<Longrightarrow> hex4 (s @ u) = Some (x, r @ u)"
  by (cases s rule: hex4.cases) (auto split: option.splits)

lemma hex4_suffix: "hex4 s = Some (x, r) \<Longrightarrow> \<exists>a. s = a @ r"
  by (cases s rule: hex4.cases) (auto split: option.splits)

lemma unicode_escape_suffix: "unicode_escape s = Some (b, r) \<Longrightarrow> \<exists>a. s = a @ r"
  by (auto simp: unicode_escape_def dest!: hex4_suffix split: option.splits list.splits if_splits)

lemma string_escape_suffix: "string_escape s = Some (b, r) \<Longrightarrow> \<exists>a. s = a @ r"
  by (cases s) (auto dest: unicode_escape_suffix split: if_splits intro: exI [of _ "[_]"] exI [of _ "_ # _"])

lemma string_body_has_quote: "string_body s = Some (t, r) \<Longrightarrow> CHR 34 \<in> set s"
proof (induction s arbitrary: t rule: string_body.induct)
  case (2 c s)
  obtain x w where d: "decode_rune (c # s) = (x, w)" by (cases "decode_rune (c # s)")
  consider "c = CHR 34 \<or> (of_char c :: nat) < 32" | "c = CHR 92" | "c \<noteq> CHR 34" "\<not> (of_char c :: nat) < 32" "c \<noteq> CHR 92"
    by blast
  then show ?case
  proof cases
    case 1
    with "2.prems" show ?thesis by (auto simp: string_body.simps(2) [of c s] split: if_splits)
  next
    case esc: 2
    with "2.prems" obtain b r0 t' where r0: "string_escape s = Some (b, r0)" "string_body r0 = Some (t', r)"
      by (auto simp: string_body.simps(2) [of "CHR 92" s] split: option.splits)
    with "2.IH"(1) [of "(b, r0)" b r0 t'] esc have "CHR 34 \<in> set r0" by simp
    with string_escape_suffix [OF r0(1)] show ?thesis by auto
  next
    case 3
    with "2.prems" d obtain t' where "string_body (drop w (c # s)) = Some (t', r)"
      by (auto simp: string_body.simps(2) [of c s])
    with "2.IH"(2) [OF 3 d [symmetric]] show ?thesis using in_set_dropD by fastforce
  qed
qed simp

lemma valid_rune_tail:
  assumes "decode_rune s = (r, w)" "s \<noteq> []" "\<not> invalid_rune (r, w)" "1 < w"
  shows "\<forall>c \<in> set (take w s). c \<noteq> CHR 34"
proof -
  have n: "c \<noteq> CHR 34" if "cont (of_char c)" for c using that by (auto simp: cont_def)
  from assms(1-3) show ?thesis
  proof (cases rule: decode_rune_cases)
    case (one x s')
    with assms(4) show ?thesis by simp
  next
    case (two x y s')
    then show ?thesis using n by (auto simp: shape2_def)
  next
    case (three x y z s')
    have "224 \<le> (of_char x :: nat)" "cont (of_char y)" "cont (of_char z)" using three(2) unfolding shape3_def by blast+
    then have "\<forall>c \<in> set [x, y, z]. c \<noteq> CHR 34" using n by auto
    moreover have "take w s = [x, y, z]" unfolding three(1,3) by (simp add: numeral_3_eq_3)
    ultimately show ?thesis by simp
  next
    case (four x y z u s')
    have "240 \<le> (of_char x :: nat)" "cont (of_char y)" "cont (of_char z)" "cont (of_char u)"
      using four(2) unfolding shape4_def by blast+
    then have "\<forall>c \<in> set [x, y, z, u]. c \<noteq> CHR 34" using n by auto
    moreover have "take w s = [x, y, z, u]" unfolding four(1,3) by (simp add: eval_nat_numeral)
    ultimately show ?thesis by simp
  qed
qed

text \<open>Before a closing quote, the rune at the front does not depend on what follows.\<close>

lemma decode_rune_append:
  assumes d: "decode_rune s = (r, w)" and q: "CHR 34 \<in> set s"
  shows "decode_rune (s @ u) = (r, w)"
proof (cases "invalid_rune (r, w)")
  case False
  have ne: "s \<noteq> []" using q by auto
  have "decode_rune (take w s @ drop w s @ u) = (r, w)" using decode_rune_local [OF d ne False] by blast
  then show ?thesis by (metis append_assoc append_take_drop_id)
next
  case True
  obtain r' w' where d': "decode_rune (s @ u) = (r', w')" by (cases "decode_rune (s @ u)")
  have ne: "s @ u \<noteq> []" using q by auto
  show ?thesis
  proof (cases "invalid_rune (r', w')")
    case True
    with \<open>invalid_rune (r, w)\<close> d' show ?thesis by (simp add: invalid_rune_def)
  next
    case v: False
    show ?thesis
    proof (cases "w' \<le> length s")
      case True
      then have "decode_rune (take w' s @ drop w' s) = (r', w')"
        using decode_rune_local [OF d' ne v, of "drop w' s"] by simp
      then have "decode_rune s = (r', w')" by simp
      with d \<open>invalid_rune (r, w)\<close> v show ?thesis by simp
    next
      case False
      moreover have "1 \<le> length s" using q by (cases s) auto
      ultimately have "1 < w'" by linarith
      moreover have "set s \<subseteq> set (take w' (s @ u))" using False by auto
      ultimately show ?thesis using valid_rune_tail [OF d' ne v] q by blast
    qed
  qed
qed

lemma unicode_escape_append:
  assumes "unicode_escape s = Some (b, r)" "string_body r = Some t"
  shows "unicode_escape (s @ u) = Some (b, r @ u)"
proof -
  obtain x r0 where h: "hex4 s = Some (x, r0)" using assms(1) by (auto simp: unicode_escape_def split: option.splits)
  note hu = hex4_append [OF h, of u]
  show ?thesis
  proof (cases "0xD800 \<le> x \<and> x < 0xDC00")
    case False
    with assms(1) h hu show ?thesis by (auto simp: unicode_escape_def)
  next
    case True
    consider "r0 = []" | c where "r0 = [c]" | c v r1 where "r0 = c # v # r1" by (metis neq_Nil_conv)
    then show ?thesis
    proof cases
      case 1
      with assms h True show ?thesis by (auto simp: unicode_escape_def)
    next
      case (2 c)
      then have "r = [c]" using assms(1) h True by (auto simp: unicode_escape_def)
      then have "c \<noteq> CHR 92" using assms(2) by (auto simp: string_body_escape)
      with 2 assms(1) h hu True show ?thesis by (auto simp: unicode_escape_def split: list.split)
    next
      case (3 c v r1)
      show ?thesis
      proof (cases "c = CHR 92 \<and> v = CHR ''u''")
        case False
        with 3 assms(1) h hu True show ?thesis by (auto simp: unicode_escape_def)
      next
        case esc: True
        have "hex4 r1 \<noteq> None"
        proof
          assume n: "hex4 r1 = None"
          then have "r = CHR 92 # CHR ''u'' # r1" using 3 esc assms(1) h True by (auto simp: unicode_escape_def)
          with assms(2) n show False by (simp add: string_body_escape unicode_escape_def)
        qed
        then obtain y r2 where y: "hex4 r1 = Some (y, r2)" by auto
        from hex4_append [OF y, of u] y 3 esc assms(1) h hu True show ?thesis
          by (auto simp: unicode_escape_def split: if_splits)
      qed
    qed
  qed
qed

lemma string_escape_append:
  "string_escape s = Some (b, r) \<Longrightarrow> string_body r = Some t \<Longrightarrow> string_escape (s @ u) = Some (b, r @ u)"
  by (cases s) (auto dest: unicode_escape_append split: if_splits)

lemma string_body_append: "string_body s = Some (t, r) \<Longrightarrow> string_body (s @ u) = Some (t, r @ u)"
proof (induction s arbitrary: t rule: string_body.induct)
  case (2 c s)
  obtain x w where d: "decode_rune (c # s) = (x, w)" by (cases "decode_rune (c # s)")
  consider "c = CHR 34 \<or> (of_char c :: nat) < 32" | "c = CHR 92" | "c \<noteq> CHR 34" "\<not> (of_char c :: nat) < 32" "c \<noteq> CHR 92"
    by blast
  then show ?case
  proof cases
    case 1
    with "2.prems" show ?thesis by (auto simp: string_body.simps(2) split: if_splits)
  next
    case esc: 2
    with "2.prems" obtain b r0 t' where r0: "string_escape s = Some (b, r0)" "string_body r0 = Some (t', r)" "t = b @ t'"
      by (auto simp: string_body_escape split: option.splits)
    from r0 esc string_escape_append [OF r0(1,2), of u] "2.IH"(1) [of "(b, r0)" b r0 t'] show ?thesis
      by (simp add: string_body_escape)
  next
    case 3
    from "2.prems" have q: "CHR 34 \<in> set (c # s)" by (rule string_body_has_quote)
    from 3 "2.prems" d obtain t' where t': "string_body (drop w (c # s)) = Some (t', r)" "t = encode_rune x @ t'"
      by (auto simp: string_body.simps(2) [of c s])
    have du: "decode_rune (c # s @ u) = (x, w)" using decode_rune_append [OF d q, of u] by simp
    have "w \<le> length (c # s)" using decode_rune_length [OF d] by simp
    then have "drop w (c # s @ u) = drop w (c # s) @ u" by (metis append_Cons drop_append diff_is_0_eq drop_0)
    with 3 du t' "2.IH"(2) [OF 3 d [symmetric] t'(1)] show ?thesis
      by (simp add: string_body.simps(2) [of c "s @ u"])
  qed
qed simp

lemma sep_loop_local:
  assumes "local_parser p"
  shows "local_parser (sep_loop p close)"
proof (rule local_parserI)
  fix s v r u
  assume u: "ends_number u"
  show "sep_loop p close s = Some (v, r) \<Longrightarrow> sep_loop p close (s @ u) = Some (v, r @ u)"
  proof (induction s arbitrary: v rule: measure_induct_rule [of length])
    case (less s)
    then obtain x r0 c r' where x: "p s = Some (x, r0)" and c: "skip_json_ws r0 = c # r'"
      by (subst (asm) sep_loop.simps) (auto split: option.splits list.splits)
    have step: "p (s @ u) = Some (x, r0 @ u)" "skip_json_ws (r0 @ u) = c # r' @ u"
      using local_parserD [OF assms u x] skip_json_ws_append [OF c] by auto
    show ?case
    proof (cases "c = close")
      case True
      with less.prems x c step show ?thesis by (simp add: sep_loop.simps [of p close s] sep_loop.simps [of p close "s @ u"])
    next
      case False
      with less.prems x c obtain v' where v': "c = CHR '',''" "length r' < length s" "sep_loop p close r' = Some (v', r)" "v = x # v'"
        by (auto simp: sep_loop.simps [of p close s] split: if_splits)
      with less.IH [of r' v'] False step show ?thesis by (simp add: sep_loop.simps [of p close "s @ u"])
    qed
  qed
qed

lemma bracketed_local:
  assumes "local_parser p"
  shows "local_parser (bracketed p close)"
proof (rule local_parserI)
  fix s v r u
  assume u: "ends_number u" and b: "bracketed p close s = Some (v, r)"
  then obtain c t where c: "skip_json_ws s = c # t" by (auto simp: bracketed_def split: list.splits)
  with b local_parserD [OF sep_loop_local [OF assms] u] show "bracketed p close (s @ u) = Some (v, r @ u)"
    by (auto simp: bracketed_def skip_json_ws_append [OF c] split: if_splits)
qed

lemma member_text_local:
  assumes "local_parser p"
  shows "local_parser (member_text p)"
proof (rule local_parserI)
  fix s v r u
  assume u: "ends_number u" and m: "member_text p s = Some (v, r)"
  then obtain s1 k s2 s3 x where t: "skip_json_ws s = CHR 34 # s1" "string_body s1 = Some (k, s2)"
      "skip_json_ws s2 = CHR '':'' # s3" "p s3 = Some (x, r)" "v = (k, x)"
    by (auto simp: member_text_def split: list.splits if_splits option.splits)
  show "member_text p (s @ u) = Some (v, r @ u)"
    using local_parserD [OF assms u t(4)] t(5)
    by (simp add: member_text_def skip_json_ws_append [OF t(1)] string_body_append [OF t(2)] skip_json_ws_append [OF t(3)])
qed

lemma parse_value_local:
  assumes "\<And>p. inner = Some p \<Longrightarrow> local_parser p"
  shows "local_parser (parse_value inner)"
proof (rule local_parserI)
  fix s v r u
  assume u: "ends_number u" and m: "parse_value inner s = Some (v, r)"
  then obtain c t where c: "skip_json_ws s = c # t" by (auto simp: parse_value_def split: list.splits)
  note cu = skip_json_ws_append [OF c, of u]
  have b: "bracketed p cl (t @ u) = Some (x, y @ u)" if "inner = Some p" "bracketed p cl t = Some (x, y)" for p cl x y
    using local_parserD [OF bracketed_local [OF assms [OF that(1)]] u that(2)] .
  have o: "bracketed (member_text p) cl (t @ u) = Some (x, y @ u)"
    if "inner = Some p" "bracketed (member_text p) cl t = Some (x, y)" for p cl x y
    using local_parserD [OF bracketed_local [OF member_text_local [OF assms [OF that(1)]]] u that(2)] .
  have n: "json_number (c # t @ u) = Some (x, y @ u)" if "json_number (c # t) = Some (x, y)" for x y
    using json_number_append [OF that u] by simp
  from m c show "parse_value inner (s @ u) = Some (v, r @ u)"
    by (auto simp: parse_value_def cu b o n string_body_append strip_prefix_Some split: if_splits option.splits)
qed

lemma nested_local: "local_parser (nested d)"
proof (induction d)
  case 0
  then show ?case using parse_value_local [of None] by (simp add: local_parser_def)
next
  case (Suc d)
  then show ?case using parse_value_local [of "Some (nested d)"] by (simp add: local_parser_def)
qed

section \<open>The nesting a text needs\<close>

lemma sep_loop_change:
  assumes "\<And>s v r. p s = Some (v, r) \<Longrightarrow> P v \<Longrightarrow> p' s = Some (v, r)"
  shows "sep_loop p close s = Some (vs, r) \<Longrightarrow> list_all P vs \<Longrightarrow> sep_loop p' close s = Some (vs, r)"
proof (induction s arbitrary: vs rule: measure_induct_rule [of length])
  case (less s)
  then obtain x r0 c r' where x: "p s = Some (x, r0)" and c: "skip_json_ws r0 = c # r'"
    by (subst (asm) sep_loop.simps) (auto split: option.splits list.splits)
  from less.prems x c have px: "P x"
    by (subst (asm) sep_loop.simps) (auto split: if_splits)
  show ?case
  proof (cases "c = close")
    case True
    with less.prems x c assms [OF x px] show ?thesis by (simp add: sep_loop.simps [of p close s] sep_loop.simps [of p' close s])
  next
    case False
    with less.prems x c obtain vs' where v': "c = CHR '',''" "length r' < length s" "sep_loop p close r' = Some (vs', r)" "vs = x # vs'"
      by (auto simp: sep_loop.simps [of p close s] split: if_splits)
    with less.IH [of r' vs'] less.prems(2) False c assms [OF x px] show ?thesis by (simp add: sep_loop.simps [of p' close s])
  qed
qed

lemma bracketed_change:
  assumes "\<And>s v r. p s = Some (v, r) \<Longrightarrow> P v \<Longrightarrow> p' s = Some (v, r)"
  shows "bracketed p close s = Some (vs, r) \<Longrightarrow> list_all P vs \<Longrightarrow> bracketed p' close s = Some (vs, r)"
  using sep_loop_change [of p P p', OF assms] by (auto simp: bracketed_def split: list.splits)

lemma member_text_change:
  assumes "\<And>s v r. p s = Some (v, r) \<Longrightarrow> P v \<Longrightarrow> p' s = Some (v, r)"
  shows "member_text p s = Some (m, r) \<Longrightarrow> P (snd m) \<Longrightarrow> member_text p' s = Some (m, r)"
  using assms by (auto simp: member_text_def split: list.splits if_splits option.splits)

lemma parse_value_inner:
  "skip_json_ws s = c # t \<Longrightarrow> c \<noteq> CHR ''['' \<Longrightarrow> c \<noteq> CHR ''{'' \<Longrightarrow> parse_value i s = parse_value i' s"
  by (simp add: parse_value_def)

lemma nested_depth: "nested d s = Some (j, r) \<Longrightarrow> json_depth j \<le> e \<Longrightarrow> nested e s = Some (j, r)"
proof (induction d arbitrary: s j r e)
  case 0
  then show ?case
    by (cases e) (auto simp: parse_value_def split: list.splits if_splits option.splits)
next
  case (Suc d)
  have val: "nested d s = Some (v, r) \<Longrightarrow> json_depth v \<le> e' \<Longrightarrow> nested e' s = Some (v, r)" for s v r e'
    using Suc.IH .
  from Suc.prems obtain c t where c: "skip_json_ws s = c # t" by (auto simp: parse_value_def split: list.splits)
  consider "c = CHR ''[''" | "c = CHR ''{''" | "c \<noteq> CHR ''[''" "c \<noteq> CHR ''{''" by blast
  then show ?case
  proof cases
    case 1
    with Suc.prems(1) c obtain vs where vs: "bracketed (nested d) (CHR '']'') t = Some (vs, r)" "j = JArr vs"
      by (auto simp: parse_value_def)
    with Suc.prems(2) obtain e' where e': "e = Suc e'" "list_all (\<lambda>v. json_depth v \<le> e') vs"
      by (cases e) (auto simp: foldr_max_less list_all_iff)
    from bracketed_change [of "nested d" "\<lambda>v. json_depth v \<le> e'" "nested e'", OF val vs(1) e'(2)] show ?thesis
      by (simp add: parse_value_def 1 c e'(1) vs(2))
  next
    case 2
    with Suc.prems(1) c obtain ms where ms: "bracketed (member_text (nested d)) (CHR ''}'') t = Some (ms, r)" "j = JObj ms"
      by (auto simp: parse_value_def)
    with Suc.prems(2) obtain e' where e': "e = Suc e'" "list_all (\<lambda>m. json_depth (snd m) \<le> e') ms"
      by (cases e) (simp_all add: foldr_max_less list_all_iff case_prod_unfold)
    have m: "member_text (nested d) s = Some (m, r) \<Longrightarrow> json_depth (snd m) \<le> e' \<Longrightarrow> member_text (nested e') s = Some (m, r)" for s m r
      using member_text_change [of "nested d" "\<lambda>v. json_depth v \<le> e'" "nested e'", OF val] .
    from bracketed_change [of "member_text (nested d)" "\<lambda>m. json_depth (snd m) \<le> e'" "member_text (nested e')", OF m ms(1) e'(2)] show ?thesis
      by (simp add: parse_value_def 2 c e'(1) ms(2))
  next
    case 3
    have "nested e s = nested (Suc d) s"
      unfolding nested_eq [of e] nested.simps by (rule parse_value_inner [OF c 3])
    with Suc.prems(1) show ?thesis by simp
  qed
qed

section \<open>A valid text inside an object\<close>

lemma ws_text:
  assumes "skip_json_ws r = []"
  shows "list_all json_ws r"
  using assms by (simp add: skip_json_ws_def dropWhile_eq_Nil_conv list_all_iff)

lemma skip_ws_text: "list_all json_ws w \<Longrightarrow> \<not> json_ws c \<Longrightarrow> skip_json_ws (w @ c # t) = c # t"
  by (induction w) (simp_all add: skip_json_ws_def)

lemma valid_inside:
  assumes "json_parse raw = Inr v" "json_depth v \<le> d" "ends_number t"
  shows "\<exists>w. list_all json_ws w \<and> nested d (raw @ t) = Some (v, w @ t)"
proof -
  from assms(1) obtain r where r: "nested max_nesting raw = Some (v, r)" "skip_json_ws r = []"
    by (auto simp: json_parse_def split: option.splits if_splits)
  have "nested d raw = Some (v, r)" using nested_depth [OF r(1) assms(2)] .
  from local_parserD [OF nested_local assms(3) this] ws_text [OF r(2)] show ?thesis by blast
qed

lemma sep_loop_join_ws:
  assumes "xs \<noteq> []" "close \<noteq> CHR '',''" "\<not> json_ws close"
    and "\<And>x t. x \<in> set xs \<Longrightarrow> hd (t @ [close]) \<in> {CHR '','', close} \<Longrightarrow> t \<noteq> [] \<Longrightarrow>
      \<exists>w. list_all json_ws w \<and> item (f x @ t) = Some (g x, w @ t)"
  shows "sep_loop item close (join '','' (map f xs) @ close # t) = Some (map g xs, t)"
  using assms(1,4)
proof (induction xs rule: induct_list012)
  case (2 x)
  obtain w where "list_all json_ws w" "item (f x @ close # t) = Some (g x, w @ close # t)"
    using "2.prems"(2) [of x "close # t"] by auto
  then show ?case by (simp add: sep_loop.simps [of item close "f x @ close # t"] assms(3) skip_ws_text)
next
  case (3 x y xs)
  define u where "u = join '','' (map f (y # xs)) @ close # t"
  obtain w where i: "list_all json_ws w" "item (f x @ CHR '','' # u) = Some (g x, w @ CHR '','' # u)"
    using "3.prems"(2) [of x "CHR '','' # u"] by auto
  have u: "sep_loop item close u = Some (map g (y # xs), t)"
    unfolding u_def using "3.prems" by (intro "3.IH"(2)) simp_all
  have "join '','' (map f (x # y # xs)) @ close # t = f x @ CHR '','' # u" by (simp add: u_def)
  moreover have "skip_json_ws (w @ CHR '','' # u) = CHR '','' # u" using i(1) by (intro skip_ws_text) (simp_all add: json_ws_def)
  ultimately show ?case
    using i(2) u assms(2) by (simp only: sep_loop.simps [of item close "f x @ CHR '','' # u"]) simp
qed simp

text \<open>An object written by hand from keys and valid texts.\<close>

definition member_of_text :: "string \<times> string \<Rightarrow> string" where
  "member_of_text m = json_render (JStr (fst m)) @ '':'' @ snd m"

lemma member_text_key:
  "member_text p (json_render (JStr k) @ '':'' @ s) = map_option (apfst (Pair (replace_invalid k))) (p s)"
  by (simp add: member_text_def string_body_quoted json_ws_def)

theorem object_of_texts:
  assumes "\<And>m. m \<in> set ms \<Longrightarrow> json_parse (snd m) = Inr (val m) \<and> json_depth (val m) < max_nesting"
  shows "json_parse (''{'' @ join '','' (map member_of_text ms) @ ''}'') =
    Inr (JObj (map (\<lambda>m. (replace_invalid (fst m), val m)) ms))"
proof -
  let ?p = "nested (max_nesting - 1)"
  have item: "\<exists>w. list_all json_ws w \<and>
      member_text ?p (member_of_text m @ t) = Some ((replace_invalid (fst m), val m), w @ t)"
    if m: "m \<in> set ms" and t: "hd (t @ [CHR ''}'']) \<in> {CHR '','', CHR ''}''}" "t \<noteq> []" for m t
  proof -
    have "ends_number t" using t by (cases t) auto
    moreover have "json_depth (val m) \<le> max_nesting - 1" using assms [OF m] by (simp add: max_nesting_def)
    ultimately obtain w where "list_all json_ws w" "?p (snd m @ t) = Some (val m, w @ t)"
      using valid_inside assms [OF m] by blast
    then show ?thesis using member_text_key [of ?p "fst m" "snd m @ t"] by (auto simp: member_of_text_def)
  qed
  have "bracketed (member_text ?p) (CHR ''}'') (join '','' (map member_of_text ms) @ CHR ''}'' # []) =
      Some (map (\<lambda>m. (replace_invalid (fst m), val m)) ms, [])"
  proof (cases ms)
    case Nil
    then show ?thesis by (simp add: bracketed_def json_ws_def)
  next
    case (Cons m ms')
    then obtain r where "join '','' (map member_of_text ms) @ CHR ''}'' # [] = CHR 34 # r"
      by (cases ms') (simp_all add: member_of_text_def)
    moreover have "sep_loop (member_text ?p) (CHR ''}'') (join '','' (map member_of_text ms) @ CHR ''}'' # []) =
        Some (map (\<lambda>m. (replace_invalid (fst m), val m)) ms, [])"
      using Cons item by (intro sep_loop_join_ws) (auto simp: json_ws_def)
    ultimately show ?thesis by (simp add: bracketed_def json_ws_def)
  qed
  moreover have "nested max_nesting s = parse_value (Some ?p) s" for s
    by (simp add: nested_eq [of max_nesting] max_nesting_def)
  ultimately show ?thesis by (simp add: json_parse_def parse_value_def json_ws_def)
qed

end
