(* ===== verification/Envelopes.thy ===== *)
theory Envelopes
  imports Ipc JsonRaw
begin

text \<open>
  The JSON codec of an envelope (ipc/ipc.go): \<open>json.Marshal\<close> compacts the raw body into the
  payload, \<open>json.Unmarshal\<close> takes the kind out of the object and keeps the text of the body as
  it stands.
\<close>

section \<open>Compacting raw JSON\<close>

text \<open>
  \<open>appendCompact\<close> on a valid text: white space outside strings is dropped; inside them the
  three characters of HTML and the two line separators are escaped. The flag says whether the
  position is inside a string.
\<close>

fun line_separator :: "string \<Rightarrow> bool" where
  "line_separator (a # b # c # s) \<longleftrightarrow> a = CHR 0xE2 \<and> b = CHR 0x80 \<and> (c = CHR 0xA8 \<or> c = CHR 0xA9)"
| "line_separator _ = False"

function compact_text :: "bool \<Rightarrow> string \<Rightarrow> string" where
  "compact_text q [] = []"
| "compact_text False (c # s) =
     (if json_ws c then compact_text False s else c # compact_text (c = CHR 34) s)"
| "compact_text True (c # s) =
     (if c = CHR 34 then c # compact_text False s
      else if c = CHR 92 then (case s of [] \<Rightarrow> [c] | d # s' \<Rightarrow> c # d # compact_text True s')
      else if c = CHR ''<'' \<or> c = CHR ''>'' \<or> c = CHR ''&'' then json_escape c @ compact_text True s
      else if line_separator (c # s)
        then CHR 92 # ''u202'' @ [hex_digit (of_char (s ! 1) mod 16)] @ compact_text True (drop 2 s)
      else c # compact_text True s)"
  by pat_completeness auto
termination
  by (relation "measure (\<lambda>(_, s). length s)") auto

declare compact_text.simps(2,3) [simp del]

definition compact :: "string \<Rightarrow> json_error + string" where
  "compact s = (if json_valid s then Inr (compact_text False s) else Inl SyntaxError)"

text \<open>What \<open>json.Marshal\<close> writes is compact already.\<close>

lemma compact_quote: "compact_text True (CHR 34 # s) = CHR 34 # compact_text False s"
  by (simp add: compact_text.simps(3))

lemma compact_escape: "compact_text True (CHR 92 # d # s) = CHR 92 # d # compact_text True s"
  by (simp add: compact_text.simps(3))

lemma compact_plain:
  assumes "c \<noteq> CHR 34" "c \<noteq> CHR 92" "c \<noteq> CHR ''<''" "c \<noteq> CHR ''>''" "c \<noteq> CHR ''&''" "\<not> line_separator (c # s)"
  shows "compact_text True (c # s) = c # compact_text True s"
  using assms by (simp add: compact_text.simps(3))

lemma not_separator: "c \<noteq> CHR 0xE2 \<Longrightarrow> \<not> line_separator (c # s)"
  by (cases "c # s" rule: line_separator.cases) auto

definition plain_in_string :: "char \<Rightarrow> bool" where
  "plain_in_string c \<longleftrightarrow> c \<notin> {CHR 34, CHR 92, CHR ''<'', CHR ''>'', CHR ''&'', CHR 0xE2}"

lemma compact_plains: "list_all plain_in_string b \<Longrightarrow> compact_text True (b @ s) = b @ compact_text True s"
proof (induction b)
  case (Cons c b)
  then show ?case
    using compact_plain [of c "b @ s"] not_separator [of c "b @ s"] by (simp add: plain_in_string_def)
qed simp

lemma hex_digit_plain: "d < 16 \<Longrightarrow> plain_in_string (hex_digit d)"
proof -
  assume d: "d < 16"
  then have "(of_char (hex_digit d) :: nat) = (if d < 10 then 48 + d else 87 + d)" by (simp add: hex_digit_def)
  with d have "(of_char (hex_digit d) :: nat) \<notin> {34, 92, 60, 62, 38, 0xE2}" by (auto split: if_splits)
  then show ?thesis by (auto simp: plain_in_string_def)
qed

lemma json_escape_shape:
  assumes "(of_char c :: nat) < 128"
  shows "(json_escape c = [c] \<and> plain_in_string c) \<or> (\<exists>d ds. json_escape c = CHR 92 # d # ds \<and> list_all plain_in_string ds)"
proof -
  define n where "n = (of_char c :: nat)"
  have e: "json_escape c =
     (if c = CHR 34 then [CHR 92, CHR 34] else if c = CHR 92 then [CHR 92, CHR 92]
      else if n = 8 then [CHR 92, CHR ''b''] else if n = 12 then [CHR 92, CHR ''f'']
      else if n = 10 then [CHR 92, CHR ''n''] else if n = 13 then [CHR 92, CHR ''r'']
      else if n = 9 then [CHR 92, CHR ''t'']
      else if n < 32 \<or> c = CHR ''<'' \<or> c = CHR ''>'' \<or> c = CHR ''&''
        then [CHR 92, CHR ''u'', CHR ''0'', CHR ''0'', hex_digit (n div 16), hex_digit (n mod 16)]
      else [c])"
    by (simp only: json_escape.simps Let_def n_def)
  have "n < 128" "c \<noteq> CHR 0xE2" using assms by (auto simp: n_def)
  then have h: "list_all plain_in_string [CHR ''0'', CHR ''0'', hex_digit (n div 16), hex_digit (n mod 16)]"
    by (simp add: hex_digit_plain) (simp add: plain_in_string_def)
  show ?thesis
  proof (cases "json_escape c = [c]")
    case True
    then have "c \<notin> {CHR 34, CHR 92, CHR ''<'', CHR ''>'', CHR ''&''}" unfolding e by (auto split: if_splits)
    with True \<open>c \<noteq> CHR 0xE2\<close> show ?thesis by (simp add: plain_in_string_def del: json_escape.simps)
  next
    case False
    with h show ?thesis unfolding e by (simp split: if_splits)
  qed
qed

lemma compact_json_escape:
  assumes "(of_char c :: nat) < 128"
  shows "compact_text True (json_escape c @ s) = json_escape c @ compact_text True s"
  using json_escape_shape [OF assms] compact_plains [of "[c]" s]
  by (auto simp: compact_escape compact_plains simp del: json_escape.simps)

lemma high_plain: "128 \<le> (of_char c :: nat) \<Longrightarrow> of_char c \<noteq> (0xE2 :: nat) \<Longrightarrow> plain_in_string c"
  by (auto simp: plain_in_string_def)

lemma cont_plain: "cont (of_char c) \<Longrightarrow> plain_in_string c"
  by (intro high_plain) (auto simp: cont_def)

lemma compact_json_rune:
  assumes d: "decode_rune (x # xs) = (r, w)"
  shows "compact_text True (json_rune (r, take w (x # xs)) @ s) = json_rune (r, take w (x # xs)) @ compact_text True s"
proof -
  have len: "length (take w (x # xs)) = w" using decode_rune_length [OF d] by simp
  have u: "list_all plain_in_string ''fffd''" "list_all plain_in_string (''202'' @ [hex_digit (r mod 16)])"
    by (simp_all add: hex_digit_plain) (simp_all add: plain_in_string_def)
  have hex: "compact_text True (CHR 92 # CHR ''u'' # ds @ s) = CHR 92 # CHR ''u'' # ds @ compact_text True s"
    if "list_all plain_in_string ds" for ds
    using that by (simp add: compact_escape compact_plains)
  show ?thesis
  proof (cases "r < 128 \<or> invalid_rune (r, w) \<or> r = 0x2028 \<or> r = 0x2029")
    case True
    then show ?thesis
      using compact_json_escape [of "char_of r" s] hex [OF u(1)] hex [OF u(2)] len
      by (auto simp: json_rune_def simp del: json_escape.simps)
  next
    case False
    then have j: "json_rune (r, take w (x # xs)) = take w (x # xs)" using len by (simp add: json_rune_def)
    have "x # xs \<noteq> []" "\<not> invalid_rune (r, w)" using False by simp_all
    with d have "compact_text True (take w (x # xs) @ s) = take w (x # xs) @ compact_text True s"
    proof (cases rule: decode_rune_cases)
      case (one a s')
      with False show ?thesis by simp
    next
      case (two a b s')
      have "194 \<le> (of_char a :: nat)" "(of_char a :: nat) \<le> 223" "cont (of_char b)"
        using two(2) unfolding shape2_def by blast+
      then have "list_all plain_in_string [a, b]" using cont_plain [of b] high_plain [of a] by simp
      from compact_plains [OF this] two show ?thesis by simp
    next
      case (three a b c s')
      have h: "224 \<le> (of_char a :: nat)" "cont (of_char b)" "cont (of_char c)"
        using three(2) unfolding shape3_def by blast+
      have bc: "list_all plain_in_string [b, c]" using cont_plain h by simp
      have "\<not> line_separator (a # b # c # s)" using three(4) False by auto
      moreover have "a \<notin> {CHR 34, CHR 92, CHR ''<'', CHR ''>'', CHR ''&''}" using h(1) by auto
      ultimately have "compact_text True (a # b # c # s) = a # compact_text True ([b, c] @ s)"
        by (subst compact_plain) simp_all
      moreover have "take w (x # xs) = [a, b, c]" unfolding three(1,3) by (simp add: numeral_3_eq_3)
      ultimately show ?thesis using compact_plains [OF bc] by simp
    next
      case (four a b c d s')
      have "240 \<le> (of_char a :: nat)" "cont (of_char b)" "cont (of_char c)" "cont (of_char d)"
        using four(2) unfolding shape4_def by blast+
      then have "list_all plain_in_string [a, b, c, d]" using cont_plain high_plain [of a] by simp
      moreover have "take w (x # xs) = [a, b, c, d]" unfolding four(1,3) by (simp add: eval_nat_numeral)
      ultimately show ?thesis using compact_plains [of "[a, b, c, d]" s] by simp
    qed
    with j show ?thesis by simp
  qed
qed

lemma compact_json_quoted: "compact_text True (json_quoted k @ t) = json_quoted k @ compact_text True t"
proof (induction k rule: utf8_split.induct)
  case 1
  then show ?case by (simp add: json_quoted_def)
next
  case (2 x xs)
  obtain r w where d: "decode_rune (x # xs) = (r, w)" by (cases "decode_rune (x # xs)")
  have "json_quoted (x # xs) = json_rune (r, take w (x # xs)) @ json_quoted (drop w (x # xs))"
    by (simp add: json_quoted_def utf8_split_decode [OF d] del: utf8_split.simps)
  then show ?case using compact_json_rune [OF d] "2.IH" [OF d [symmetric]] by simp
qed

text \<open>Text outside strings that compacting leaves alone.\<close>

definition inert :: "string \<Rightarrow> bool" where
  "inert s \<longleftrightarrow> (\<forall>t. compact_text False (s @ t) = s @ compact_text False t)"

lemma inert_append: "inert s \<Longrightarrow> inert t \<Longrightarrow> inert (s @ t)"
  by (simp add: inert_def)

lemma inert_Nil [simp]: "inert []"
  by (simp add: inert_def)

lemma inert_Cons: "\<not> json_ws c \<Longrightarrow> c \<noteq> CHR 34 \<Longrightarrow> inert s \<Longrightarrow> inert (c # s)"
  by (simp add: inert_def compact_text.simps(2))

lemma inert_string: "inert ([CHR 34] @ json_quoted k @ [CHR 34])"
  using compact_quote by (simp add: inert_def compact_text.simps(2) json_ws_def compact_json_quoted)

lemma inert_join: "(\<And>x. x \<in> set xs \<Longrightarrow> inert x) \<Longrightarrow> inert (join '','' xs)"
proof (induction xs rule: induct_list012)
  case (3 x y zs)
  have "inert '',''" by (simp add: inert_Cons json_ws_def)
  moreover have "inert x" "inert (join '','' (y # zs))" using 3 by simp_all
  ultimately have "inert (x @ '','' @ join '','' (y # zs))" by (intro inert_append)
  then show ?case by simp
qed simp_all

lemma inert_number:
  assumes "valid_number s"
  shows "inert s"
proof -
  have "list_all number_char s \<Longrightarrow> inert s" for s
  proof (induction s)
    case (Cons c s)
    then have "\<not> json_ws c" "c \<noteq> CHR 34"
      by (auto simp: number_char_def number_not_ws not_digit_chars) (auto simp: json_ws_def)
    with Cons show ?case by (simp add: inert_Cons)
  qed simp
  with valid_number_chars [OF assms] show ?thesis by blast
qed

lemma inert_render: "json_numbers j \<Longrightarrow> inert (json_render j)"
proof (induction j)
  case (JArr xs)
  then have "inert (join '','' (map json_render xs))" by (intro inert_join) (auto simp: list_all_iff)
  then show ?case by (simp add: inert_Cons json_ws_def inert_append)
next
  case (JObj ms)
  have "inert (field_text m)" if "m \<in> set ms" for m
  proof -
    have "inert (json_render (snd m))" using JObj that by (cases m) (auto simp: list_all_iff)
    then have "inert (([CHR 34] @ json_quoted (fst m) @ [CHR 34]) @ '':'' @ json_render (snd m))"
      by (intro inert_append inert_string inert_Cons) (simp_all add: json_ws_def)
    then show ?thesis by (simp add: field_text_def)
  qed
  then have "inert (join '','' (map field_text ms))" by (intro inert_join) auto
  then show ?case unfolding object_text by (simp add: inert_Cons json_ws_def inert_append)
next
  case (JStr s)
  then show ?case using inert_string by simp
qed (simp_all add: inert_number inert_Cons json_ws_def)

lemma compact_render:
  assumes "json_numbers j" "json_depth j \<le> max_nesting"
  shows "compact (json_render j) = Inr (json_render j)"
  using inert_render [OF assms(1)] json_parse_render [OF assms]
  by (simp add: compact_def json_valid_def inert_def) (metis append_Nil2 compact_text.simps(1))

section \<open>The codec\<close>

definition text_of :: "byte list \<Rightarrow> string" where
  "text_of b = map (\<lambda>x. char_of (unat x)) b"

definition bytes_text :: "string \<Rightarrow> byte list" where
  "bytes_text s = map (\<lambda>c. of_nat (of_char c)) s"

lemma text_of_bytes_text [simp]: "text_of (bytes_text s) = s"
proof -
  have "unat (of_nat (of_char c) :: byte) = of_char c" for c :: char
    using nat_of_char_less_256 [of c] by (simp add: unat_of_nat)
  then show ?thesis by (simp add: text_of_def bytes_text_def o_def)
qed

lemma bytes_text_text_of [simp]: "bytes_text (text_of b) = b"
proof -
  have "of_nat (of_char (char_of (unat x) :: char)) = x" for x :: byte
    using unsigned_less [of x, where 'a = nat] by simp
  then show ?thesis by (simp only: text_of_def bytes_text_def map_map o_def map_ident)
qed

lemma bytes_text_simps [simp]: "bytes_text [] = []" "bytes_text s = [] \<longleftrightarrow> s = []" "length (bytes_text s) = length s"
  by (simp_all add: bytes_text_def)

text \<open>
  \<open>json.Marshal(e)\<close>: the kind, and the body unless it is empty; a raw body that is not JSON is
  an error.
\<close>

definition marshal_envelope :: "envelope \<Rightarrow> string + byte list" where
  "marshal_envelope e =
     (let k = [CHR 34] @ ''kind'' @ [CHR 34, CHR '':'', CHR 34] @ json_quoted (kind e) @ [CHR 34] in
      if body e = [] then Inr (bytes_text (''{'' @ k @ ''}''))
      else case compact (text_of (body e)) of
             Inl _ \<Rightarrow> Inl ''json: error calling MarshalJSON for type json.RawMessage''
           | Inr b \<Rightarrow> Inr (bytes_text (''{'' @ k @ '','' @ [CHR 34] @ ''body'' @ [CHR 34, CHR '':''] @ b @ ''}'')))"

text \<open>
  \<open>json.Unmarshal(payload, &e)\<close>: the text is checked first; \<open>kind\<close> is a string, \<open>body\<close> takes
  the text of its value (the last one, where the key is repeated).
\<close>

definition unmarshal_envelope :: "byte list \<Rightarrow> string + envelope" where
  "unmarshal_envelope p =
     (case json_parse (text_of p) of
        Inl _ \<Rightarrow> Inl ''invalid JSON''
      | Inr JNull \<Rightarrow> Inr \<lparr>kind = [], body = []\<rparr>
      | Inr _ \<Rightarrow>
          (case raw_object (text_of p) of
             None \<Rightarrow> Inl ''json: cannot unmarshal into Go value of type ipc.Envelope''
           | Some ms \<Rightarrow>
               (case raw_str_field ''kind'' ms of
                  Inl _ \<Rightarrow> Inl ''json: cannot unmarshal into Go struct field Envelope.kind of type string''
                | Inr k \<Rightarrow> Inr \<lparr>kind = k, body = bytes_text (raw_member ''body'' ms)\<rparr>)))"

text \<open>A packed envelope as an object.\<close>

definition envelope_json :: "string \<Rightarrow> json option \<Rightarrow> json" where
  "envelope_json k b = JObj ((''kind'', JStr k) # (case b of None \<Rightarrow> [] | Some v \<Rightarrow> [(''body'', v)]))"

definition marshal_body :: "json \<Rightarrow> string + byte list" where
  "marshal_body v = Inr (bytes_text (json_render v))"

definition packed :: "string \<Rightarrow> json option \<Rightarrow> envelope" where
  "packed k b = \<lparr>kind = k, body = (case b of None \<Rightarrow> [] | Some v \<Rightarrow> bytes_text (json_render v))\<rparr>"

lemma pack_packed: "pack marshal_body k b = Inr (packed k b)"
  by (simp add: pack_def marshal_body_def packed_def split: option.split)

definition body_ok :: "json option \<Rightarrow> bool" where
  "body_ok b \<longleftrightarrow> (case b of None \<Rightarrow> True | Some v \<Rightarrow> json_numbers v \<and> json_depth v < max_nesting)"

lemma json_render_nonempty: "json_numbers v \<Longrightarrow> json_render v \<noteq> []"
  using json_render_start by (auto simp: starts_value_def)

lemma key_texts [simp]: "json_quoted ''kind'' = ''kind''" "json_quoted ''body'' = ''body''"
  "replace_invalid ''kind'' = ''kind''" "replace_invalid ''body'' = ''body''"
  "fold_key ''kind'' = ''KIND''" "fold_key ''body'' = ''BODY''"
  by code_simp+

lemma marshal_packed:
  assumes "body_ok b"
  shows "marshal_envelope (packed k b) = Inr (bytes_text (json_render (envelope_json k b)))"
proof (cases b)
  case None
  then show ?thesis by (simp add: marshal_envelope_def packed_def envelope_json_def)
next
  case (Some v)
  with assms have v: "json_numbers v" "json_depth v \<le> max_nesting" by (auto simp: body_ok_def)
  with Some json_render_nonempty [OF v(1)] compact_render [OF v] show ?thesis
    by (simp add: marshal_envelope_def packed_def envelope_json_def)
qed

lemma unmarshal_packed:
  assumes b: "body_ok b"
  shows "unmarshal_envelope (bytes_text (json_render (envelope_json k b))) = Inr (packed (replace_invalid k) b)"
proof -
  let ?ms = "(''kind'', JStr k) # (case b of None \<Rightarrow> [] | Some v \<Rightarrow> [(''body'', v)])"
  have j: "envelope_json k b = JObj ?ms" by (simp add: envelope_json_def)
  have ms: "list_all (\<lambda>(_, v). json_numbers v \<and> json_depth v < max_nesting) ?ms"
    using b by (auto simp: body_ok_def max_nesting_def split: option.splits)
  have "json_numbers (envelope_json k b)" "json_depth (envelope_json k b) \<le> max_nesting"
    using ms b by (auto simp: j list_all_iff body_ok_def max_nesting_def split: option.splits)
  from json_parse_render [OF this] obtain ms' where p: "json_parse (json_render (envelope_json k b)) = Inr (JObj ms')"
    by (simp add: j)
  show ?thesis
    using p [unfolded j] raw_object_render [OF ms] unfolding unmarshal_envelope_def j
    by (cases b) (simp_all add: packed_def raw_str_field_def str_field_def raw_member_def del: json_render.simps)
qed

section \<open>Messages over the wire\<close>

lemma write_all_accepted:
  "write_all encode append_put w es = (w', None) \<Longrightarrow> e \<in> set es \<Longrightarrow> encode e = Inr p \<Longrightarrow> length p \<le> max_message"
  by (induction es arbitrary: w)
    (auto simp: write_envelope_def append_put_def split: sum.splits prod.splits option.splits if_splits)

text \<open>C15: What one side packs and sends, the other receives. For any sequence of kinds (valid
  UTF-8) with bodies that \<open>json.Marshal\<close> can have written, when every write is accepted, reading
  the bytes back, however the transport cuts them into pieces, yields the same envelopes in
  order, each body byte for byte, and then a clean end of file.\<close>
theorem ipc_messages_roundtrip:
  assumes ok: "\<And>k b. (k, b) \<in> set ms \<Longrightarrow> valid_utf8 k \<and> body_ok b"
    and sent: "write_all marshal_envelope append_put [] (map (\<lambda>(k, b). packed k b) ms) = (wire, None)"
    and "bytes_of r = wire" and "ending r = None"
  shows "read_all (Suc (length ms)) unmarshal_envelope r =
    (map (\<lambda>(k, b). packed k b) ms, Some (PrefixRead EOF))"
proof -
  let ?es = "map (\<lambda>(k, b). packed k b) ms"
  have "\<exists>p. marshal_envelope e = Inr p \<and> payload_ok p \<and> unmarshal_envelope p = Inr e" if e: "e \<in> set ?es" for e
  proof -
    from e obtain k b where kb: "(k, b) \<in> set ms" "e = packed k b" by auto
    define p where "p = bytes_text (json_render (envelope_json k b))"
    have "marshal_envelope e = Inr p" "unmarshal_envelope p = Inr e"
      using ok [OF kb(1)] marshal_packed [of b k] unmarshal_packed [of b k]
      by (simp_all add: kb(2) p_def replace_invalid_valid)
    moreover have "p \<noteq> []" by (simp add: p_def envelope_json_def)
    ultimately show ?thesis using write_all_accepted [OF sent e] by (auto simp: payload_ok_def)
  qed
  then show ?thesis
    using ipc_roundtrip [of ?es marshal_envelope unmarshal_envelope r] sent assms(3,4) by simp
qed

definition demo_messages :: "(string \<times> json option) list" where
  "demo_messages = [(''ping'', None), (''run'', Some (JArr [JNum ''1'', JStr ''<a>'']))]"

definition demo_wire :: "byte list" where
  "demo_wire = fst (write_all marshal_envelope append_put [] (map (\<lambda>(k, b). packed k b) demo_messages))"

theorem ipc_messages_roundtrip_witness:
  "read_all 3 unmarshal_envelope \<lparr>chunks = map (\<lambda>b. [b]) demo_wire, ending = None\<rparr> =
    ([\<lparr>kind = ''ping'', body = []\<rparr>,
      \<lparr>kind = ''run'', body = bytes_text (''[1,'' @ [CHR 34, CHR 92] @ ''u003ca'' @ [CHR 92] @ ''u003e'' @ [CHR 34, CHR '']''])\<rparr>],
     Some (PrefixRead EOF))"
proof -
  have u: "valid_utf8 ''ping''" "valid_utf8 ''run''" by (simp_all add: valid_utf8_ascii)
  have n: "valid_number ''1''" by code_simp
  have "body_ok (Some (JArr [JNum ''1'', JStr ''<a>'']))" using n by (simp add: body_ok_def max_nesting_def)
  with u have ok: "valid_utf8 k \<and> body_ok b" if "(k, b) \<in> set demo_messages" for k b
    using that by (auto simp: demo_messages_def body_ok_def [of None])
  have p: "map (\<lambda>(k, b). packed k b) demo_messages =
     [\<lparr>kind = ''ping'', body = []\<rparr>,
      \<lparr>kind = ''run'', body = bytes_text (''[1,'' @ [CHR 34, CHR 92] @ ''u003ca'' @ [CHR 92] @ ''u003e'' @ [CHR 34, CHR '']''])\<rparr>]"
    by code_simp
  have l: "length (json_render (envelope_json k b)) \<le> 60" if "(k, b) \<in> set demo_messages" for k b
  proof -
    have "list_all (\<lambda>(k, b). length (json_render (envelope_json k b)) \<le> 60) demo_messages" by code_simp
    with that show ?thesis by (auto simp: list_all_iff)
  qed
  have "marshal_envelope (packed k b) = Inr (bytes_text (json_render (envelope_json k b))) \<and>
      payload_ok (bytes_text (json_render (envelope_json k b)))" if "(k, b) \<in> set demo_messages" for k b
  proof -
    have "json_render (envelope_json k b) \<noteq> []" by (simp add: envelope_json_def)
    then show ?thesis
      using l [OF that] ok [OF that] marshal_packed [of b k] by (simp add: payload_ok_def max_message_def)
  qed
  then have "list_all2 (\<lambda>e p. marshal_envelope e = Inr p \<and> payload_ok p) (map (\<lambda>(k, b). packed k b) demo_messages)
      (map (\<lambda>(k, b). bytes_text (json_render (envelope_json k b))) demo_messages)"
    by (auto simp: list.rel_map list_all2_same)
  from write_all_frames [OF this, of "[]"]
  have "write_all marshal_envelope append_put [] (map (\<lambda>(k, b). packed k b) demo_messages) = (demo_wire, None)"
    by (simp add: demo_wire_def)
  moreover have "bytes_of \<lparr>chunks = map (\<lambda>b. [b]) demo_wire, ending = None\<rparr> = demo_wire"
    by (simp add: bytes_of_def)
  ultimately show ?thesis
    using ipc_messages_roundtrip [of demo_messages demo_wire "\<lparr>chunks = map (\<lambda>b. [b]) demo_wire, ending = None\<rparr>"] ok
    unfolding p by (simp add: demo_messages_def numeral_3_eq_3)
qed

end
