(* ===== verification/Results.thy ===== *)
theory Results
  imports Prelude "HOL-Library.Multiset"
begin

text \<open>
  More on fallible loops: associativity of binding, and that the order of a loop's input changes
  only the order of its results.
\<close>

lemma result_bind_assoc: "result_bind (result_bind r f) g = result_bind r (\<lambda>x. result_bind (f x) g)"
  by (cases r) simp_all

lemma result_map_mset:
  assumes "mset xs = mset ys" "result_map f xs = Inr zs"
  shows "\<exists>ws. result_map f ys = Inr ws \<and> mset ws = mset zs"
proof -
  let ?g = "\<lambda>x. case f x of Inr y \<Rightarrow> y"
  have ok: "f x = Inr (?g x)" if "x \<in> set xs" for x
  proof -
    have "is_ok (f x)" using result_map_Inr_iff [of f xs] assms(2) that by auto
    then show ?thesis by (auto split: sum.splits)
  qed
  have "zs = map ?g xs" using result_map_total [of xs f ?g] ok assms(2) by auto
  moreover have "result_map f ys = Inr (map ?g ys)"
    using result_map_total [of ys f ?g] ok mset_eq_setD [OF assms(1)] by auto
  ultimately show ?thesis using assms(1) by (metis mset_map)
qed

end
