(* ===== verification/Vendor.thy ===== *)
theory Vendor
  imports ChatClient Results
begin

text \<open>
  What the vendor adapters share. Their stream loops (llm/anthropic, llm/bedrock) assemble a tool
  call per content block: a start opens an accumulator under the block's index, fragments are
  appended to it, and the stop emits the call. The reference machine for that is defined here,
  with what it guarantees under interleaving, as a locale the adapters' own loops interpret. The
  second part is the outcome of a stream and its effect on the connection tracker.
\<close>

section \<open>Tool calls by content block\<close>

record tool_acc =
  acc_id :: string
  acc_name :: string
  acc_input :: string

type_synonym inflight = "int \<rightharpoonup> tool_acc"

definition acc_call :: "tool_acc \<Rightarrow> tool_call" where
  "acc_call a = \<lparr>call_id = acc_id a, call_type = ''function'',
     fn = \<lparr>fn_name = acc_name a, arguments = (if acc_input a = [] then ''{}'' else acc_input a)\<rparr>\<rparr>"

text \<open>The events of a stream as the machine sees them: anything else emits events of its own.\<close>

datatype block_event =
    BlockStart int string string
  | BlockInput int string
  | BlockStop int
  | BlockEmit "event list"

fun block_step :: "block_event \<Rightarrow> inflight \<Rightarrow> inflight \<times> event list" where
  "block_step (BlockStart i d n) m = (m(i \<mapsto> \<lparr>acc_id = d, acc_name = n, acc_input = []\<rparr>), [])"
| "block_step (BlockInput i s) m =
     (case m i of None \<Rightarrow> (m, []) | Some a \<Rightarrow> (m(i \<mapsto> a\<lparr>acc_input := acc_input a @ s\<rparr>), []))"
| "block_step (BlockStop i) m =
     (case m i of None \<Rightarrow> (m, []) | Some a \<Rightarrow> (m(i := None), [ToolCallComplete [acc_call a]]))"
| "block_step (BlockEmit es) m = (m, es)"

fun run_steps :: "('e \<Rightarrow> inflight \<Rightarrow> inflight \<times> event list) \<Rightarrow> 'e list \<Rightarrow> inflight \<Rightarrow> event list" where
  "run_steps step [] m = []"
| "run_steps step (e # es) m = (case step e m of (m', out) \<Rightarrow> out @ run_steps step es m')"

text \<open>The block a machine event belongs to.\<close>

fun block_index :: "block_event \<Rightarrow> int option" where
  "block_index (BlockStart i d n) = Some i"
| "block_index (BlockInput i s) = Some i"
| "block_index (BlockStop i) = Some i"
| "block_index (BlockEmit es) = None"

text \<open>The accumulator of one block, by its own events only.\<close>

fun cell_step :: "tool_acc option \<Rightarrow> block_event \<Rightarrow> tool_acc option" where
  "cell_step c (BlockStart i d n) = Some \<lparr>acc_id = d, acc_name = n, acc_input = []\<rparr>"
| "cell_step c (BlockInput i s) = map_option (\<lambda>a. a\<lparr>acc_input := acc_input a @ s\<rparr>) c"
| "cell_step c (BlockStop i) = None"
| "cell_step c (BlockEmit es) = c"

lemma block_step_cell:
  "fst (block_step e m) i = (if block_index e = Some i then cell_step (m i) e else m i)"
  by (cases e) (auto split: option.splits)

interpretation block_cells: keyed_fold "\<lambda>m e. fst (block_step e m)"
  "\<lambda>m k. case k of None \<Rightarrow> None | Some i \<Rightarrow> m i" block_index cell_step "\<lambda>_. True"
proof unfold_locales
  fix e m k
  show "(case k of None \<Rightarrow> None | Some i \<Rightarrow> fst (block_step e m) i) =
    (if block_index e = k then cell_step (case k of None \<Rightarrow> None | Some i \<Rightarrow> m i) e
     else case k of None \<Rightarrow> None | Some i \<Rightarrow> m i)"
  proof (cases k)
    case None
    then show ?thesis by (cases e) simp_all
  next
    case (Some i)
    then show ?thesis by (simp add: block_step_cell)
  qed
qed

definition inflight_after :: "block_event list \<Rightarrow> inflight \<Rightarrow> inflight" where
  "inflight_after es m = foldl (\<lambda>m e. fst (block_step e m)) m es"

lemma inflight_after_cell:
  "inflight_after es m i = foldl cell_step (m i) (filter (\<lambda>e. block_index e = Some i) es)"
  using block_cells.foldl_cell [of es m "Some i"] by (simp add: inflight_after_def list_all_iff)

lemma run_steps_append:
  "run_steps block_step (es @ es') m = run_steps block_step es m @ run_steps block_step es' (inflight_after es m)"
  by (induction es arbitrary: m) (simp_all add: inflight_after_def split_beta)

lemma fold_inputs:
  "foldl cell_step (Some a) (map (BlockInput i) fs) = Some (a\<lparr>acc_input := acc_input a @ concat fs\<rparr>)"
  by (induction fs arbitrary: a) simp_all

text \<open>The machine emits nothing that ends a stream, and no empty list of calls.\<close>

definition plain_emission :: "block_event \<Rightarrow> bool" where
  "plain_emission e = (case e of BlockEmit es \<Rightarrow> list_all (\<lambda>x. \<not> terminal_event x \<and> x \<noteq> ToolCallComplete []) es | _ \<Rightarrow> True)"

lemma block_step_plain:
  "plain_emission e \<Longrightarrow> list_all (\<lambda>x. \<not> terminal_event x \<and> x \<noteq> ToolCallComplete []) (snd (block_step e m))"
  by (cases e) (auto simp: plain_emission_def split: option.splits)

lemma run_steps_plain:
  "list_all plain_emission es \<Longrightarrow>
     list_all (\<lambda>x. \<not> terminal_event x \<and> x \<noteq> ToolCallComplete []) (run_steps block_step es m)"
proof (induction es arbitrary: m)
  case (Cons e es)
  then show ?case using block_step_plain [of e m] by (simp add: split_beta)
qed simp

text \<open>An adapter's loop is the machine behind a reading of its own events.\<close>

locale block_stream =
  fixes step :: "'e \<Rightarrow> inflight \<Rightarrow> inflight \<times> event list" and kind :: "'e \<Rightarrow> block_event"
  assumes step_kind: "step e m = block_step (kind e) m"
    and kind_plain: "plain_emission (kind e)"
begin

lemma run_kind: "run_steps step es m = run_steps block_step (map kind es) m"
  by (induction es arbitrary: m) (simp_all add: step_kind split_beta)

lemma run_plain: "list_all (\<lambda>x. \<not> terminal_event x \<and> x \<noteq> ToolCallComplete []) (run_steps step es m)"
  unfolding run_kind by (rule run_steps_plain) (simp add: list_all_iff kind_plain)

lemma block_closed:
  assumes "filter (\<lambda>e. block_index (kind e) = Some i) pre = st # ins" "kind st = BlockStart i d n"
    "map kind ins = map (BlockInput i) fs" "kind stop = BlockStop i"
  shows "\<exists>rest. run_steps step (pre @ stop # post) Map.empty =
    run_steps step pre Map.empty @
    ToolCallComplete [\<lparr>call_id = d, call_type = ''function'',
      fn = \<lparr>fn_name = n, arguments = (if concat fs = [] then ''{}'' else concat fs)\<rparr>\<rparr>] # rest"
proof -
  have "filter (\<lambda>e. block_index e = Some i) (map kind pre) = map kind (filter (\<lambda>e. block_index (kind e) = Some i) pre)"
    by (simp add: filter_map o_def)
  also have "\<dots> = BlockStart i d n # map (BlockInput i) fs" using assms(1-3) by simp
  finally have "inflight_after (map kind pre) Map.empty i = Some \<lparr>acc_id = d, acc_name = n, acc_input = concat fs\<rparr>"
    by (simp add: inflight_after_cell fold_inputs)
  then show ?thesis
    by (simp add: run_kind run_steps_append assms(4) acc_call_def)
qed

end

section \<open>Histories with batched tool results\<close>

text \<open>
  Converse and Gemini have no role for tool results: the adapters collect consecutive results and
  flush them as one user turn (llm/bedrock, llm/vertex). A message contributes system texts, a
  turn, or one result to the round being collected.
\<close>

record ('s, 'b) history =
  hist_system :: "'s list"
  hist_messages :: "(string \<times> 'b list) list"
  hist_pending :: "'b list"

definition no_history :: "('s, 'b) history" where
  "no_history = \<lparr>hist_system = [], hist_messages = [], hist_pending = []\<rparr>"

definition flush :: "('s, 'b) history \<Rightarrow> ('s, 'b) history" where
  "flush h = (if hist_pending h = [] then h
     else h\<lparr>hist_messages := hist_messages h @ [(''user'', hist_pending h)], hist_pending := []\<rparr>)"

datatype ('s, 'b) contribution = Skipped | Systems "'s list" | Turn string "'b list" | Result 'b

text \<open>A turn without blocks is left out, after the flush.\<close>

fun contribute :: "('s, 'b) contribution \<Rightarrow> ('s, 'b) history \<Rightarrow> ('s, 'b) history" where
  "contribute Skipped h = h"
| "contribute (Systems ss) h = h\<lparr>hist_system := hist_system h @ ss\<rparr>"
| "contribute (Turn r bs) h =
     (if bs = [] then flush h
      else (flush h)\<lparr>hist_messages := hist_messages (flush h) @ [(r, bs)]\<rparr>)"
| "contribute (Result b) h = h\<lparr>hist_pending := hist_pending h @ [b]\<rparr>"

fun batch_loop :: "('m \<Rightarrow> 'e + ('s, 'b) contribution) \<Rightarrow> 'm list \<Rightarrow> ('s, 'b) history \<Rightarrow> 'e + ('s, 'b) history" where
  "batch_loop f [] h = Inr (flush h)"
| "batch_loop f (m # ms) h = result_bind (f m) (\<lambda>c. batch_loop f ms (contribute c h))"

fun blocks_in :: "('s, 'b) contribution \<Rightarrow> 'b list" where
  "blocks_in (Turn r bs) = bs"
| "blocks_in (Result b) = [b]"
| "blocks_in _ = []"

fun systems_in :: "('s, 'b) contribution \<Rightarrow> 's list" where
  "systems_in (Systems ss) = ss"
| "systems_in _ = []"

definition sent_blocks :: "(string \<times> 'b list) list \<Rightarrow> 'b list" where
  "sent_blocks ms = concat (map snd ms)"

lemma sent_blocks_simps [simp]:
  "sent_blocks [] = []" "sent_blocks (x @ y) = sent_blocks x @ sent_blocks y" "sent_blocks (m # ms) = snd m @ sent_blocks ms"
  by (simp_all add: sent_blocks_def)

text \<open>All blocks so far, those of the round being collected last.\<close>

definition hist_blocks :: "('s, 'b) history \<Rightarrow> 'b list" where
  "hist_blocks h = sent_blocks (hist_messages h) @ hist_pending h"

lemma flush_facts [simp]:
  "hist_blocks (flush h) = hist_blocks h" "hist_pending (flush h) = []" "hist_system (flush h) = hist_system h"
  "flush (flush h) = flush h"
  by (simp_all add: hist_blocks_def flush_def)

lemma hist_blocks_updates [simp]:
  "hist_pending h = [] \<Longrightarrow> hist_blocks (h\<lparr>hist_messages := hist_messages h @ [(r, bs)]\<rparr>) = hist_blocks h @ bs"
  "hist_blocks (h\<lparr>hist_pending := hist_pending h @ rs\<rparr>) = hist_blocks h @ rs"
  "hist_blocks (h\<lparr>hist_system := ss\<rparr>) = hist_blocks h"
  by (simp_all add: hist_blocks_def)

lemma contribute_facts:
  "hist_blocks (contribute c h) = hist_blocks h @ blocks_in c" "hist_system (contribute c h) = hist_system h @ systems_in c"
  by (cases c, simp_all)+

lemma batch_loop_kept:
  "batch_loop f ms h = Inr h' \<Longrightarrow> \<exists>cs. result_map f ms = Inr cs \<and> hist_pending h' = [] \<and>
     hist_blocks h' = hist_blocks h @ concat (map blocks_in cs) \<and>
     hist_system h' = hist_system h @ concat (map systems_in cs)"
proof (induction ms arbitrary: h)
  case Nil
  then show ?case by auto
next
  case (Cons m ms)
  then obtain c where c: "f m = Inr c" "batch_loop f ms (contribute c h) = Inr h'"
    by (auto simp: result_bind_Inr)
  from Cons.IH [OF c(2)] c(1) show ?case by (auto simp: contribute_facts)
qed

text \<open>
  Blocks that are results come only from result contributions, and turns only have the roles the
  API knows; then every message sent is a turn of one of these roles without results, or a user
  turn of results only, and none is empty.
\<close>

locale batching =
  fixes contrib :: "'m \<Rightarrow> 'e + ('s, 'b) contribution" and is_result :: "'b \<Rightarrow> bool" and roles :: "string list"
  assumes result_is: "contrib m = Inr (Result b) \<Longrightarrow> is_result b"
    and turn_is: "contrib m = Inr (Turn r bs) \<Longrightarrow> r \<in> set roles \<and> list_all (\<lambda>b. \<not> is_result b) bs"
begin

definition message_ok :: "string \<times> 'b list \<Rightarrow> bool" where
  "message_ok m \<longleftrightarrow> snd m \<noteq> [] \<and> (fst m = ''user'' \<and> list_all is_result (snd m) \<or>
     fst m \<in> set roles \<and> list_all (\<lambda>b. \<not> is_result b) (snd m))"

definition history_ok :: "('s, 'b) history \<Rightarrow> bool" where
  "history_ok h \<longleftrightarrow> list_all message_ok (hist_messages h) \<and> list_all is_result (hist_pending h)"

lemma flush_ok: "history_ok h \<Longrightarrow> history_ok (flush h)"
  by (simp add: history_ok_def flush_def message_ok_def)

lemma contribute_ok:
  assumes "contrib m = Inr c" "history_ok h"
  shows "history_ok (contribute c h)"
proof (cases c)
  case (Turn r bs)
  then show ?thesis using flush_ok [OF assms(2)] turn_is assms(1) by (simp add: history_ok_def message_ok_def)
next
  case (Result b)
  then show ?thesis using result_is assms by (simp add: history_ok_def)
qed (use assms in \<open>simp_all add: history_ok_def\<close>)

lemma batch_loop_ok: "batch_loop contrib ms h = Inr h' \<Longrightarrow> history_ok h \<Longrightarrow> history_ok h'"
proof (induction ms arbitrary: h)
  case Nil
  then show ?case using flush_ok by auto
next
  case (Cons m ms)
  then show ?case using contribute_ok by (fastforce simp: result_bind_Inr)
qed

lemma sent_ok: "batch_loop contrib ms no_history = Inr h \<Longrightarrow> list_all message_ok (hist_messages h)"
  using batch_loop_ok [of ms no_history h] by (simp add: history_ok_def no_history_def)

end

text \<open>
  A run of result contributions becomes one user turn with the results in order, when what
  follows flushes: the end of the history, or a turn.
\<close>

lemma batch_loop_results:
  "list_all (\<lambda>m. f m = map_sum id Result (g m)) ts \<Longrightarrow>
     batch_loop f (ts @ rest) h =
       result_bind (result_map g ts) (\<lambda>rs. batch_loop f rest (h\<lparr>hist_pending := hist_pending h @ rs\<rparr>))"
proof (induction ts arbitrary: h)
  case (Cons t ts)
  then show ?case by (cases "g t"; cases "result_map g ts") auto
qed simp

lemma batch_loop_flush:
  "rest = [] \<or> (\<exists>c. f (hd rest) = Inr c \<and> contribute c (flush h) = contribute c h) \<or> (\<exists>e. f (hd rest) = Inl e) \<Longrightarrow>
     batch_loop f rest (flush h) = batch_loop f rest h"
  by (cases rest) auto

lemma batch_loop_round:
  assumes "ts \<noteq> []" "list_all (\<lambda>m. f m = map_sum id Result (g m)) ts" "hist_pending h = []"
    "rest = [] \<or> (\<exists>r bs. f (hd rest) = Inr (Turn r bs)) \<or> (\<exists>e. f (hd rest) = Inl e)"
  shows "batch_loop f (ts @ rest) h =
    result_bind (result_map g ts) (\<lambda>rs.
      batch_loop f rest (h\<lparr>hist_messages := hist_messages h @ [(''user'', rs)]\<rparr>))"
proof (cases "result_map g ts")
  case (Inr rs)
  then have "rs \<noteq> []" using result_map_length [OF Inr] assms(1) by auto
  then have "flush (h\<lparr>hist_pending := rs\<rparr>) = h\<lparr>hist_messages := hist_messages h @ [(''user'', rs)]\<rparr>"
    using assms(3) by (cases h) (simp add: flush_def)
  moreover have "batch_loop f rest (flush (h\<lparr>hist_pending := rs\<rparr>)) = batch_loop f rest (h\<lparr>hist_pending := rs\<rparr>)"
    using assms(4) by (intro batch_loop_flush) auto
  ultimately show ?thesis using Inr assms(3) by (simp add: batch_loop_results [OF assms(2)])
qed (simp add: batch_loop_results [OF assms(2)])

section \<open>The outcome of a stream\<close>

text \<open>\<open>FriendlyHTTPError\<close> of an error that is there.\<close>

definition friendly_error :: "string \<Rightarrow> go_error \<Rightarrow> go_error" where
  "friendly_error label e = (case friendly_http_error label [] (Some e) of Some f \<Rightarrow> f | None \<Rightarrow> e)"

text \<open>
  A transport failure moves the tracker to Disconnected; the edge into it starts the adapter's
  probe. The result is the tracker and whether the probe was started.
\<close>

definition note_failure :: "nat \<Rightarrow> go_error \<Rightarrow> tracker \<Rightarrow> tracker \<times> bool" where
  "note_failure now e t =
     (if classify e \<noteq> [] then
        (case tracker_set now StateDisconnected t of (t', prev) \<Rightarrow> (t', prev \<noteq> StateDisconnected))
      else (t, False))"

lemma note_failure_spec:
  "classify e \<noteq> [] \<Longrightarrow> conn (fst (note_failure now e t)) = StateDisconnected"
  "snd (note_failure now e t) \<longleftrightarrow> classify e \<noteq> [] \<and> conn t \<noteq> StateDisconnected"
  "classify e = [] \<Longrightarrow> fst (note_failure now e t) = t"
  by (auto simp: note_failure_def tracker_set_def)

text \<open>
  The probe of an adapter without a cheap ping: the claim is held for one interval. The result is
  the tracker while it sleeps and how long it sleeps, \<open>None\<close> when another probe holds the claim.
\<close>

definition hold_claim :: "int \<Rightarrow> tracker \<Rightarrow> tracker \<times> int option" where
  "hold_claim configured t =
     (case claim_probe t of (t', True) \<Rightarrow> (t', Some (probe_interval configured)) | (t', False) \<Rightarrow> (t', None))"

text \<open>The guardrail trace setting, trimmed and in lower case, with its default.\<close>

definition trace_runes :: "string \<Rightarrow> nat list" where
  "trace_runes trace =
     (let t = lower_runes (trim_space trace) in if t = [] then rune_text ''enabled'' else t)"

section \<open>The SDK client\<close>

text \<open>
  A client builds its vendor's SDK client when the first chat needs it and keeps it. The clients of
  llm/anthropic keep one that was built; those of llm/bedrock and llm/vertex build under a
  \<open>sync.Once\<close> and keep the result of the attempt. \<open>build\<close> is what building would give now.
\<close>

definition lazy_sdk :: "'e + 'k \<Rightarrow> 'k option \<Rightarrow> ('e + 'k) \<times> 'k option" where
  "lazy_sdk build cached =
     (case cached of
        Some k \<Rightarrow> (Inr k, Some k)
      | None \<Rightarrow> (case build of Inl e \<Rightarrow> (Inl e, None) | Inr k \<Rightarrow> (Inr k, Some k)))"

definition once_sdk :: "'e + 'k \<Rightarrow> ('e + 'k) option \<Rightarrow> ('e + 'k) \<times> ('e + 'k) option" where
  "once_sdk build attempt = (case attempt of Some r \<Rightarrow> (r, Some r) | None \<Rightarrow> (build, Some build))"

text \<open>What the AWS configuration is loaded with; an empty setting is left to the default chain.\<close>

datatype aws_load_option = WithRegion string | WithSharedConfigProfile string

definition load_options :: "string \<Rightarrow> string \<Rightarrow> aws_load_option list" where
  "load_options region profile =
     (if region \<noteq> [] then [WithRegion region] else []) @
     (if profile \<noteq> [] then [WithSharedConfigProfile profile] else [])"

text \<open>
  A turn of a client whose probe only holds the claim: how long the probe started by it sleeps.
\<close>

definition settle :: "int \<Rightarrow> tracker \<times> bool \<Rightarrow> tracker \<times> int option" where
  "settle interval r = (case r of (t, spawn) \<Rightarrow> if spawn then hold_claim interval t else (t, None))"

text \<open>The contract: a client that was handed out is handed out from then on.\<close>

locale kept_client =
  fixes get :: "'e + 'k \<Rightarrow> 's \<Rightarrow> ('e + 'k) \<times> 's"
  assumes kept: "get b s = (Inr k, s') \<Longrightarrow> get b' s' = (Inr k, s')"
begin

fun answers :: "('e + 'k) list \<Rightarrow> 's \<Rightarrow> ('e + 'k) list" where
  "answers [] s = []"
| "answers (b # bs) s = (case get b s of (r, s') \<Rightarrow> r # answers bs s')"

lemma answers_kept: "get b s = (Inr k, s') \<Longrightarrow> answers bs s' = replicate (length bs) (Inr k)"
  by (induction bs) (auto simp: kept)

lemma answers_after: "answers bs s = pre @ Inr k # post \<Longrightarrow> set post \<subseteq> {Inr k}"
proof (induction bs arbitrary: s pre)
  case (Cons b bs)
  obtain r s' where g: "get b s = (r, s')" by fastforce
  show ?case
  proof (cases pre)
    case Nil
    then have "r = Inr k" "post = answers bs s'" using Cons.prems g by auto
    then show ?thesis using answers_kept [of b s k s' bs] g by auto
  next
    case (Cons p ps)
    then show ?thesis using Cons.IH [of s' ps] Cons.prems g by auto
  qed
qed simp

end

interpretation lazy_client: kept_client lazy_sdk
  by unfold_locales (auto simp: lazy_sdk_def split: option.splits sum.splits)

interpretation once_client: kept_client once_sdk
  by unfold_locales (auto simp: once_sdk_def split: option.splits)

text \<open>An attempt is repeated until one succeeds; under the \<open>sync.Once\<close> it never is.\<close>

lemma lazy_answers:
  "lazy_client.answers bs None =
     (case dropWhile (\<lambda>b. \<not> is_ok b) bs of
        [] \<Rightarrow> bs
      | b # rest \<Rightarrow> takeWhile (\<lambda>b. \<not> is_ok b) bs @ b # replicate (length rest) b)"
proof (induction bs)
  case (Cons b bs)
  show ?case
  proof (cases b)
    case (Inl e)
    then have "lazy_sdk b None = (Inl e, None)" by (simp add: lazy_sdk_def)
    with Cons.IH Inl show ?thesis by (cases "dropWhile (\<lambda>b. \<not> is_ok b) bs") (simp_all del: dropWhile_eq_Nil_conv)
  next
    case (Inr k)
    then have g: "lazy_sdk b None = (Inr k, Some k)" by (simp add: lazy_sdk_def)
    show ?thesis using lazy_client.answers_kept [OF g, of bs] g Inr by simp
  qed
qed simp

lemma once_sdk_simps [simp]: "once_sdk b None = (b, Some b)" "once_sdk b (Some r) = (r, Some r)"
  by (simp_all add: once_sdk_def)

lemma once_answers: "once_client.answers bs None = (case bs of [] \<Rightarrow> [] | b # _ \<Rightarrow> replicate (length bs) b)"
proof -
  have "once_client.answers xs (Some r) = replicate (length xs) r" for xs and r :: "'a + 'b"
    by (induction xs) simp_all
  then show ?thesis by (simp split: list.split)
qed

text \<open>A session: the turns of one client in order, and their replies.\<close>

fun session :: "('i \<Rightarrow> 's \<Rightarrow> 'r \<times> 's \<times> 'x) \<Rightarrow> 'i list \<Rightarrow> 's \<Rightarrow> 'r list \<times> 's" where
  "session f [] s = ([], s)"
| "session f (i # is) s =
     (case f i s of (r, s', x) \<Rightarrow> case session f is s' of (rs, s'') \<Rightarrow> (r # rs, s''))"

lemma session_fixed:
  assumes "\<And>i. \<exists>x. f i s = (g i, s, x)"
  shows "session f is s = (map g is, s)"
proof (induction "is")
  case (Cons i "is")
  obtain x where "f i s = (g i, s, x)" using assms by blast
  with Cons show ?case by simp
qed simp

end
