(* ===== verification/Anthropic.thy ===== *)
theory Anthropic
  imports Vendor Registry
begin

text \<open>
  The Anthropic adapter of llm/anthropic/anthropic.go: translation of a chat request to the
  Messages API, and the extended-thinking and prompt-caching layers, which its clients on Vertex
  and Bedrock (anthropic_vertex.go, anthropic_bedrock.go) share.
  The types of the vendor's SDK are the free data of what the adapter passes to it: one
  constructor for each builder it calls. JSON text is parsed by an argument.
\<close>

section \<open>Parameters of the Messages API\<close>

datatype result_content = ResultText string | ResultImage string string

datatype content_block =
    TextBlock string
  | ImageBase64 string string
  | ImageURL string
  | DocumentBase64 string
  | DocumentURL string
  | ToolUseBlock string json string
  | ToolResultString string string
  | ToolResultParts string "result_content list"

datatype anthropic_error =
    UnsupportedRole string
  | ImageWithoutSource
  | DocumentWithoutSource
  | UnknownPart string
  | ArgumentsNotJSON string json_error
  | ResultImageWithoutData
  | ResultPartUnsupported string
  | RequiredNotString string nat
  | RequiredNotArray string

text \<open>A message's role and blocks; a block carries whether a cache marker was set on it.\<close>

record message_param =
  mp_role :: string
  mp_content :: "(content_block \<times> bool) list"

record input_schema =
  properties :: "json option"
  required :: "string list"
  extra_fields :: "(string \<times> json) list"

record tool_param =
  tp_name :: string
  tp_description :: "string option"
  tp_schema :: input_schema
  tp_marked :: bool

record message_params =
  mps_model :: string
  mps_max_tokens :: int
  mps_system :: "(string \<times> bool) list"
  mps_messages :: "message_param list"
  mps_tools :: "tool_param list"
  mps_temperature :: "rat option"
  mps_top_p :: "rat option"
  mps_top_k :: "int option"
  mps_thinking :: "int option"

section \<open>Messages\<close>

definition anthropic_block :: "message_part \<Rightarrow> anthropic_error + content_block" where
  "anthropic_block p =
     (if part_type p = ''text'' then Inr (TextBlock (part_text p))
      else if part_type p = ''image'' then
        (if part_data p \<noteq> [] then Inr (ImageBase64 (mime_type p) (b64_encode (part_data p)))
         else if part_uri p \<noteq> [] then Inr (ImageURL (part_uri p))
         else Inl ImageWithoutSource)
      else if part_type p = ''document'' then
        (if part_data p \<noteq> [] then Inr (DocumentBase64 (b64_encode (part_data p)))
         else if part_uri p \<noteq> [] then Inr (DocumentURL (part_uri p))
         else Inl DocumentWithoutSource)
      else Inl (UnknownPart (part_type p)))"

definition leading_text :: "message \<Rightarrow> content_block list" where
  "leading_text m = (if content m \<noteq> [] then [TextBlock (content m)] else [])"

definition user_blocks :: "message \<Rightarrow> anthropic_error + content_block list" where
  "user_blocks m =
     (if parts m = [] then
        (if content m = [] then Inr [] else Inr [TextBlock (content m)])
      else result_bind (result_map anthropic_block (parts m)) (\<lambda>bs. Inr (leading_text m @ bs)))"

definition tool_use_block :: "(string \<Rightarrow> json_error + json) \<Rightarrow> tool_call \<Rightarrow> anthropic_error + content_block" where
  "tool_use_block parse tc =
     (let args = trim_space (arguments (fn tc)) in
      if args = [] then Inr (ToolUseBlock (call_id tc) (JObj []) (fn_name (fn tc)))
      else case parse args of
             Inl e \<Rightarrow> Inl (ArgumentsNotJSON (fn_name (fn tc)) e)
           | Inr j \<Rightarrow> Inr (ToolUseBlock (call_id tc) (json_any j) (fn_name (fn tc))))"

definition assistant_blocks :: "(string \<Rightarrow> json_error + json) \<Rightarrow> message \<Rightarrow> anthropic_error + content_block list" where
  "assistant_blocks parse m =
     result_bind (result_map anthropic_block (parts m)) (\<lambda>bs.
     result_bind (result_map (tool_use_block parse) (tool_calls m)) (\<lambda>ts.
       Inr (leading_text m @ bs @ ts)))"

definition result_part :: "message_part \<Rightarrow> anthropic_error + result_content" where
  "result_part p =
     (if part_type p = ''text'' then Inr (ResultText (part_text p))
      else if part_type p = ''image'' then
        (if part_data p = [] then Inl ResultImageWithoutData
         else Inr (ResultImage (mime_type p) (b64_encode (part_data p))))
      else Inl (ResultPartUnsupported (part_type p)))"

definition tool_result_block :: "message \<Rightarrow> anthropic_error + content_block" where
  "tool_result_block m =
     (if parts m = [] then Inr (ToolResultString (tool_call_id m) (content m))
      else result_bind (result_map result_part (parts m)) (\<lambda>cs.
        Inr (ToolResultParts (tool_call_id m)
          ((if content m \<noteq> [] then [ResultText (content m)] else []) @ cs))))"

text \<open>The texts a system message contributes.\<close>

definition system_texts :: "message \<Rightarrow> string list" where
  "system_texts m =
     (if content m \<noteq> [] then [content m] else []) @
     map part_text (filter (\<lambda>p. part_type p = ''text'' \<and> part_text p \<noteq> []) (parts m))"

definition turn :: "string \<Rightarrow> content_block list \<Rightarrow> message_param list" where
  "turn r bs = (if bs = [] then [] else [\<lparr>mp_role = r, mp_content = map (\<lambda>b. (b, False)) bs\<rparr>])"

text \<open>\<open>splitSystem\<close>: the system texts and the turns, one message after the other.\<close>

fun split_system :: "(string \<Rightarrow> json_error + json) \<Rightarrow> message list \<Rightarrow>
    anthropic_error + string list \<times> message_param list" where
  "split_system parse [] = Inr ([], [])"
| "split_system parse (m # ms) =
     (if role m = ''system'' then
        result_bind (split_system parse ms) (\<lambda>(sys, out). Inr (system_texts m @ sys, out))
      else if role m = ''user'' then
        result_bind (user_blocks m) (\<lambda>bs.
        result_bind (split_system parse ms) (\<lambda>(sys, out). Inr (sys, turn ''user'' bs @ out)))
      else if role m = ''assistant'' then
        result_bind (assistant_blocks parse m) (\<lambda>bs.
        result_bind (split_system parse ms) (\<lambda>(sys, out). Inr (sys, turn ''assistant'' bs @ out)))
      else if role m = ''tool'' then
        result_bind (tool_result_block m) (\<lambda>b.
        result_bind (split_system parse ms) (\<lambda>(sys, out). Inr (sys, turn ''user'' [b] @ out)))
      else Inl (UnsupportedRole (role m)))"

section \<open>Tools\<close>

definition to_string_slice :: "string \<Rightarrow> json \<Rightarrow> anthropic_error + string list" where
  "to_string_slice t v =
     (case v of
        JNull \<Rightarrow> Inr []
      | JArr xs \<Rightarrow>
          (case filter (\<lambda>i. \<not> is_jstr (xs ! i)) [0..<length xs] of
             [] \<Rightarrow> Inr (map jstr xs)
           | i # _ \<Rightarrow> Inl (RequiredNotString t i))
      | _ \<Rightarrow> Inl (RequiredNotArray t))"

definition empty_schema :: input_schema where
  "empty_schema = \<lparr>properties = None, required = [], extra_fields = []\<rparr>"

fun schema_loop :: "string \<Rightarrow> (string \<times> json) list \<Rightarrow> input_schema \<Rightarrow> anthropic_error + input_schema" where
  "schema_loop t [] s = Inr s"
| "schema_loop t ((k, v) # ms) s =
     (if k = ''type'' then schema_loop t ms s
      else if k = ''properties'' then schema_loop t ms (s\<lparr>properties := Some v\<rparr>)
      else if k = ''required'' then
        result_bind (to_string_slice t v) (\<lambda>r. schema_loop t ms (s\<lparr>required := r\<rparr>))
      else schema_loop t ms (s\<lparr>extra_fields := extra_fields s @ [(k, v)]\<rparr>))"

definition anthropic_schema :: "string \<Rightarrow> json \<Rightarrow> anthropic_error + input_schema" where
  "anthropic_schema t params =
     (case params of JObj ms \<Rightarrow> schema_loop t ms empty_schema | _ \<Rightarrow> Inr empty_schema)"

definition anthropic_tool :: "tool_def \<Rightarrow> anthropic_error + tool_param" where
  "anthropic_tool d =
     result_bind (anthropic_schema (def_name d) (def_params d)) (\<lambda>s.
       Inr \<lparr>tp_name = def_name d, tp_description = (if def_desc d = [] then None else Some (def_desc d)),
            tp_schema = s, tp_marked = False\<rparr>)"

section \<open>Requests\<close>

definition to_anthropic_params :: "(string \<Rightarrow> json_error + json) \<Rightarrow> chat_request \<Rightarrow> string \<Rightarrow> int \<Rightarrow>
    anthropic_error + message_params" where
  "to_anthropic_params parse r model max_toks =
     result_bind (split_system parse (filter_for_request (req_messages r))) (\<lambda>(sys, msgs).
     result_bind (result_map anthropic_tool (req_tools r)) (\<lambda>ts.
       Inr \<lparr>mps_model = model, mps_max_tokens = max_toks, mps_system = map (\<lambda>t. (t, False)) sys,
            mps_messages = msgs, mps_tools = ts,
            mps_temperature = (if req_temperature r \<noteq> 0 then Some (req_temperature r) else None),
            mps_top_p = (if req_top_p r \<noteq> 0 then Some (req_top_p r) else None),
            mps_top_k = (if req_top_k r \<noteq> 0 then Some (req_top_k r) else None),
            mps_thinking = None\<rparr>))"

definition mark_last :: "('a \<times> bool) list \<Rightarrow> ('a \<times> bool) list" where
  "mark_last xs = (if xs = [] then [] else butlast xs @ [(fst (last xs), True)])"

definition max_markers :: nat where "max_markers = 4"

text \<open>
  The markers on messages: the loop over the last \<open>n\<close> messages. A message without blocks is
  passed over, and so is a last block whose kind the SDK gives no cache control, which
  \<open>markable\<close> tells.
\<close>

fun mark_tail :: "(content_block \<Rightarrow> bool) \<Rightarrow> nat \<Rightarrow> message_param list \<Rightarrow> message_param list" where
  "mark_tail markable 0 ms = ms"
| "mark_tail markable (Suc n) ms =
     (if ms = [] then []
      else mark_tail markable n (butlast ms) @
        [if mp_content (last ms) \<noteq> [] \<and> markable (fst (last (mp_content (last ms))))
         then (last ms)\<lparr>mp_content := mark_last (mp_content (last ms))\<rparr> else last ms])"

definition apply_caching :: "(content_block \<Rightarrow> bool) \<Rightarrow> message_params \<Rightarrow> message_params" where
  "apply_caching markable p =
     (let used = (if mps_system p \<noteq> [] then 1 else 0) + (if mps_tools p \<noteq> [] then 1 else 0);
          remaining = min (max_markers - used) 2
      in p\<lparr>mps_system := mark_last (mps_system p),
           mps_tools := (if mps_tools p = [] then []
             else butlast (mps_tools p) @ [(last (mps_tools p))\<lparr>tp_marked := True\<rparr>]),
           mps_messages := mark_tail markable remaining (mps_messages p)\<rparr>)"

text \<open>The thinking budget; int64 arithmetic wraps in \<open>maxTokens - 1\<close>.\<close>

definition thinking_tokens :: "int \<Rightarrow> int \<Rightarrow> int" where
  "thinking_tokens configured max_toks =
     (let b = (if configured = 0 then 4096 else configured);
          b = (if b < 1024 then 1024 else b)
      in if max_toks \<le> b then wrap64 (max_toks - 1) else b)"

definition apply_thinking :: "int \<Rightarrow> int \<Rightarrow> message_params \<Rightarrow> message_params" where
  "apply_thinking configured max_toks p =
     p\<lparr>mps_thinking := Some (thinking_tokens configured max_toks), mps_temperature := Some 1,
       mps_top_p := None, mps_top_k := None\<rparr>"

definition build_params :: "(string \<Rightarrow> json_error + json) \<Rightarrow> (content_block \<Rightarrow> bool) \<Rightarrow> chat_request \<Rightarrow> string \<Rightarrow>
    int \<Rightarrow> bool \<Rightarrow> int \<Rightarrow> bool \<Rightarrow> anthropic_error + message_params" where
  "build_params parse markable r model max_toks think budget caching =
     result_bind (to_anthropic_params parse r model max_toks) (\<lambda>p.
       let p = (if caching then apply_caching markable p else p)
       in Inr (if think then apply_thinking budget max_toks p else p))"

text \<open>The clients share the request; a zero cap means 8192 tokens.\<close>

record anthropic_client =
  ac_model :: string
  ac_max_tokens :: int
  ac_thinking :: bool
  ac_budget :: int
  ac_caching :: bool

definition client_max_tokens :: "anthropic_client \<Rightarrow> int" where
  "client_max_tokens c = (if ac_max_tokens c = 0 then 8192 else ac_max_tokens c)"

definition client_params :: "(string \<Rightarrow> json_error + json) \<Rightarrow> (content_block \<Rightarrow> bool) \<Rightarrow> anthropic_client \<Rightarrow>
    chat_request \<Rightarrow> anthropic_error + message_params" where
  "client_params parse markable c r =
     build_params parse markable r (ac_model c) (client_max_tokens c) (ac_thinking c) (ac_budget c) (ac_caching c)"

section \<open>What the translation keeps\<close>

text \<open>The blocks and turns one message contributes; \<open>split_system\<close> is their concatenation.\<close>

definition turns_of :: "(string \<Rightarrow> json_error + json) \<Rightarrow> message \<Rightarrow> anthropic_error + message_param list" where
  "turns_of parse m =
     (if role m = ''system'' then Inr []
      else if role m = ''user'' then result_bind (user_blocks m) (\<lambda>bs. Inr (turn ''user'' bs))
      else if role m = ''assistant'' then result_bind (assistant_blocks parse m) (\<lambda>bs. Inr (turn ''assistant'' bs))
      else if role m = ''tool'' then result_bind (tool_result_block m) (\<lambda>b. Inr (turn ''user'' [b]))
      else Inl (UnsupportedRole (role m)))"

lemma split_system_Cons:
  "split_system parse (m # ms) =
     result_bind (turns_of parse m) (\<lambda>t. result_bind (split_system parse ms) (\<lambda>(sys, out).
       Inr ((if role m = ''system'' then system_texts m else []) @ sys, t @ out)))"
  by (simp add: turns_of_def result_bind_assoc)

lemma split_system_turns:
  "split_system parse ms =
     result_bind (result_map (turns_of parse) ms) (\<lambda>ts.
       Inr (concat (map system_texts (filter (\<lambda>m. role m = ''system'') ms)), concat ts))"
proof (induction ms)
  case (Cons m ms)
  show ?case
    unfolding split_system_Cons Cons
    by (cases "turns_of parse m"; cases "result_map (turns_of parse) ms") simp_all
qed simp

lemma turn_blocks: "mp \<in> set (turn r bs) \<Longrightarrow> mp_role mp = r \<and> mp_content mp \<noteq> []"
  by (simp add: turn_def split: if_splits)

lemma turns_of_shape:
  "turns_of parse m = Inr ts \<Longrightarrow> length ts \<le> 1 \<and> (\<forall>mp \<in> set ts. mp_content mp \<noteq> [] \<and>
     mp_role mp = (if role m = ''assistant'' then ''assistant'' else ''user''))"
  by (auto simp: turns_of_def result_bind_Inr turn_def split: if_splits)

subsection \<open>Cache markers\<close>

definition erase_marks :: "message_params \<Rightarrow> message_params" where
  "erase_marks p = p\<lparr>mps_system := map (\<lambda>(t, _). (t, False)) (mps_system p),
     mps_tools := map (\<lambda>t. t\<lparr>tp_marked := False\<rparr>) (mps_tools p),
     mps_messages := map (\<lambda>m. m\<lparr>mp_content := map (\<lambda>(b, _). (b, False)) (mp_content m)\<rparr>) (mps_messages p)\<rparr>"

definition count_marks :: "message_params \<Rightarrow> nat" where
  "count_marks p = length (filter snd (mps_system p)) + length (filter tp_marked (mps_tools p)) +
     sum_list (map (\<lambda>m. length (filter snd (mp_content m))) (mps_messages p))"

definition unmarked :: "('a \<times> bool) list \<Rightarrow> bool" where
  "unmarked xs = list_all (\<lambda>x. \<not> snd x) xs"

lemma unmarked_erase: "unmarked xs \<Longrightarrow> map (\<lambda>(b, _). (b, False)) xs = xs"
  by (induction xs) (auto simp: unmarked_def)

lemma mark_last_erase: "map (\<lambda>(b, _). (b, False)) (mark_last xs) = map (\<lambda>(b, _). (b, False)) xs"
proof (cases xs rule: rev_cases)
  case (snoc ys y)
  then show ?thesis by (simp add: mark_last_def case_prod_beta)
qed (simp add: mark_last_def)

lemma mark_last_count: "unmarked xs \<Longrightarrow> length (filter snd (mark_last xs)) = (if xs = [] then 0 else 1)"
proof (cases xs rule: rev_cases)
  case (snoc ys y)
  then show "unmarked xs \<Longrightarrow> ?thesis"
    by (auto simp: mark_last_def unmarked_def filter_empty_conv list_all_iff)
qed (simp add: mark_last_def)

lemma filter_unmarked: "unmarked xs \<Longrightarrow> filter snd xs = []"
  by (simp add: unmarked_def list_all_iff filter_empty_conv)

lemma mark_tail_erase:
  "map (\<lambda>m. m\<lparr>mp_content := map (\<lambda>(b, _). (b, False)) (mp_content m)\<rparr>) (mark_tail mk n ms) =
   map (\<lambda>m. m\<lparr>mp_content := map (\<lambda>(b, _). (b, False)) (mp_content m)\<rparr>) ms"
proof (induction mk n ms rule: mark_tail.induct)
  case (2 mk n ms)
  then show ?case
    by (cases ms rule: rev_cases) (simp_all add: mark_last_erase)
qed simp

lemma mark_tail_count:
  "list_all (unmarked \<circ> mp_content) ms \<Longrightarrow>
     sum_list (map (\<lambda>m. length (filter snd (mp_content m))) (mark_tail mk n ms)) \<le> n"
proof (induction mk n ms rule: mark_tail.induct)
  case (1 mk ms)
  then show ?case by (auto simp: filter_unmarked list_all_iff)
next
  case (2 mk n ms)
  then show ?case
    by (cases ms rule: rev_cases) (auto simp: mark_last_count filter_unmarked)
qed

lemma apply_caching_spec:
  assumes "unmarked (mps_system p)" "list_all (\<lambda>t. \<not> tp_marked t) (mps_tools p)"
    "list_all (unmarked \<circ> mp_content) (mps_messages p)"
  shows "count_marks (apply_caching mk p) \<le> 4" "erase_marks (apply_caching mk p) = erase_marks p"
    "erase_marks p = p"
proof -
  have tools: "length (filter tp_marked (mps_tools (apply_caching mk p))) = (if mps_tools p = [] then 0 else 1)"
    using assms(2) by (cases "mps_tools p" rule: rev_cases)
      (auto simp: apply_caching_def Let_def filter_empty_conv list_all_iff)
  have "sum_list (map (\<lambda>m. length (filter snd (mp_content m))) (mps_messages (apply_caching mk p))) \<le> 2"
    using mark_tail_count [OF assms(3)] by (simp add: apply_caching_def Let_def) (meson le_trans min.cobounded2)
  moreover have "mps_system (apply_caching mk p) = mark_last (mps_system p)"
    by (simp add: apply_caching_def Let_def)
  ultimately show "count_marks (apply_caching mk p) \<le> 4"
    using mark_last_count [OF assms(1)] tools by (simp add: count_marks_def split: if_splits)
  show "erase_marks (apply_caching mk p) = erase_marks p"
    by (cases "mps_tools p" rule: rev_cases)
      (simp_all add: erase_marks_def apply_caching_def Let_def mark_last_erase mark_tail_erase)
  have "map (\<lambda>m. m\<lparr>mp_content := map (\<lambda>(b, _). (b, False)) (mp_content m)\<rparr>) (mps_messages p) = mps_messages p"
    using assms(3) by (intro map_idI) (auto simp: list_all_iff unmarked_erase)
  moreover have "map (\<lambda>t. t\<lparr>tp_marked := False\<rparr>) (mps_tools p) = mps_tools p"
    using assms(2) by (intro map_idI) (auto simp: list_all_iff)
  ultimately show "erase_marks p = p"
    using assms(1) by (simp add: erase_marks_def unmarked_erase)
qed

lemma to_params_unmarked:
  assumes "to_anthropic_params parse r model n = Inr p"
  shows "unmarked (mps_system p)" "list_all (\<lambda>t. \<not> tp_marked t) (mps_tools p)"
    "list_all (unmarked \<circ> mp_content) (mps_messages p)"
proof -
  obtain sys ts tools where split: "result_map (turns_of parse) (filter_for_request (req_messages r)) = Inr ts"
      and tools: "result_map anthropic_tool (req_tools r) = Inr tools"
      and p: "mps_messages p = concat ts" "mps_system p = map (\<lambda>t. (t, False)) sys" "mps_tools p = tools"
    using assms by (auto simp: to_anthropic_params_def split_system_turns result_bind_Inr)
  show "unmarked (mps_system p)" by (simp add: p unmarked_def list_all_iff)
  show "list_all (\<lambda>t. \<not> tp_marked t) (mps_tools p)"
    unfolding p by (rule result_map_all [OF tools]) (auto simp: anthropic_tool_def result_bind_Inr)
  have "list_all (list_all (unmarked \<circ> mp_content)) ts"
    by (rule result_map_all [OF split])
      (auto simp: turns_of_def result_bind_Inr turn_def unmarked_def list_all_iff split: if_splits)
  then show "list_all (unmarked \<circ> mp_content) (mps_messages p)" by (auto simp: p list_all_iff)
qed

subsection \<open>Tool calls and results of the history\<close>

fun use_of :: "content_block \<Rightarrow> (string \<times> string) list" where
  "use_of (ToolUseBlock i j n) = [(i, n)]"
| "use_of _ = []"

fun result_of :: "content_block \<Rightarrow> string list" where
  "result_of (ToolResultString i t) = [i]"
| "result_of (ToolResultParts i cs) = [i]"
| "result_of _ = []"

definition turn_blocks_of :: "message_param list \<Rightarrow> content_block list" where
  "turn_blocks_of mps = concat (map (map fst \<circ> mp_content) mps)"

lemma turn_blocks_of_simps [simp]:
  "turn_blocks_of [] = []" "turn_blocks_of (x @ y) = turn_blocks_of x @ turn_blocks_of y"
  "turn_blocks_of (turn r bs) = bs"
  by (simp_all add: turn_blocks_of_def turn_def o_def)

lemma anthropic_part_blocks_plain:
  "result_map anthropic_block ps = Inr bs \<Longrightarrow> concat (map use_of bs) = [] \<and> concat (map result_of bs) = []"
  by (induction ps arbitrary: bs) (auto simp: anthropic_block_def split: sum.splits if_splits)

lemma anthropic_tool_blocks_uses:
  "result_map (tool_use_block parse) cs = Inr bs \<Longrightarrow>
     concat (map use_of bs) = map (\<lambda>c. (call_id c, fn_name (fn c))) cs \<and> concat (map result_of bs) = []"
  by (induction cs arbitrary: bs) (auto simp: tool_use_block_def Let_def split: sum.splits if_splits)

definition calls_of_message :: "message \<Rightarrow> (string \<times> string) list" where
  "calls_of_message m =
     (if role m = ''assistant'' then map (\<lambda>c. (call_id c, fn_name (fn c))) (tool_calls m) else [])"

definition results_of_message :: "message \<Rightarrow> string list" where
  "results_of_message m = (if role m = ''tool'' then [tool_call_id m] else [])"

lemma turns_of_tools:
  "turns_of parse m = Inr ts \<Longrightarrow>
     concat (map use_of (turn_blocks_of ts)) = calls_of_message m \<and>
     concat (map result_of (turn_blocks_of ts)) = results_of_message m"
  using anthropic_part_blocks_plain anthropic_tool_blocks_uses
  by (auto simp: turns_of_def calls_of_message_def results_of_message_def result_bind_Inr user_blocks_def
      assistant_blocks_def tool_result_block_def leading_text_def split: if_splits)

lemma turns_tools:
  "result_map (turns_of parse) ms = Inr ts \<Longrightarrow>
     concat (map use_of (turn_blocks_of (concat ts))) = concat (map calls_of_message ms) \<and>
     concat (map result_of (turn_blocks_of (concat ts))) = concat (map results_of_message ms)"
proof (induction ms arbitrary: ts)
  case (Cons m ms)
  obtain t ts' where "turns_of parse m = Inr t" "result_map (turns_of parse) ms = Inr ts'" "ts = t # ts'"
    using Cons.prems by (auto split: sum.splits)
  with Cons.IH turns_of_tools show ?case by simp
qed simp

lemma turns_shape:
  assumes "result_map (turns_of parse) ms = Inr ts"
  shows "list_all (\<lambda>mp. mp_content mp \<noteq> [] \<and> (mp_role mp = ''user'' \<or> mp_role mp = ''assistant'')) (concat ts)"
proof -
  have "list_all (list_all (\<lambda>mp. mp_content mp \<noteq> [] \<and> (mp_role mp = ''user'' \<or> mp_role mp = ''assistant''))) ts"
    by (rule result_map_all [OF assms]) (auto dest!: turns_of_shape simp: list_all_iff split: if_splits)
  then show ?thesis by (auto simp: list_all_iff)
qed

text \<open>Cache markers do not touch the history.\<close>

lemma marks_erased: "turn_blocks_of (mps_messages (erase_marks p)) = turn_blocks_of (mps_messages p)"
  "map fst (mps_system (erase_marks p)) = map fst (mps_system p)"
  by (simp_all add: erase_marks_def turn_blocks_of_def o_def case_prod_unfold)

lemma anthropic_request_history:
  assumes "build_params parse markable r model n think b caching = Inr p" "ms = filter_for_request (req_messages r)"
  shows "concat (map use_of (turn_blocks_of (mps_messages p))) = concat (map calls_of_message ms) \<and>
    concat (map result_of (turn_blocks_of (mps_messages p))) = concat (map results_of_message ms) \<and>
    map fst (mps_system p) = concat (map system_texts (filter (\<lambda>m. role m = ''system'') ms))"
proof -
  obtain q where q: "to_anthropic_params parse r model n = Inr q"
      "p = (let p = (if caching then apply_caching markable q else q) in if think then apply_thinking b n p else p)"
    using assms(1) by (auto simp: build_params_def result_bind_Inr Let_def)
  have "erase_marks (apply_caching markable q) = erase_marks q"
    using apply_caching_spec(2) [OF to_params_unmarked [OF q(1)]] .
  then have m: "turn_blocks_of (mps_messages p) = turn_blocks_of (mps_messages q)" "map fst (mps_system p) = map fst (mps_system q)"
    using marks_erased [of "apply_caching markable q"] marks_erased [of q]
    by (simp_all add: q(2) Let_def apply_thinking_def)
  obtain ts tools where ts: "result_map (turns_of parse) ms = Inr ts" "mps_messages q = concat ts"
      "map fst (mps_system q) = concat (map system_texts (filter (\<lambda>m. role m = ''system'') ms))"
    using q(1) assms(2) by (auto simp: to_anthropic_params_def split_system_turns result_bind_Inr o_def)
  show ?thesis using turns_tools [OF ts(1)] by (simp add: m ts(2,3))
qed

section \<open>Properties\<close>

text \<open>C25: Prompt caching spends at most the four markers the API permits, and changes nothing else of
  the request: with the markers erased it is the request built without caching.
\<close>

theorem cache_markers_bounded:
  assumes "build_params parse markable r model n think b True = Inr p"
  shows "count_marks p \<le> 4 \<and> build_params parse markable r model n think b False = Inr (erase_marks p)"
proof -
  obtain q where q: "to_anthropic_params parse r model n = Inr q"
      "p = (if think then apply_thinking b n (apply_caching markable q) else apply_caching markable q)"
    using assms by (auto simp: build_params_def result_bind_Inr Let_def)
  note spec = apply_caching_spec [OF to_params_unmarked [OF q(1)]]
  have "count_marks (apply_thinking b n x) = count_marks x"
    "erase_marks (apply_thinking b n x) = apply_thinking b n (erase_marks x)" for x
    by (simp_all add: count_marks_def erase_marks_def apply_thinking_def)
  then show ?thesis
    using spec(1,2) [of markable] spec(3) by (auto simp: q build_params_def)
qed

definition cached_request :: chat_request where
  "cached_request = \<lparr>req_model = ''m'', req_messages =
       [empty_message\<lparr>role := ''system'', content := ''s''\<rparr>, empty_message\<lparr>role := ''user'', content := ''a''\<rparr>,
        empty_message\<lparr>role := ''assistant'', content := ''b''\<rparr>, empty_message\<lparr>role := ''user'', content := ''c''\<rparr>],
     req_stream = True, req_tools = [\<lparr>def_type = ''function'', def_name = ''t'', def_desc = [], def_params = JNull\<rparr>],
     req_max_tokens = 0, req_stop = [], req_temperature = 1 / 2, req_top_k = 7, req_top_p = 0, req_min_p = 0,
     req_presence_penalty = 0, req_frequency_penalty = 0, req_repetition_penalty = 0\<rparr>"

definition cached_params :: "bool \<Rightarrow> bool \<Rightarrow> message_params" where
  "cached_params mk think = \<lparr>mps_model = ''m'', mps_max_tokens = 8192, mps_system = [(''s'', mk)],
     mps_messages = [\<lparr>mp_role = ''user'', mp_content = [(TextBlock ''a'', False)]\<rparr>,
       \<lparr>mp_role = ''assistant'', mp_content = [(TextBlock ''b'', mk)]\<rparr>,
       \<lparr>mp_role = ''user'', mp_content = [(TextBlock ''c'', mk)]\<rparr>],
     mps_tools = [\<lparr>tp_name = ''t'', tp_description = None, tp_schema = empty_schema, tp_marked = mk\<rparr>],
     mps_temperature = Some (if think then 1 else 1 / 2), mps_top_p = None,
     mps_top_k = (if think then None else Some 7), mps_thinking = (if think then Some 4096 else None)\<rparr>"

lemma cached_request_built:
  "build_params parse (\<lambda>_. True) cached_request ''m'' 8192 think 0 mk = Inr (cached_params mk think)"
  by (cases mk; cases think)
    (simp_all add: build_params_def to_anthropic_params_def cached_request_def filter_for_request_def
      empty_message_def system_texts_def user_blocks_def assistant_blocks_def leading_text_def turn_def
      anthropic_tool_def anthropic_schema_def apply_caching_def mark_last_def max_markers_def numeral_2_eq_2
      apply_thinking_def thinking_tokens_def cached_params_def)

theorem cache_markers_bounded_witness:
  "count_marks (cached_params True True) \<le> 4 \<and>
   build_params (\<lambda>_. Inr JNull) (\<lambda>_. True) cached_request ''m'' 8192 True 0 False =
     Inr (erase_marks (cached_params True True))"
  by (rule cache_markers_bounded [OF cached_request_built])

text \<open>C26: With extended thinking the request has a budget below the token cap, at least 1024 tokens
  whenever the cap allows it, temperature one and neither top-p nor top-k. At a cap of at most
  1024 the budget is the cap less one, below the minimum the API accepts.
\<close>

theorem thinking_request:
  assumes "build_params parse markable r model n True b caching = Inr p" "int64_range n" "int64_range (n - 1)"
  shows "\<exists>t. mps_thinking p = Some t \<and> t < mps_max_tokens p \<and> (1024 < n \<longrightarrow> 1024 \<le> t) \<and> (n \<le> 1024 \<longrightarrow> t = n - 1) \<and>
    (1024 \<le> b \<and> b < n \<longrightarrow> t = b) \<and> mps_temperature p = Some 1 \<and> mps_top_p p = None \<and> mps_top_k p = None"
proof -
  have "mps_max_tokens p = n" "mps_thinking p = Some (thinking_tokens b n)" "mps_temperature p = Some 1"
    "mps_top_p p = None" "mps_top_k p = None"
    using assms(1) by (auto simp: build_params_def to_anthropic_params_def result_bind_Inr Let_def
        apply_caching_def apply_thinking_def)
  then show ?thesis using assms(2,3) by (auto simp: thinking_tokens_def Let_def wrap64_id)
qed

theorem thinking_request_witness:
  "\<exists>t. mps_thinking (cached_params True True) = Some t \<and> t < mps_max_tokens (cached_params True True) \<and>
    (1024 < (8192 :: int) \<longrightarrow> 1024 \<le> t) \<and> ((8192 :: int) \<le> 1024 \<longrightarrow> t = 8192 - 1) \<and>
    (1024 \<le> (0 :: int) \<and> (0 :: int) < 8192 \<longrightarrow> t = 0) \<and> mps_temperature (cached_params True True) = Some 1 \<and>
    mps_top_p (cached_params True True) = None \<and> mps_top_k (cached_params True True) = None"
  by (rule thinking_request [OF cached_request_built]) (simp_all add: int64_range_def)

text \<open>A history that translates keeps every tool call of an assistant turn and every tool result,
  each with its id and in order; the system texts are collected apart, and the API sees only
  user and assistant turns, none of them empty.
\<close>

theorem anthropic_history:
  assumes "split_system parse ms = Inr (sys, out)"
  shows "concat (map use_of (turn_blocks_of out)) = concat (map calls_of_message ms) \<and>
    concat (map result_of (turn_blocks_of out)) = concat (map results_of_message ms) \<and>
    sys = concat (map system_texts (filter (\<lambda>m. role m = ''system'') ms)) \<and>
    list_all (\<lambda>mp. mp_content mp \<noteq> [] \<and> (mp_role mp = ''user'' \<or> mp_role mp = ''assistant'')) out"
  using assms turns_tools turns_shape
  by (auto simp: split_system_turns result_bind_Inr)

definition tool_history :: "message list" where
  "tool_history =
     [empty_message\<lparr>role := ''assistant'', tool_calls := [\<lparr>call_id = ''1'', call_type = ''function'',
        fn = \<lparr>fn_name = ''f'', arguments = []\<rparr>\<rparr>]\<rparr>,
      empty_message\<lparr>role := ''tool'', tool_call_id := ''1'', content := ''r''\<rparr>]"

theorem anthropic_history_witness:
  "concat (map use_of (turn_blocks_of [\<lparr>mp_role = ''assistant'', mp_content = [(ToolUseBlock ''1'' (JObj []) ''f'', False)]\<rparr>,
      \<lparr>mp_role = ''user'', mp_content = [(ToolResultString ''1'' ''r'', False)]\<rparr>])) =
      concat (map calls_of_message tool_history) \<and>
    concat (map result_of (turn_blocks_of [\<lparr>mp_role = ''assistant'', mp_content = [(ToolUseBlock ''1'' (JObj []) ''f'', False)]\<rparr>,
      \<lparr>mp_role = ''user'', mp_content = [(ToolResultString ''1'' ''r'', False)]\<rparr>])) =
      concat (map results_of_message tool_history) \<and>
    ([] :: string list) = concat (map system_texts (filter (\<lambda>m. role m = ''system'') tool_history)) \<and>
    list_all (\<lambda>mp. mp_content mp \<noteq> [] \<and> (mp_role mp = ''user'' \<or> mp_role mp = ''assistant''))
      [\<lparr>mp_role = ''assistant'', mp_content = [(ToolUseBlock ''1'' (JObj []) ''f'', False)]\<rparr>,
       \<lparr>mp_role = ''user'', mp_content = [(ToolResultString ''1'' ''r'', False)]\<rparr>]"
  by (rule anthropic_history [where parse = "\<lambda>_. Inr JNull"])
    (simp add: tool_history_def empty_message_def assistant_blocks_def leading_text_def tool_use_block_def
      trim_space_def tool_result_block_def turn_def)

end
