(* ===== verification/AnthropicStream.thy ===== *)
theory AnthropicStream
  imports Anthropic
begin

text \<open>
  The stream of the Anthropic adapter (llm/anthropic/anthropic.go), \<open>Chat\<close> of its three clients
  (anthropic_vertex.go, anthropic_bedrock.go) and the recovery probes. The SDK is an argument: the
  events its stream yields for given parameters and the error it ends with.
\<close>

section \<open>The stream loop\<close>

text \<open>
  The events of the SDK by the tags the loop tests; counts are the int64 fields of a usage, in
  the order input, output, cache read, cache creation.
\<close>

datatype block_start = ToolUse string string | StartOther string

datatype block_delta =
    TextFragment string
  | ThinkingFragment string
  | InputFragment string
  | DeltaOther string

datatype sdk_event =
    ContentBlockStart int block_start
  | ContentBlockDelta int block_delta
  | ContentBlockStop int
  | MessageStart
  | MessageDelta int int int int
  | MessageStop
  | EventOther string

definition anthropic_usage :: "int \<Rightarrow> int \<Rightarrow> int \<Rightarrow> int \<Rightarrow> message_usage" where
  "anthropic_usage inp out cread cwrite =
     \<lparr>input_tokens = inp, output_tokens = out, cache_read_tokens = cread, cache_write_tokens = cwrite,
      reasoning_tokens = 0, total_tokens = wrap64 (wrap64 (wrap64 (inp + out) + cread) + cwrite)\<rparr>"

text \<open>One turn of the loop: the accumulators by block index, and the events sent.\<close>

fun anthropic_step :: "sdk_event \<Rightarrow> inflight \<Rightarrow> inflight \<times> event list" where
  "anthropic_step (ContentBlockStart i b) m =
     (case b of
        ToolUse d n \<Rightarrow> (m(i \<mapsto> \<lparr>acc_id = d, acc_name = n, acc_input = []\<rparr>), [])
      | StartOther _ \<Rightarrow> (m, []))"
| "anthropic_step (ContentBlockDelta i d) m =
     (case d of
        TextFragment t \<Rightarrow> (m, if t \<noteq> [] then [TextDelta t] else [])
      | ThinkingFragment t \<Rightarrow> (m, if t \<noteq> [] then [ReasoningDelta t] else [])
      | InputFragment s \<Rightarrow>
          (case m i of Some a \<Rightarrow> (m(i \<mapsto> a\<lparr>acc_input := acc_input a @ s\<rparr>), []) | None \<Rightarrow> (m, []))
      | DeltaOther _ \<Rightarrow> (m, []))"
| "anthropic_step (ContentBlockStop i) m =
     (case m i of
        Some a \<Rightarrow>
          (let args = (if acc_input a = [] then ''{}'' else acc_input a)
           in (m(i := None),
               [ToolCallComplete [\<lparr>call_id = acc_id a, call_type = ''function'',
                  fn = \<lparr>fn_name = acc_name a, arguments = args\<rparr>\<rparr>]]))
      | None \<Rightarrow> (m, []))"
| "anthropic_step MessageStart m = (m, [])"
| "anthropic_step (MessageDelta a b c d) m = (m, [UsageEvent (anthropic_usage a b c d)])"
| "anthropic_step MessageStop m = (m, [])"
| "anthropic_step (EventOther _) m = (m, [])"

fun block_kind :: "sdk_event \<Rightarrow> block_event" where
  "block_kind (ContentBlockStart i b) = (case b of ToolUse d n \<Rightarrow> BlockStart i d n | StartOther _ \<Rightarrow> BlockEmit [])"
| "block_kind (ContentBlockDelta i d) =
     (case d of
        TextFragment t \<Rightarrow> BlockEmit (if t \<noteq> [] then [TextDelta t] else [])
      | ThinkingFragment t \<Rightarrow> BlockEmit (if t \<noteq> [] then [ReasoningDelta t] else [])
      | InputFragment s \<Rightarrow> BlockInput i s
      | DeltaOther _ \<Rightarrow> BlockEmit [])"
| "block_kind (ContentBlockStop i) = BlockStop i"
| "block_kind MessageStart = BlockEmit []"
| "block_kind (MessageDelta a b c d) = BlockEmit [UsageEvent (anthropic_usage a b c d)]"
| "block_kind MessageStop = BlockEmit []"
| "block_kind (EventOther _) = BlockEmit []"

lemma anthropic_step_kind: "anthropic_step e m = block_step (block_kind e) m"
  by (cases e) (simp_all add: acc_call_def Let_def split: block_start.split block_delta.split option.split)

lemma block_kind_plain: "plain_emission (block_kind e)"
  by (cases e) (simp_all add: plain_emission_def split: block_start.split block_delta.split)

interpretation anthropic_blocks: block_stream anthropic_step block_kind
  by unfold_locales (rule anthropic_step_kind, rule block_kind_plain)

text \<open>
  The goroutine: the loop, then what the stream ended with. The result is the events, the
  tracker, and whether the probe was spawn.
\<close>

definition stream_anthropic :: "string \<Rightarrow> sdk_event list \<Rightarrow> go_error option \<Rightarrow> nat \<Rightarrow> tracker \<Rightarrow>
    event list \<times> tracker \<times> bool" where
  "stream_anthropic label evs err now t =
     (let sent = run_steps anthropic_step evs Map.empty in
      case err of
        Some e \<Rightarrow> (case note_failure now e t of (t', spawn) \<Rightarrow>
          (sent @ [ErrorEvent (VendorError (friendly_error label e))], t', spawn))
      | None \<Rightarrow> (sent @ [Done []], fst (tracker_set now StateConnected t), False))"

lemma stream_anthropic_events:
  "fst (stream_anthropic label evs err now t) = run_steps anthropic_step evs Map.empty @
     [case err of None \<Rightarrow> Done [] | Some e \<Rightarrow> ErrorEvent (VendorError (friendly_error label e))]"
  by (simp add: stream_anthropic_def Let_def split: option.split prod.split)

interpretation anthropic_client: chat_client
  "\<lambda>(label, evs, err, now, t). fst (stream_anthropic label evs err now t)"
proof unfold_locales
  fix i :: "string \<times> sdk_event list \<times> go_error option \<times> nat \<times> tracker"
  obtain label evs err now t where i: "i = (label, evs, err, now, t)" by (cases i) auto
  note plain = anthropic_blocks.run_plain [of evs Map.empty]
  show "list_all (\<lambda>e. \<not> terminal_event e)
      (butlast (case i of (label, evs, err, now, t) \<Rightarrow> fst (stream_anthropic label evs err now t)))"
    using plain by (simp add: i stream_anthropic_events list_all_iff)
  show "ToolCallComplete [] \<notin> set (case i of (label, evs, err, now, t) \<Rightarrow> fst (stream_anthropic label evs err now t))"
    using plain by (auto simp: i stream_anthropic_events list_all_iff split: option.split)
qed

section \<open>The clients\<close>

datatype setup_error =
    RegionRequired
  | ProjectRequired
  | AwsConfig string
  | GuardrailVersionRequired
  | UnknownTrace string

datatype chat_failure = BuildParams anthropic_error | ClientSetup setup_error

text \<open>
  The options an SDK client is built with: \<open>'h\<close> is an HTTP client, \<open>'c\<close> a loaded AWS
  configuration.
\<close>

datatype ('h, 'c) sdk_option =
    WithApiKey string
  | WithBaseUrl string
  | WithHttpClient 'h
  | WithHeader string string
  | WithMaxRetries nat
  | WithGoogleAuth string string
  | WithAwsConfig 'c

text \<open>
  The three clients: the settings of a request, how the SDK client is built, and the state, which is
  the tracker and the SDK client once it has been built (the options it was built with).
\<close>

record ('h, 'c) direct_claude =
  ad_request :: anthropic_client
  ad_key :: string
  ad_url :: string
  ad_http :: "'h option"
  ad_version :: string
  ad_conn :: tracker
  ad_sdk :: "('h, 'c) sdk_option list option"

record ('h, 'c) vertex_claude =
  av_request :: anthropic_client
  av_region :: string
  av_project :: string
  av_http :: "'h option"
  av_interval :: int
  av_conn :: tracker
  av_sdk :: "('h, 'c) sdk_option list option"

record ('h, 'c) bedrock_claude =
  ab_request :: anthropic_client
  ab_region :: string
  ab_profile :: string
  ab_guardrail_id :: string
  ab_guardrail_version :: string
  ab_guardrail_trace :: string
  ab_http :: "'h option"
  ab_interval :: int
  ab_conn :: tracker
  ab_sdk :: "('h, 'c) sdk_option list option"

definition http_option :: "'h option \<Rightarrow> ('h, 'c) sdk_option list" where
  "http_option h = (case h of None \<Rightarrow> [] | Some x \<Rightarrow> [WithHttpClient x])"

definition direct_setup :: "('h, 'c) direct_claude \<Rightarrow> setup_error + ('h, 'c) sdk_option list" where
  "direct_setup c = Inr (
     (if ad_key c \<noteq> [] then [WithApiKey (ad_key c)] else []) @
     (if ad_url c \<noteq> [] then [WithBaseUrl (ad_url c)] else []) @
     http_option (ad_http c) @
     (if ad_version c \<noteq> [] then [WithHeader ''anthropic-version'' (ad_version c)] else []) @
     [WithMaxRetries 0])"

definition vertex_setup :: "('h, 'c) vertex_claude \<Rightarrow> setup_error + ('h, 'c) sdk_option list" where
  "vertex_setup c =
     (if av_region c = [] then Inl RegionRequired
      else if av_project c = [] then Inl ProjectRequired
      else Inr ([WithGoogleAuth (av_region c) (av_project c), WithMaxRetries 0] @ http_option (av_http c)))"

definition anthropic_guardrail_headers :: "string \<Rightarrow> string \<Rightarrow> string \<Rightarrow> setup_error + (string \<times> string) list" where
  "anthropic_guardrail_headers gid version trace =
     (if gid = [] then Inr []
      else if version = [] then Inl GuardrailVersionRequired
      else
        let t = trace_runes trace;
            headers = (\<lambda>h. Inr [(''X-Amzn-Bedrock-GuardrailIdentifier'', gid),
              (''X-Amzn-Bedrock-GuardrailVersion'', version), (''X-Amzn-Bedrock-Trace'', h)])
        in if t = rune_text ''enabled'' \<or> t = rune_text ''enabled_full'' then headers ''ENABLED''
           else if t = rune_text ''disabled'' then headers ''DISABLED''
           else Inl (UnknownTrace trace))"

text \<open>
  \<open>load\<close> loads the AWS configuration. Go ranges over the headers in any order; their names differ.
\<close>

definition bedrock_setup :: "(aws_load_option list \<Rightarrow> string + 'c) \<Rightarrow> ('h, 'c) bedrock_claude \<Rightarrow>
    setup_error + ('h, 'c) sdk_option list" where
  "bedrock_setup load c =
     (case load (load_options (ab_region c) (ab_profile c)) of
        Inl e \<Rightarrow> Inl (AwsConfig e)
      | Inr cfg \<Rightarrow>
          let opts = [WithAwsConfig cfg, WithMaxRetries 0] @ http_option (ab_http c) in
          if ab_guardrail_id c = [] then Inr opts
          else result_bind (anthropic_guardrail_headers (ab_guardrail_id c) (ab_guardrail_version c) (ab_guardrail_trace c))
            (\<lambda>hdrs. Inr (opts @ map (\<lambda>(k, v). WithHeader k v) hdrs)))"

text \<open>
  \<open>Chat\<close> of the three clients: the request first, then the SDK client, kept between chats; \<open>start\<close>
  is the stream that client opens. The result is the reply, the kept client, the tracker, and
  whether the probe was started.
\<close>

definition chat_anthropic :: "(string \<Rightarrow> json_error + json) \<Rightarrow> (content_block \<Rightarrow> bool) \<Rightarrow>
    ('k \<Rightarrow> message_params \<Rightarrow> sdk_event list \<times> go_error option) \<Rightarrow> string \<Rightarrow> setup_error + 'k \<Rightarrow> anthropic_client \<Rightarrow>
    chat_request \<Rightarrow> nat \<Rightarrow> 'k option \<Rightarrow> tracker \<Rightarrow> (chat_failure + event list) \<times> 'k option \<times> tracker \<times> bool" where
  "chat_anthropic parse markable start label build c r now sdk t =
     (case client_params parse markable c r of
        Inl e \<Rightarrow> (Inl (BuildParams e), sdk, t, False)
      | Inr p \<Rightarrow>
          (case lazy_sdk build sdk of
             (Inl e, sdk') \<Rightarrow> (Inl (ClientSetup e), sdk', t, False)
           | (Inr k, sdk') \<Rightarrow>
               (case start k p of (evs, err) \<Rightarrow>
                case stream_anthropic label evs err now t of (sent, t', spawn) \<Rightarrow> (Inr sent, sdk', t', spawn))))"

text \<open>
  The direct client starts its probe loop when it can claim the probe; the other two hold the
  claim for an interval.
\<close>

definition direct_probe :: "bool \<Rightarrow> tracker \<Rightarrow> tracker \<times> bool" where
  "direct_probe spawn t = (if spawn then claim_probe t else (t, False))"

definition chat_direct where
  "chat_direct parse markable start c r now =
     (case chat_anthropic parse markable start ''anthropic'' (direct_setup c) (ad_request c) r now (ad_sdk c) (ad_conn c) of
        (reply, sdk, t, spawn) \<Rightarrow>
          (case direct_probe spawn t of
             (t, probe) \<Rightarrow> (reply, c\<lparr>ad_sdk := sdk, ad_conn := t\<rparr>, probe)))"

definition chat_on_vertex where
  "chat_on_vertex parse markable start c r now =
     (case chat_anthropic parse markable start ''anthropic-vertex'' (vertex_setup c) (av_request c) r now (av_sdk c) (av_conn c) of
        (reply, sdk, t, spawn) \<Rightarrow>
          (case settle (av_interval c) (t, spawn) of
             (t, sleep) \<Rightarrow> (reply, c\<lparr>av_sdk := sdk, av_conn := t\<rparr>, sleep)))"

definition chat_on_bedrock where
  "chat_on_bedrock parse markable start load c r now =
     (case chat_anthropic parse markable start ''anthropic-bedrock'' (bedrock_setup load c) (ab_request c) r now (ab_sdk c) (ab_conn c) of
        (reply, sdk, t, spawn) \<Rightarrow>
          (case settle (ab_interval c) (t, spawn) of
             (t, sleep) \<Rightarrow> (reply, c\<lparr>ab_sdk := sdk, ab_conn := t\<rparr>, sleep)))"

text \<open>\<open>LLMConnState\<close> of each.\<close>

definition direct_conn_state :: "('h, 'c) direct_claude \<Rightarrow> conn_state" where
  "direct_conn_state c = tracker_get (ad_conn c)"

definition vertex_conn_state :: "('h, 'c) vertex_claude \<Rightarrow> conn_state" where
  "vertex_conn_state c = tracker_get (av_conn c)"

definition bedrock_conn_state :: "('h, 'c) bedrock_claude \<Rightarrow> conn_state" where
  "bedrock_conn_state c = tracker_get (ab_conn c)"

text \<open>The retries of the SDK are off in every client that is built, and stay off.\<close>

fun retries_of :: "('h, 'c) sdk_option \<Rightarrow> nat list" where
  "retries_of (WithMaxRetries n) = [n]"
| "retries_of _ = []"

definition retries_off :: "('h, 'c) sdk_option list option \<Rightarrow> bool" where
  "retries_off sdk = (case sdk of None \<Rightarrow> True | Some opts \<Rightarrow> concat (map retries_of opts) = [0])"

lemma http_option_retries [simp]: "concat (map retries_of (http_option h)) = []"
  by (cases h) (simp_all add: http_option_def)

lemma setup_retries_off:
  "direct_setup c = Inr opts \<Longrightarrow> retries_off (Some opts)"
  "vertex_setup vc = Inr opts \<Longrightarrow> retries_off (Some opts)"
  "bedrock_setup load bc = Inr opts \<Longrightarrow> retries_off (Some opts)"
  by (auto simp: direct_setup_def vertex_setup_def bedrock_setup_def retries_off_def result_bind_Inr Let_def
      case_prod_unfold o_def split: if_splits sum.splits)

lemma chat_anthropic_kept:
  assumes "chat_anthropic parse markable start label build c r now sdk t = (reply, sdk', t', spawn)" "retries_off sdk"
    and built: "\<And>opts. build = Inr opts \<Longrightarrow> retries_off (Some opts)"
  shows "retries_off sdk'" and "reply = Inl e \<Longrightarrow> sdk' = sdk \<and> t' = t \<and> \<not> spawn"
  using assms
  by (auto simp: chat_anthropic_def lazy_sdk_def split: sum.splits option.splits prod.splits)

text \<open>
  A turn of any of the three leaves its settings alone and keeps the retry policy in one place; a
  turn that is refused before a stream opens changes nothing.
\<close>

theorem direct_claude_turn:
  assumes "chat_direct parse markable start c r now = (reply, c', probe)" "retries_off (ad_sdk c)"
  shows "retries_off (ad_sdk c')" and "direct_setup c' = direct_setup c" and "reply = Inl e \<Longrightarrow> c' = c \<and> \<not> probe"
proof -
  obtain reply' sdk t spawn where c: "chat_anthropic parse markable start ''anthropic'' (direct_setup c) (ad_request c) r now
      (ad_sdk c) (ad_conn c) = (reply', sdk, t, spawn)"
    by (rule prod_cases4)
  let ?p = "direct_probe spawn t"
  have c': "c' = c\<lparr>ad_sdk := sdk, ad_conn := fst ?p\<rparr>" and p: "probe = snd ?p" and r: "reply = reply'"
    using assms(1) by (simp_all add: chat_direct_def c split: prod.splits)
  note kept = chat_anthropic_kept [OF c assms(2) setup_retries_off(1)]
  show "retries_off (ad_sdk c')" using kept(1) by (simp add: c')
  show "direct_setup c' = direct_setup c" by (simp add: c' direct_setup_def)
  show "c' = c \<and> \<not> probe" if "reply = Inl e" using kept(2) that r by (simp add: c' p direct_probe_def)
qed

theorem vertex_claude_turn:
  assumes "chat_on_vertex parse markable start c r now = (reply, c', sleep)" "retries_off (av_sdk c)"
  shows "retries_off (av_sdk c')" and "vertex_setup c' = vertex_setup c" and "reply = Inl e \<Longrightarrow> c' = c \<and> sleep = None"
proof -
  obtain reply' sdk t spawn where c: "chat_anthropic parse markable start ''anthropic-vertex'' (vertex_setup c) (av_request c) r now
      (av_sdk c) (av_conn c) = (reply', sdk, t, spawn)"
    by (rule prod_cases4)
  let ?p = "settle (av_interval c) (t, spawn)"
  have c': "c' = c\<lparr>av_sdk := sdk, av_conn := fst ?p\<rparr>" and p: "sleep = snd ?p" and r: "reply = reply'"
    using assms(1) by (simp_all add: chat_on_vertex_def c split: prod.splits)
  note kept = chat_anthropic_kept [OF c assms(2) setup_retries_off(2)]
  show "retries_off (av_sdk c')" using kept(1) by (simp add: c')
  show "vertex_setup c' = vertex_setup c" by (simp add: c' vertex_setup_def)
  show "c' = c \<and> sleep = None" if "reply = Inl e" using kept(2) that r by (simp add: c' p settle_def)
qed

theorem bedrock_claude_turn:
  assumes "chat_on_bedrock parse markable start load c r now = (reply, c', sleep)" "retries_off (ab_sdk c)"
  shows "retries_off (ab_sdk c')" and "bedrock_setup load c' = bedrock_setup load c" and "reply = Inl e \<Longrightarrow> c' = c \<and> sleep = None"
proof -
  obtain reply' sdk t spawn where c: "chat_anthropic parse markable start ''anthropic-bedrock'' (bedrock_setup load c) (ab_request c) r now
      (ab_sdk c) (ab_conn c) = (reply', sdk, t, spawn)"
    by (rule prod_cases4)
  let ?p = "settle (ab_interval c) (t, spawn)"
  have c': "c' = c\<lparr>ab_sdk := sdk, ab_conn := fst ?p\<rparr>" and p: "sleep = snd ?p" and r: "reply = reply'"
    using assms(1) by (simp_all add: chat_on_bedrock_def c split: prod.splits)
  note kept = chat_anthropic_kept [OF c assms(2) setup_retries_off(3)]
  show "retries_off (ab_sdk c')" using kept(1) by (simp add: c')
  show "bedrock_setup load c' = bedrock_setup load c" by (simp add: c' bedrock_setup_def Let_def split: sum.split)
  show "c' = c \<and> sleep = None" if "reply = Inl e" using kept(2) that r by (simp add: c' p settle_def)
qed

section \<open>The recovery probe\<close>

text \<open>\<open>probeOnce\<close>: \<open>ping\<close> is the error of fetching the model, if any.\<close>

definition model_reachable :: "go_error option \<Rightarrow> bool" where
  "model_reachable ping = (case ping of None \<Rightarrow> True | Some e \<Rightarrow> classify e = [])"

text \<open>
  The ticks of \<open>probeLoop\<close>. Before each tick the chats of the client may have set the tracker,
  and each tick has the ping it would make and its time. The result is the tracker, and whether
  the loop has ended, with its claim released.
\<close>

fun probe_ticks :: "(conn_state option \<times> go_error option \<times> nat) list \<Rightarrow> tracker \<Rightarrow> tracker \<times> bool" where
  "probe_ticks [] t = (t, False)"
| "probe_ticks ((chat, ping, now) # ticks) t =
     (let t = (case chat of None \<Rightarrow> t | Some s \<Rightarrow> fst (tracker_set now s t)) in
      if tracker_get t \<noteq> StateDisconnected then (release_probe t, True)
      else if model_reachable ping then (release_probe (fst (tracker_set now StateConnected t)), True)
      else probe_ticks ticks t)"

text \<open>While it runs the tracker stays Disconnected and claimed; it ends at the first answer.\<close>

lemma probe_ticks_running:
  "probe_ticks ticks t = (t', False) \<Longrightarrow> ticks \<noteq> [] \<Longrightarrow>
     conn t' = StateDisconnected \<and> probing t' = probing t \<and>
     (\<forall>(chat, ping, now) \<in> set ticks. \<not> model_reachable ping)"
proof (induction ticks t rule: probe_ticks.induct)
  case (2 chat ping now ticks t)
  then show ?case
    by (cases ticks) (auto simp: Let_def tracker_get_def tracker_set_def split: if_splits option.splits)
qed simp

lemma probe_ticks_ended: "probe_ticks ticks t = (t', True) \<Longrightarrow> \<not> probing t' \<and> conn t' \<noteq> StateDisconnected"
proof (induction ticks t rule: probe_ticks.induct)
  case (2 chat ping now ticks t)
  then show ?case
    by (auto simp: Let_def tracker_get_def tracker_set_def release_probe_def split: if_splits option.splits)
qed simp

section \<open>Properties\<close>

text \<open>C19: A tool call streamed in fragments is delivered whole, however the blocks interleave: when the
  events of block \<open>i\<close> before its stop are a tool-use start and input fragments, the stop emits
  one call with the start's id and name and the fragments in order, \<open>{}\<close> when there are none.
\<close>

theorem anthropic_call_whole:
  assumes "filter (\<lambda>e. block_index (block_kind e) = Some i) pre =
      ContentBlockStart i (ToolUse d n) # map (\<lambda>s. ContentBlockDelta i (InputFragment s)) fs"
  shows "\<exists>rest. fst (stream_anthropic label (pre @ ContentBlockStop i # post) err now t) =
    run_steps anthropic_step pre Map.empty @
    ToolCallComplete [\<lparr>call_id = d, call_type = ''function'',
      fn = \<lparr>fn_name = n, arguments = (if concat fs = [] then ''{}'' else concat fs)\<rparr>\<rparr>] # rest"
proof -
  have "map block_kind (map (\<lambda>s. ContentBlockDelta i (InputFragment s)) fs) = map (BlockInput i) fs"
    by simp
  from anthropic_blocks.block_closed [OF assms _ this, where d = d and n = n and stop = "ContentBlockStop i" and post = post]
  obtain rest where "run_steps anthropic_step (pre @ ContentBlockStop i # post) Map.empty =
    run_steps anthropic_step pre Map.empty @
    ToolCallComplete [\<lparr>call_id = d, call_type = ''function'',
      fn = \<lparr>fn_name = n, arguments = (if concat fs = [] then ''{}'' else concat fs)\<rparr>\<rparr>] # rest"
    by auto
  then show ?thesis by (auto simp: stream_anthropic_events)
qed

definition two_blocks :: "sdk_event list" where
  "two_blocks = [ContentBlockStart 1 (ToolUse ''a'' ''f''), ContentBlockStart 2 (ToolUse ''b'' ''g''),
     ContentBlockDelta 1 (InputFragment ''{''), ContentBlockDelta 2 (InputFragment ''[]''),
     ContentBlockDelta 3 (TextFragment ''hi''), ContentBlockDelta 1 (InputFragment ''}'')]"

theorem anthropic_call_whole_witness:
  "\<exists>rest. fst (stream_anthropic ''anthropic'' (two_blocks @ ContentBlockStop 1 # []) None 0 zero_tracker) =
    run_steps anthropic_step two_blocks Map.empty @
    ToolCallComplete [\<lparr>call_id = ''a'', call_type = ''function'',
      fn = \<lparr>fn_name = ''f'', arguments = (if concat [''{'', ''}''] = [] then ''{}'' else concat [''{'', ''}''])\<rparr>\<rparr>] # rest"
  by (rule anthropic_call_whole) (simp add: two_blocks_def)

text \<open>
  How a chat moves the connection tracker: it ends with Done and Connected, or with the error
  and, exactly when the error is a transport failure, Disconnected; only the failure that
  enters Disconnected starts a probe.
\<close>

theorem anthropic_outcome:
  assumes "chat_anthropic parse markable start label build c r now sdk t = (Inr evs, sdk', t', spawn)"
  shows "\<exists>p k err. client_params parse markable c r = Inr p \<and> sdk' = Some k \<and> snd (start k p) = err \<and>
    (case err of
       None \<Rightarrow> last evs = Done [] \<and> conn t' = StateConnected \<and> \<not> spawn
     | Some e \<Rightarrow> last evs = ErrorEvent (VendorError (friendly_error label e)) \<and>
         conn t' = (if classify e \<noteq> [] then StateDisconnected else conn t) \<and>
         spawn = (classify e \<noteq> [] \<and> conn t \<noteq> StateDisconnected)) \<and>
    probing t' = probing t"
proof -
  obtain p k es err where p: "client_params parse markable c r = Inr p" "lazy_sdk build sdk = (Inr k, sdk')"
      "start k p = (es, err)" "stream_anthropic label es err now t = (evs, t', spawn)"
    using assms by (auto simp: chat_anthropic_def split: sum.splits prod.splits)
  have "sdk' = Some k" using p(2) by (auto simp: lazy_sdk_def split: option.splits sum.splits)
  moreover have "(case err of
       None \<Rightarrow> last evs = Done [] \<and> conn t' = StateConnected \<and> \<not> spawn
     | Some e \<Rightarrow> last evs = ErrorEvent (VendorError (friendly_error label e)) \<and>
         conn t' = (if classify e \<noteq> [] then StateDisconnected else conn t) \<and>
         spawn = (classify e \<noteq> [] \<and> conn t \<noteq> StateDisconnected)) \<and> probing t' = probing t"
    using p(4) by (auto simp: stream_anthropic_def Let_def note_failure_def tracker_set_def
      split: prod.splits option.splits if_splits)
  ultimately show ?thesis using p(1,3) by auto
qed

theorem anthropic_outcome_witness:
  "\<exists>p k err. client_params (\<lambda>_. Inr JNull) (\<lambda>_. True) \<lparr>ac_model = ''m'', ac_max_tokens = 0, ac_thinking = True,
        ac_budget = 0, ac_caching = True\<rparr> cached_request = Inr p \<and> Some () = Some k \<and>
      snd ((\<lambda>k (p :: message_params). ([MessageStart], Some (Errno ECONNREFUSED))) k p) = err \<and>
    (case err of
       None \<Rightarrow> last [ErrorEvent (VendorError (friendly_error ''anthropic'' (Errno ECONNREFUSED)))] = Done [] \<and>
         conn (zero_tracker\<lparr>conn := StateDisconnected, changed_at := 3\<rparr>) = StateConnected \<and> \<not> True
     | Some e \<Rightarrow> last [ErrorEvent (VendorError (friendly_error ''anthropic'' (Errno ECONNREFUSED)))] =
           ErrorEvent (VendorError (friendly_error ''anthropic'' e)) \<and>
         conn (zero_tracker\<lparr>conn := StateDisconnected, changed_at := 3\<rparr>) =
           (if classify e \<noteq> [] then StateDisconnected else conn zero_tracker) \<and>
         True = (classify e \<noteq> [] \<and> conn zero_tracker \<noteq> StateDisconnected)) \<and>
    probing (zero_tracker\<lparr>conn := StateDisconnected, changed_at := 3\<rparr>) = probing zero_tracker"
  by (rule anthropic_outcome [where build = "Inr ()" and sdk = None])
    (simp add: chat_anthropic_def lazy_sdk_def client_params_def client_max_tokens_def cached_request_built
      stream_anthropic_def note_failure_def tracker_set_def zero_tracker_def classify_def error_as_def
      errno_tag_def ECONNREFUSED_def)

end
