(* ===== verification/Bedrock.thy ===== *)
theory Bedrock
  imports Vendor Registry
begin

text \<open>
  The Bedrock Converse adapter (llm/bedrock/bedrock.go): translation of a chat request to the
  Converse input, extended thinking, guardrails and cache points, and the stream loop. The SDK's
  types are the data the adapter passes; parsing JSON text and rounding a number to a float32 are
  arguments.
\<close>

section \<open>The Converse input\<close>

datatype image_format = Png | Jpeg | Gif | Webp

datatype converse_result = ResultText string | ResultImage image_format "byte list"

datatype converse_block =
    TextBlock string
  | ImageBlock image_format "byte list"
  | ToolUseBlock string string json
  | ToolResultBlock string "converse_result list"
  | CachePoint

datatype system_block = SystemText string | SystemCachePoint

datatype converse_tool = ToolSpec string "string option" json | ToolCachePoint

datatype trace_mode = TraceEnabled | TraceDisabled | TraceEnabledFull

datatype bedrock_error =
    ModelRequired
  | ImageWithoutBytes
  | UnsupportedImage string
  | DocumentUnsupported
  | UnknownPart string
  | ArgumentsNotJSON string json_error
  | ResultImageWithoutBytes
  | ResultPartUnsupported string
  | GuardrailIdRequired
  | GuardrailVersionRequired
  | UnknownTrace string

record 'f inference =
  inf_max_tokens :: int
  inf_temperature :: "'f option"
  inf_top_p :: "'f option"

record 'f converse_input =
  ci_model :: string
  ci_messages :: "(string \<times> converse_block list) list"
  ci_system :: "system_block list"
  ci_tools :: "converse_tool list option"
  ci_inference :: "'f inference"
  ci_thinking :: "int option"
  ci_guardrail :: "(string \<times> string \<times> trace_mode) option"

section \<open>Content\<close>

definition image_format_of :: "string \<Rightarrow> bedrock_error + image_format" where
  "image_format_of mime =
     (let t = lower_runes (trim_space mime) in
      if t = rune_text ''image/png'' then Inr Png
      else if t = rune_text ''image/jpeg'' \<or> t = rune_text ''image/jpg'' then Inr Jpeg
      else if t = rune_text ''image/gif'' then Inr Gif
      else if t = rune_text ''image/webp'' then Inr Webp
      else Inl (UnsupportedImage mime))"

definition bedrock_block :: "message_part \<Rightarrow> bedrock_error + converse_block" where
  "bedrock_block p =
     (if part_type p = ''text'' then Inr (TextBlock (part_text p))
      else if part_type p = ''image'' then
        (if part_data p = [] then Inl ImageWithoutBytes
         else result_bind (image_format_of (mime_type p)) (\<lambda>f. Inr (ImageBlock f (part_data p))))
      else if part_type p = ''document'' then Inl DocumentUnsupported
      else Inl (UnknownPart (part_type p)))"

definition bedrock_leading :: "message \<Rightarrow> converse_block list" where
  "bedrock_leading m = (if content m \<noteq> [] then [TextBlock (content m)] else [])"

definition bedrock_user_content :: "message \<Rightarrow> bedrock_error + converse_block list" where
  "bedrock_user_content m =
     (if parts m = [] then (if content m = [] then Inr [] else Inr [TextBlock (content m)])
      else result_bind (result_map bedrock_block (parts m)) (\<lambda>bs. Inr (bedrock_leading m @ bs)))"

definition bedrock_tool_use :: "(string \<Rightarrow> json_error + json) \<Rightarrow> tool_call \<Rightarrow> bedrock_error + converse_block" where
  "bedrock_tool_use parse tc =
     (if arguments (fn tc) \<noteq> [] then
        (case parse (arguments (fn tc)) of
           Inl e \<Rightarrow> Inl (ArgumentsNotJSON (fn_name (fn tc)) e)
         | Inr j \<Rightarrow> Inr (ToolUseBlock (call_id tc) (fn_name (fn tc)) (json_any j)))
      else Inr (ToolUseBlock (call_id tc) (fn_name (fn tc)) (JObj [])))"

definition bedrock_assistant_content :: "(string \<Rightarrow> json_error + json) \<Rightarrow> message \<Rightarrow>
    bedrock_error + converse_block list" where
  "bedrock_assistant_content parse m =
     result_bind (result_map bedrock_block (parts m)) (\<lambda>bs.
     result_bind (result_map (bedrock_tool_use parse) (tool_calls m)) (\<lambda>ts.
       Inr (bedrock_leading m @ bs @ ts)))"

definition bedrock_result_part :: "message_part \<Rightarrow> bedrock_error + converse_result" where
  "bedrock_result_part p =
     (if part_type p = ''text'' then Inr (ResultText (part_text p))
      else if part_type p = ''image'' then
        (if part_data p = [] then Inl ResultImageWithoutBytes
         else result_bind (image_format_of (mime_type p)) (\<lambda>f. Inr (ResultImage f (part_data p))))
      else Inl (ResultPartUnsupported (part_type p)))"

definition bedrock_result_content :: "message \<Rightarrow> bedrock_error + converse_result list" where
  "bedrock_result_content m =
     (if parts m = [] then Inr [ResultText (content m)]
      else result_bind (result_map bedrock_result_part (parts m)) (\<lambda>cs.
        Inr ((if content m \<noteq> [] then [ResultText (content m)] else []) @ cs)))"

section \<open>The history\<close>

text \<open>What a message contributes; a message of any other role is passed over.\<close>

definition bedrock_contribution :: "(string \<Rightarrow> json_error + json) \<Rightarrow> message \<Rightarrow>
    bedrock_error + (system_block, converse_block) contribution" where
  "bedrock_contribution parse m =
     (if role m = ''system'' then Inr (Systems (if content m \<noteq> [] then [SystemText (content m)] else []))
      else if role m = ''user'' then result_bind (bedrock_user_content m) (\<lambda>c. Inr (Turn ''user'' c))
      else if role m = ''assistant'' then
        result_bind (bedrock_assistant_content parse m) (\<lambda>c. Inr (Turn ''assistant'' c))
      else if role m = ''tool'' then
        result_bind (bedrock_result_content m) (\<lambda>c. Inr (Result (ToolResultBlock (tool_call_id m) c)))
      else Inr Skipped)"

section \<open>Requests\<close>

definition converse_tool_spec :: "tool_def \<Rightarrow> converse_tool" where
  "converse_tool_spec d =
     ToolSpec (def_name d) (if def_desc d \<noteq> [] then Some (def_desc d) else None) (def_params d)"

definition build_converse_input :: "(string \<Rightarrow> json_error + json) \<Rightarrow> (rat \<Rightarrow> 'f) \<Rightarrow> chat_request \<Rightarrow> string \<Rightarrow> int \<Rightarrow>
    bedrock_error + 'f converse_input" where
  "build_converse_input parse float r model max_toks =
     (if model = [] then Inl ModelRequired
      else result_bind (batch_loop (bedrock_contribution parse) (filter_for_request (req_messages r)) no_history) (\<lambda>h.
        Inr \<lparr>ci_model = model, ci_messages = hist_messages h, ci_system = hist_system h,
             ci_tools = (if req_tools r = [] then None else Some (map converse_tool_spec (req_tools r))),
             ci_inference = \<lparr>inf_max_tokens = wrap32 (if max_toks = 0 then 4096 else max_toks),
               inf_temperature = (if req_temperature r \<noteq> 0 then Some (float (req_temperature r)) else None),
               inf_top_p = (if req_top_p r \<noteq> 0 then Some (float (req_top_p r)) else None)\<rparr>,
             ci_thinking = None, ci_guardrail = None\<rparr>))"

text \<open>The input always has an inference configuration with a token cap here.\<close>

definition thinking_budget :: "int \<Rightarrow> int \<Rightarrow> int" where
  "thinking_budget configured cap =
     (let b = (if configured = 0 then 4096 else configured);
          b = (if b < 1024 then 1024 else b)
      in if cap \<le> b then cap - 1 else b)"

definition apply_extended_thinking :: "(rat \<Rightarrow> 'f) \<Rightarrow> int \<Rightarrow> 'f converse_input \<Rightarrow> 'f converse_input" where
  "apply_extended_thinking float budget ci =
     ci\<lparr>ci_inference := (ci_inference ci)\<lparr>inf_temperature := Some (float 1), inf_top_p := None\<rparr>,
        ci_thinking := Some (thinking_budget budget (inf_max_tokens (ci_inference ci)))\<rparr>"

text \<open>Cache points at the end of the last \<open>n\<close> messages.\<close>

fun point_tail :: "nat \<Rightarrow> (string \<times> converse_block list) list \<Rightarrow> (string \<times> converse_block list) list" where
  "point_tail 0 ms = ms"
| "point_tail (Suc n) ms =
     (if ms = [] then []
      else point_tail n (butlast ms) @ [(fst (last ms), snd (last ms) @ [CachePoint])])"

definition apply_cache_points :: "'f converse_input \<Rightarrow> 'f converse_input" where
  "apply_cache_points ci =
     (let has_tools = (case ci_tools ci of Some (t # ts) \<Rightarrow> True | _ \<Rightarrow> False);
          used = (if ci_system ci \<noteq> [] then 1 else 0) + (if has_tools then 1 else 0 :: nat)
      in ci\<lparr>ci_system := (if ci_system ci \<noteq> [] then ci_system ci @ [SystemCachePoint] else []),
            ci_tools := (if has_tools then map_option (\<lambda>ts. ts @ [ToolCachePoint]) (ci_tools ci) else ci_tools ci),
            ci_messages := point_tail (min (4 - used) 2) (ci_messages ci)\<rparr>)"

definition bedrock_guardrail_headers :: "string \<Rightarrow> string \<Rightarrow> string \<Rightarrow> bedrock_error + (string \<times> string) list" where
  "bedrock_guardrail_headers gid version trace =
     (if gid = [] then Inr []
      else if version = [] then Inl GuardrailVersionRequired
      else
        let t = trace_runes trace;
            headers = (\<lambda>h. Inr [(''X-Amzn-Bedrock-GuardrailIdentifier'', gid),
              (''X-Amzn-Bedrock-GuardrailVersion'', version), (''X-Amzn-Bedrock-Trace'', h)])
        in if t = rune_text ''enabled'' \<or> t = rune_text ''enabled_full'' then headers ''ENABLED''
           else if t = rune_text ''disabled'' then headers ''DISABLED''
           else Inl (UnknownTrace trace))"

definition apply_guardrail :: "string \<Rightarrow> string \<Rightarrow> string \<Rightarrow> 'f converse_input \<Rightarrow>
    bedrock_error + 'f converse_input" where
  "apply_guardrail gid version trace ci =
     (if gid = [] then Inl GuardrailIdRequired
      else if version = [] then Inl GuardrailVersionRequired
      else
        let t = trace_runes trace;
            resolved = (\<lambda>m. Inr (ci\<lparr>ci_guardrail := Some (gid, version, m)\<rparr>))
        in if t = rune_text ''enabled'' then resolved TraceEnabled
           else if t = rune_text ''disabled'' then resolved TraceDisabled
           else if t = rune_text ''enabled_full'' then resolved TraceEnabledFull
           else Inl (UnknownTrace trace))"

section \<open>The stream\<close>

text \<open>
  The events of the SDK's stream as the loop takes them apart. The SDK's nil pointers are
  \<open>None\<close>: the block index, the id and name of a start, the input of a delta, the counts.
\<close>

datatype converse_start = StartToolUse "string option" "string option" | StartOther

datatype converse_delta =
    DeltaText string
  | DeltaReasoning string
  | DeltaReasoningOther
  | DeltaToolUse "string option"
  | DeltaOther

datatype converse_event =
    BlockStarted "int option" converse_start
  | BlockDelta "int option" converse_delta
  | BlockStopped "int option"
  | Metadata "(int option \<times> int option \<times> int option \<times> int option) option"
  | MessageStart
  | MessageStop
  | OtherMember

definition deref_string :: "string option \<Rightarrow> string" where
  "deref_string p = (case p of None \<Rightarrow> [] | Some s \<Rightarrow> s)"

definition deref_int32 :: "int option \<Rightarrow> int" where
  "deref_int32 p = (case p of None \<Rightarrow> 0 | Some n \<Rightarrow> n)"

definition bedrock_usage :: "int \<Rightarrow> int \<Rightarrow> int \<Rightarrow> int \<Rightarrow> message_usage" where
  "bedrock_usage inp out cread cwrite =
     \<lparr>input_tokens = inp, output_tokens = out, cache_read_tokens = cread, cache_write_tokens = cwrite,
      reasoning_tokens = 0, total_tokens = wrap64 (wrap64 (wrap64 (inp + out) + cread) + cwrite)\<rparr>"

fun converse_step :: "converse_event \<Rightarrow> inflight \<Rightarrow> inflight \<times> event list" where
  "converse_step (BlockStarted p b) m =
     (case b of
        StartToolUse d n \<Rightarrow>
          (m(deref_int32 p \<mapsto> \<lparr>acc_id = deref_string d, acc_name = deref_string n, acc_input = []\<rparr>), [])
      | StartOther \<Rightarrow> (m, []))"
| "converse_step (BlockDelta p d) m =
     (case d of
        DeltaText t \<Rightarrow> (m, if t \<noteq> [] then [TextDelta t] else [])
      | DeltaReasoning t \<Rightarrow> (m, if t \<noteq> [] then [ReasoningDelta t] else [])
      | DeltaReasoningOther \<Rightarrow> (m, [])
      | DeltaToolUse inp \<Rightarrow>
          (case (m (deref_int32 p), inp) of
             (Some a, Some s) \<Rightarrow> (m(deref_int32 p \<mapsto> a\<lparr>acc_input := acc_input a @ s\<rparr>), [])
           | _ \<Rightarrow> (m, []))
      | DeltaOther \<Rightarrow> (m, []))"
| "converse_step (BlockStopped p) m =
     (case m (deref_int32 p) of
        Some a \<Rightarrow>
          (let args = (if acc_input a = [] then ''{}'' else acc_input a)
           in (m(deref_int32 p := None),
               [ToolCallComplete [\<lparr>call_id = acc_id a, call_type = ''function'',
                  fn = \<lparr>fn_name = acc_name a, arguments = args\<rparr>\<rparr>]]))
      | None \<Rightarrow> (m, []))"
| "converse_step (Metadata u) m =
     (m, case u of None \<Rightarrow> []
         | Some (a, b, c, d) \<Rightarrow>
             [UsageEvent (bedrock_usage (deref_int32 a) (deref_int32 b) (deref_int32 c) (deref_int32 d))])"
| "converse_step MessageStart m = (m, [])"
| "converse_step MessageStop m = (m, [])"
| "converse_step OtherMember m = (m, [])"

definition converse_events :: "converse_event list \<Rightarrow> go_error option \<Rightarrow> event list" where
  "converse_events evs err =
     run_steps converse_step evs Map.empty @
     [case err of Some e \<Rightarrow> ErrorEvent (VendorError (Wrapped ''bedrock stream: '' e)) | None \<Rightarrow> Done []]"

section \<open>Chat\<close>

record bedrock_client =
  bc_model :: string
  bc_max_tokens :: int
  bc_thinking :: bool
  bc_budget :: int
  bc_guardrail_id :: string
  bc_guardrail_version :: string
  bc_guardrail_trace :: string
  bc_caching :: bool

definition converse_request :: "(string \<Rightarrow> json_error + json) \<Rightarrow> (rat \<Rightarrow> 'f) \<Rightarrow> bedrock_client \<Rightarrow> chat_request \<Rightarrow>
    bedrock_error + 'f converse_input" where
  "converse_request parse float c r =
     result_bind (build_converse_input parse float r (if bc_model c = [] then req_model r else bc_model c)
         (bc_max_tokens c)) (\<lambda>ci.
     let ci = (if bc_thinking c then apply_extended_thinking float (bc_budget c) ci else ci) in
     result_bind (if bc_guardrail_id c \<noteq> [] then
         apply_guardrail (bc_guardrail_id c) (bc_guardrail_version c) (bc_guardrail_trace c) ci else Inr ci) (\<lambda>ci.
       Inr (if bc_caching c then apply_cache_points ci else ci)))"

datatype bedrock_failure = BadRequest bedrock_error | NoClient go_error | SendFailed go_error

text \<open>\<open>newBedrockClient\<close>: \<open>load\<close> loads the AWS configuration, which stands for the client.\<close>

definition converse_setup :: "(aws_load_option list \<Rightarrow> go_error + 'k) \<Rightarrow> string \<Rightarrow> string \<Rightarrow> go_error + 'k" where
  "converse_setup load region profile =
     (case load (load_options region profile) of
        Inl e \<Rightarrow> Inl (Wrapped ''aws config: '' e)
      | Inr k \<Rightarrow> Inr k)"

text \<open>
  \<open>Chat\<close>: \<open>ready\<close> is the answer of \<open>client\<close>, \<open>open_stream\<close> that client's \<open>ConverseStream\<close>, with the
  events the stream yields and the error it ends with. The result pairs the reply with the tracker
  and whether the probe was started.
\<close>

definition chat_bedrock :: "(string \<Rightarrow> json_error + json) \<Rightarrow> (rat \<Rightarrow> 'f) \<Rightarrow> go_error + 'k \<Rightarrow>
    ('k \<Rightarrow> 'f converse_input \<Rightarrow> go_error + converse_event list \<times> go_error option) \<Rightarrow> bedrock_client \<Rightarrow> chat_request \<Rightarrow>
    nat \<Rightarrow> tracker \<Rightarrow> (bedrock_failure + event list) \<times> tracker \<times> bool" where
  "chat_bedrock parse float ready open_stream c r now t =
     (case converse_request parse float c r of
        Inl e \<Rightarrow> (Inl (BadRequest e), t, False)
      | Inr ci \<Rightarrow>
     (case ready of
        Inl e \<Rightarrow> (Inl (NoClient e), t, False)
      | Inr k \<Rightarrow>
     (case open_stream k ci of
        Inl e \<Rightarrow> (Inl (SendFailed e), note_failure now e t)
      | Inr (evs, err) \<Rightarrow> (Inr (converse_events evs err), fst (tracker_set now StateConnected t), False))))"

text \<open>
  A turn on the client's state, the kept result of the construction and the tracker: \<open>client\<close> is
  called only for a request that could be built. \<open>build\<close> is what constructing the client would
  give now, \<open>interval\<close> how long a probe holds its claim.
\<close>

definition converse_turn where
  "converse_turn parse float c interval = (\<lambda>(build, open_stream, r, now) (sdk, t).
     (case converse_request parse float c r of
        Inl e \<Rightarrow> (Inl (BadRequest e), (sdk, t), None)
      | Inr _ \<Rightarrow>
     (case once_sdk build sdk of (ready, sdk') \<Rightarrow>
     (case chat_bedrock parse float ready open_stream c r now t of (reply, t', spawn) \<Rightarrow>
     (case settle interval (t', spawn) of (t'', sleep) \<Rightarrow> (reply, (sdk', t''), sleep))))))"

text \<open>Once the construction failed, every later turn fails with the same error.\<close>

lemma converse_turn_stuck:
  "converse_turn parse float c interval (build, open_stream, r, now) (Some (Inl e), t) =
     (Inl (case converse_request parse float c r of Inl x \<Rightarrow> BadRequest x | Inr _ \<Rightarrow> NoClient e), (Some (Inl e), t), None)"
  by (simp add: converse_turn_def chat_bedrock_def settle_def split: sum.split)

section \<open>What the translation keeps\<close>

subsection \<open>Tool calls and results of the history\<close>

fun use_of :: "converse_block \<Rightarrow> (string \<times> string) list" where
  "use_of (ToolUseBlock i n j) = [(i, n)]"
| "use_of _ = []"

fun result_of :: "converse_block \<Rightarrow> string list" where
  "result_of (ToolResultBlock i cs) = [i]"
| "result_of _ = []"

lemma bedrock_part_blocks_plain:
  "result_map bedrock_block ps = Inr bs \<Longrightarrow> concat (map use_of bs) = [] \<and> concat (map result_of bs) = []"
  by (induction ps arbitrary: bs) (auto simp: bedrock_block_def result_bind_Inr split: sum.splits if_splits)

lemma bedrock_tool_blocks_uses:
  "result_map (bedrock_tool_use parse) cs = Inr bs \<Longrightarrow>
     concat (map use_of bs) = map (\<lambda>c. (call_id c, fn_name (fn c))) cs \<and> concat (map result_of bs) = []"
  by (induction cs arbitrary: bs) (auto simp: bedrock_tool_use_def split: sum.splits if_splits)

definition calls_of_message :: "message \<Rightarrow> (string \<times> string) list" where
  "calls_of_message m =
     (if role m = ''assistant'' then map (\<lambda>c. (call_id c, fn_name (fn c))) (tool_calls m) else [])"

definition results_of_message :: "message \<Rightarrow> string list" where
  "results_of_message m = (if role m = ''tool'' then [tool_call_id m] else [])"

definition system_of_message :: "message \<Rightarrow> system_block list" where
  "system_of_message m = (if role m = ''system'' \<and> content m \<noteq> [] then [SystemText (content m)] else [])"

lemma user_content_tools:
  "bedrock_user_content m = Inr c \<Longrightarrow> concat (map use_of c) = [] \<and> concat (map result_of c) = []"
  using bedrock_part_blocks_plain [of "parts m"]
  by (auto simp: bedrock_user_content_def bedrock_leading_def result_bind_Inr split: if_splits)

lemma assistant_content_tools:
  "bedrock_assistant_content parse m = Inr c \<Longrightarrow>
     concat (map use_of c) = map (\<lambda>c. (call_id c, fn_name (fn c))) (tool_calls m) \<and> concat (map result_of c) = []"
  using bedrock_part_blocks_plain [of "parts m"] bedrock_tool_blocks_uses [of parse "tool_calls m"]
  by (auto simp: bedrock_assistant_content_def bedrock_leading_def result_bind_Inr)

lemma bedrock_contribution_tools:
  "bedrock_contribution parse m = Inr c \<Longrightarrow>
     concat (map use_of (blocks_in c)) = calls_of_message m \<and>
     concat (map result_of (blocks_in c)) = results_of_message m \<and> systems_in c = system_of_message m"
  using user_content_tools [of m] assistant_content_tools [of parse m]
  by (auto simp: bedrock_contribution_def calls_of_message_def results_of_message_def system_of_message_def
      result_bind_Inr split: if_splits)

lemma bedrock_contributions_tools:
  "result_map (bedrock_contribution parse) ms = Inr cs \<Longrightarrow>
     concat (map use_of (concat (map blocks_in cs))) = concat (map calls_of_message ms) \<and>
     concat (map result_of (concat (map blocks_in cs))) = concat (map results_of_message ms) \<and>
     concat (map systems_in cs) = concat (map system_of_message ms)"
proof (induction ms arbitrary: cs)
  case (Cons m ms)
  obtain c cs' where "bedrock_contribution parse m = Inr c" "result_map (bedrock_contribution parse) ms = Inr cs'" "cs = c # cs'"
    using Cons.prems by (auto split: sum.splits)
  with Cons.IH bedrock_contribution_tools show ?case by simp
qed simp

interpretation bedrock_batching: batching "bedrock_contribution parse" "\<lambda>b. result_of b \<noteq> []" "[''user'', ''assistant'']"
proof unfold_locales
  fix m and b :: converse_block
  show "bedrock_contribution parse m = Inr (Result b) \<Longrightarrow> result_of b \<noteq> []"
    by (auto simp: bedrock_contribution_def result_bind_Inr split: if_splits)
next
  fix m r and bs :: "converse_block list"
  show "bedrock_contribution parse m = Inr (Turn r bs) \<Longrightarrow>
      r \<in> set [''user'', ''assistant''] \<and> list_all (\<lambda>b. \<not> result_of b \<noteq> []) bs"
    using user_content_tools [of m] assistant_content_tools [of parse m]
    by (auto simp: bedrock_contribution_def result_bind_Inr list_all_iff split: if_splits)
qed

subsection \<open>Cache points\<close>

definition strip_points :: "'f converse_input \<Rightarrow> 'f converse_input" where
  "strip_points ci = ci\<lparr>ci_system := filter (\<lambda>b. b \<noteq> SystemCachePoint) (ci_system ci),
     ci_tools := map_option (filter (\<lambda>t. t \<noteq> ToolCachePoint)) (ci_tools ci),
     ci_messages := map (\<lambda>(r, c). (r, filter (\<lambda>b. b \<noteq> CachePoint) c)) (ci_messages ci)\<rparr>"

definition count_points :: "'f converse_input \<Rightarrow> nat" where
  "count_points ci = count_list (ci_system ci) SystemCachePoint +
     (case ci_tools ci of None \<Rightarrow> 0 | Some ts \<Rightarrow> count_list ts ToolCachePoint) +
     sum_list (map (\<lambda>m. count_list (snd m) CachePoint) (ci_messages ci))"

definition no_points :: "'f converse_input \<Rightarrow> bool" where
  "no_points ci \<longleftrightarrow> SystemCachePoint \<notin> set (ci_system ci) \<and>
     (case ci_tools ci of None \<Rightarrow> True | Some ts \<Rightarrow> ToolCachePoint \<notin> set ts) \<and>
     list_all (\<lambda>m. CachePoint \<notin> set (snd m)) (ci_messages ci)"

lemma filter_absent: "x \<notin> set xs \<Longrightarrow> filter (\<lambda>y. y \<noteq> x) xs = xs"
  by (induction xs) auto

lemma point_tail_strip:
  "map (\<lambda>(r, c). (r, filter (\<lambda>b. b \<noteq> CachePoint) c)) (point_tail n ms) =
   map (\<lambda>(r, c). (r, filter (\<lambda>b. b \<noteq> CachePoint) c)) ms"
proof (induction n ms rule: point_tail.induct)
  case (2 n ms)
  then show ?case by (cases ms rule: rev_cases) (simp_all add: case_prod_unfold)
qed simp

lemma point_tail_count:
  "list_all (\<lambda>m. CachePoint \<notin> set (snd m)) ms \<Longrightarrow>
     sum_list (map (\<lambda>m. count_list (snd m) CachePoint) (point_tail n ms)) \<le> n"
proof (induction n ms rule: point_tail.induct)
  case (1 ms)
  then show ?case by (auto simp: list_all_iff count_list_0_iff)
next
  case (2 n ms)
  then show ?case by (cases ms rule: rev_cases) (auto simp: count_list_0_iff)
qed

lemma cache_points_spec:
  assumes "no_points ci"
  shows "count_points (apply_cache_points ci) \<le> 4" "strip_points (apply_cache_points ci) = ci"
proof -
  have tail: "sum_list (map (\<lambda>m. count_list (snd m) CachePoint) (point_tail n (ci_messages ci))) \<le> n" for n
    using assms by (intro point_tail_count) (simp add: no_points_def)
  have "sum_list (map (\<lambda>m. count_list (snd m) CachePoint) (ci_messages (apply_cache_points ci))) \<le> 2"
    using tail [of 2] by (simp add: apply_cache_points_def Let_def)
  moreover have "count_list (ci_system (apply_cache_points ci)) SystemCachePoint \<le> 1"
    using assms by (simp add: apply_cache_points_def Let_def no_points_def count_list_0_iff)
  moreover have "(case ci_tools (apply_cache_points ci) of None \<Rightarrow> 0 | Some ts \<Rightarrow> count_list ts ToolCachePoint) \<le> 1"
    using assms by (auto simp: apply_cache_points_def Let_def no_points_def count_list_0_iff split: option.splits list.splits)
  ultimately show "count_points (apply_cache_points ci) \<le> 4" by (simp add: count_points_def)
  have "map (\<lambda>(r, c). (r, filter (\<lambda>b. b \<noteq> CachePoint) c)) (ci_messages ci) = ci_messages ci"
    using assms by (intro map_idI) (auto simp: no_points_def list_all_iff filter_absent)
  then show "strip_points (apply_cache_points ci) = ci"
    using assms by (auto simp: strip_points_def apply_cache_points_def Let_def no_points_def filter_absent
        point_tail_strip split: option.splits list.splits)
qed

lemma content_no_points:
  "bedrock_user_content m = Inr c \<Longrightarrow> CachePoint \<notin> set c"
  "bedrock_assistant_content parse m = Inr c \<Longrightarrow> CachePoint \<notin> set c"
proof -
  have parts: "CachePoint \<notin> set bs" if "result_map bedrock_block ps = Inr bs" for ps bs
  proof -
    have "list_all (\<lambda>b. b \<noteq> CachePoint) bs"
      by (rule result_map_all [OF that]) (auto simp: bedrock_block_def result_bind_Inr split: if_splits)
    then show ?thesis by (auto simp: list_all_iff)
  qed
  have tools: "CachePoint \<notin> set bs" if "result_map (bedrock_tool_use parse) cs = Inr bs" for cs bs
  proof -
    have "list_all (\<lambda>b. b \<noteq> CachePoint) bs"
      by (rule result_map_all [OF that]) (auto simp: bedrock_tool_use_def split: if_splits sum.splits)
    then show ?thesis by (auto simp: list_all_iff)
  qed
  show "bedrock_user_content m = Inr c \<Longrightarrow> CachePoint \<notin> set c"
    using parts by (auto simp: bedrock_user_content_def bedrock_leading_def result_bind_Inr split: if_splits)
  show "bedrock_assistant_content parse m = Inr c \<Longrightarrow> CachePoint \<notin> set c"
    using parts tools by (auto simp: bedrock_assistant_content_def bedrock_leading_def result_bind_Inr split: if_splits)
qed

lemma contribution_no_points:
  "bedrock_contribution parse m = Inr c \<Longrightarrow> CachePoint \<notin> set (blocks_in c) \<and> SystemCachePoint \<notin> set (systems_in c)"
  using content_no_points(1) [of m] content_no_points(2) [of parse m]
  by (auto simp: bedrock_contribution_def result_bind_Inr split: if_splits)

lemma build_no_points:
  assumes "build_converse_input parse float r model n = Inr ci"
  shows "no_points ci"
proof -
  obtain h where h: "batch_loop (bedrock_contribution parse) (filter_for_request (req_messages r)) no_history = Inr h"
      "ci_messages ci = hist_messages h" "ci_system ci = hist_system h"
    using assms by (auto simp: build_converse_input_def result_bind_Inr split: if_splits)
  obtain cs where cs: "result_map (bedrock_contribution parse) (filter_for_request (req_messages r)) = Inr cs"
      "sent_blocks (hist_messages h) = concat (map blocks_in cs)" "hist_system h = concat (map systems_in cs)"
    using batch_loop_kept [OF h(1)] by (auto simp: no_history_def hist_blocks_def)
  have "list_all (\<lambda>c. CachePoint \<notin> set (blocks_in c) \<and> SystemCachePoint \<notin> set (systems_in c)) cs"
    by (rule result_map_all [OF cs(1)]) (rule contribution_no_points)
  then have "CachePoint \<notin> set (sent_blocks (hist_messages h))" "SystemCachePoint \<notin> set (hist_system h)"
    unfolding cs(2,3) by (auto simp: list_all_iff)
  moreover have "case ci_tools ci of None \<Rightarrow> True | Some ts \<Rightarrow> ToolCachePoint \<notin> set ts"
    using assms by (auto simp: build_converse_input_def result_bind_Inr converse_tool_spec_def split: if_splits)
  ultimately show ?thesis by (auto simp: no_points_def h sent_blocks_def list_all_iff)
qed

lemma bedrock_request_history:
  assumes "build_converse_input parse float r model n = Inr ci" "ms = filter_for_request (req_messages r)"
  shows "concat (map use_of (sent_blocks (ci_messages ci))) = concat (map calls_of_message ms) \<and>
    concat (map result_of (sent_blocks (ci_messages ci))) = concat (map results_of_message ms) \<and>
    ci_system ci = concat (map system_of_message ms)"
proof -
  obtain h where h: "batch_loop (bedrock_contribution parse) ms no_history = Inr h" "ci_messages ci = hist_messages h"
      "ci_system ci = hist_system h"
    using assms by (auto simp: build_converse_input_def result_bind_Inr split: if_splits)
  obtain cs where "result_map (bedrock_contribution parse) ms = Inr cs"
      "sent_blocks (hist_messages h) = concat (map blocks_in cs)" "hist_system h = concat (map systems_in cs)"
    using batch_loop_kept [OF h(1)] by (auto simp: no_history_def hist_blocks_def)
  then show ?thesis using bedrock_contributions_tools by (simp add: h)
qed

section \<open>Properties\<close>


definition demo_request :: chat_request where
  "demo_request = \<lparr>req_model = ''m'', req_messages =
       [empty_message\<lparr>role := ''system'', content := ''s''\<rparr>,
        empty_message\<lparr>role := ''assistant'', tool_calls := [\<lparr>call_id = ''1'', call_type = ''function'',
          fn = \<lparr>fn_name = ''f'', arguments = []\<rparr>\<rparr>]\<rparr>,
        empty_message\<lparr>role := ''tool'', tool_call_id := ''1'', content := ''r''\<rparr>],
     req_stream = True, req_tools = [\<lparr>def_type = ''function'', def_name = ''t'', def_desc = [], def_params = JNull\<rparr>],
     req_max_tokens = 0, req_stop = [], req_temperature = 1 / 2, req_top_k = 7, req_top_p = 1 / 4, req_min_p = 0,
     req_presence_penalty = 0, req_frequency_penalty = 0, req_repetition_penalty = 0\<rparr>"

definition demo_input :: "bool \<Rightarrow> bool \<Rightarrow> rat converse_input" where
  "demo_input think mk = \<lparr>ci_model = ''m'',
     ci_messages = [(''assistant'', ToolUseBlock ''1'' ''f'' (JObj []) # (if mk then [CachePoint] else [])),
       (''user'', ToolResultBlock ''1'' [ResultText ''r''] # (if mk then [CachePoint] else []))],
     ci_system = SystemText ''s'' # (if mk then [SystemCachePoint] else []),
     ci_tools = Some (ToolSpec ''t'' None JNull # (if mk then [ToolCachePoint] else [])),
     ci_inference = \<lparr>inf_max_tokens = 4096, inf_temperature = Some (if think then 1 else 1 / 2),
       inf_top_p = (if think then None else Some (1 / 4))\<rparr>,
     ci_thinking = (if think then Some 4095 else None), ci_guardrail = None\<rparr>"

lemma demo_input_built:
  "build_converse_input parse (\<lambda>q. q) demo_request ''m'' 0 = Inr (demo_input False False)"
  by (simp add: build_converse_input_def demo_request_def demo_input_def filter_for_request_def empty_message_def
      bedrock_contribution_def no_history_def flush_def bedrock_assistant_content_def bedrock_tool_use_def
      bedrock_leading_def bedrock_result_content_def converse_tool_spec_def wrap32_def)


text \<open>
  A round of tool results becomes one user message with the results in order, whatever the
  messages after it, as long as the round ends with the history or with a user or assistant turn.
\<close>

theorem tool_round_collapsed:
  assumes "ts \<noteq> []" "list_all (\<lambda>m. role m = ''tool'') ts" "hist_pending h = []"
    "rest = [] \<or> role (hd rest) = ''user'' \<or> role (hd rest) = ''assistant''"
  shows "batch_loop (bedrock_contribution parse) (ts @ rest) h =
    result_bind (result_map (\<lambda>m. result_bind (bedrock_result_content m) (\<lambda>c. Inr (ToolResultBlock (tool_call_id m) c))) ts)
      (\<lambda>rs. batch_loop (bedrock_contribution parse) rest
        (h\<lparr>hist_messages := hist_messages h @ [(''user'', rs)]\<rparr>))"
proof (rule batch_loop_round [OF assms(1) _ assms(3)])
  have "bedrock_contribution parse m =
      map_sum id Result (result_bind (bedrock_result_content m) (\<lambda>c. Inr (ToolResultBlock (tool_call_id m) c)))"
    if "role m = ''tool''" for m
    using that by (cases "bedrock_result_content m") (simp_all add: bedrock_contribution_def)
  then show "list_all (\<lambda>m. bedrock_contribution parse m =
      map_sum id Result (result_bind (bedrock_result_content m) (\<lambda>c. Inr (ToolResultBlock (tool_call_id m) c)))) ts"
    using assms(2) by (simp add: list_all_iff)
  have "(\<exists>r bs. bedrock_contribution parse m = Inr (Turn r bs)) \<or> (\<exists>e. bedrock_contribution parse m = Inl e)"
    if "role m = ''user'' \<or> role m = ''assistant''" for m
    using that by (cases "bedrock_user_content m"; cases "bedrock_assistant_content parse m")
      (auto simp: bedrock_contribution_def)
  then show "rest = [] \<or> (\<exists>r bs. bedrock_contribution parse (hd rest) = Inr (Turn r bs)) \<or>
      (\<exists>e. bedrock_contribution parse (hd rest) = Inl e)"
    using assms(4) by blast
qed

theorem tool_round_collapsed_witness:
  "batch_loop (bedrock_contribution (\<lambda>_. Inr JNull)) ([empty_message\<lparr>role := ''tool'', tool_call_id := ''1''\<rparr>,
      empty_message\<lparr>role := ''tool'', tool_call_id := ''2''\<rparr>] @ []) no_history =
    result_bind (result_map (\<lambda>m. result_bind (bedrock_result_content m) (\<lambda>c. Inr (ToolResultBlock (tool_call_id m) c)))
        [empty_message\<lparr>role := ''tool'', tool_call_id := ''1''\<rparr>, empty_message\<lparr>role := ''tool'', tool_call_id := ''2''\<rparr>])
      (\<lambda>rs. batch_loop (bedrock_contribution (\<lambda>_. Inr JNull)) []
        (no_history\<lparr>hist_messages := hist_messages no_history @ [(''user'', rs)]\<rparr>))"
  using tool_round_collapsed [of "[empty_message\<lparr>role := ''tool'', tool_call_id := ''1''\<rparr>,
      empty_message\<lparr>role := ''tool'', tool_call_id := ''2''\<rparr>]" no_history "[]" "\<lambda>_. Inr JNull"]
  by (simp add: no_history_def)

text \<open>
  Prompt caching spends at most four cache points, and without them the request is the one sent
  with caching off.
\<close>

lemma strip_points_thinking:
  "no_points ci \<Longrightarrow> no_points (apply_extended_thinking float b ci)"
  "apply_guardrail gid v tr ci = Inr ci' \<Longrightarrow> no_points ci \<Longrightarrow> no_points ci'"
  by (auto simp: no_points_def apply_extended_thinking_def apply_guardrail_def Let_def split: if_splits)

lemma converse_request_uncached:
  "converse_request parse float c r =
     result_bind (converse_request parse float (c\<lparr>bc_caching := False\<rparr>) r)
       (\<lambda>ci. Inr (if bc_caching c then apply_cache_points ci else ci))"
  by (simp add: converse_request_def result_bind_assoc Let_def cong del: if_weak_cong)

lemma uncached_no_points:
  assumes "converse_request parse float (c\<lparr>bc_caching := False\<rparr>) r = Inr b"
  shows "no_points b"
proof -
  obtain a where a: "build_converse_input parse float r (if bc_model c = [] then req_model r else bc_model c) (bc_max_tokens c) = Inr a"
      and b: "(let x = (if bc_thinking c then apply_extended_thinking float (bc_budget c) a else a)
        in if bc_guardrail_id c \<noteq> [] then
             apply_guardrail (bc_guardrail_id c) (bc_guardrail_version c) (bc_guardrail_trace c) x else Inr x) = Inr b"
    using assms by (auto simp: converse_request_def result_bind_Inr Let_def cong del: if_weak_cong)
  have "no_points (if bc_thinking c then apply_extended_thinking float (bc_budget c) a else a)"
    using strip_points_thinking(1) build_no_points [OF a] by auto
  then show ?thesis using b strip_points_thinking(2) by (auto simp: Let_def split: if_splits)
qed

theorem bedrock_cache_points:
  assumes "converse_request parse float c r = Inr ci" "bc_caching c"
  shows "count_points ci \<le> 4 \<and> converse_request parse float (c\<lparr>bc_caching := False\<rparr>) r = Inr (strip_points ci)"
proof -
  obtain b where b: "converse_request parse float (c\<lparr>bc_caching := False\<rparr>) r = Inr b" "ci = apply_cache_points b"
    using assms converse_request_uncached [of parse float c r] by (auto simp: result_bind_Inr)
  with cache_points_spec [OF uncached_no_points [OF b(1)]] show ?thesis by simp
qed

definition demo_config :: bedrock_client where
  "demo_config = \<lparr>bc_model = [], bc_max_tokens = 0, bc_thinking = True, bc_budget = 5000, bc_guardrail_id = [],
     bc_guardrail_version = [], bc_guardrail_trace = [], bc_caching = True\<rparr>"

lemma demo_request_built: "converse_request parse (\<lambda>q. q) demo_config demo_request = Inr (demo_input True True)"
proof -
  have "req_model demo_request = ''m''" by (simp add: demo_request_def)
  moreover have "apply_cache_points (apply_extended_thinking (\<lambda>q. q) 5000 (demo_input False False)) = demo_input True True"
    by (simp add: demo_input_def apply_cache_points_def apply_extended_thinking_def thinking_budget_def numeral_2_eq_2)
  ultimately show ?thesis by (simp add: converse_request_def demo_config_def demo_input_built)
qed

theorem bedrock_cache_points_witness:
  "count_points (demo_input True True) \<le> 4 \<and>
    converse_request (\<lambda>_. Inr JNull) (\<lambda>q. q) (demo_config\<lparr>bc_caching := False\<rparr>) demo_request =
      Inr (strip_points (demo_input True True))"
  by (rule bedrock_cache_points [OF demo_request_built]) (simp add: demo_config_def)

text \<open>
  Extended thinking on Bedrock: temperature one, no top-p, and a budget below the token cap the
  request carries, at least 1024 when the cap is larger than that.
\<close>

theorem bedrock_thinking:
  assumes "converse_request parse float c r = Inr ci" "bc_thinking c"
  shows "\<exists>t. ci_thinking ci = Some t \<and> t < inf_max_tokens (ci_inference ci) \<and>
    (1024 < inf_max_tokens (ci_inference ci) \<longrightarrow> 1024 \<le> t) \<and>
    (inf_max_tokens (ci_inference ci) \<le> 1024 \<longrightarrow> t = inf_max_tokens (ci_inference ci) - 1) \<and>
    inf_max_tokens (ci_inference ci) = wrap32 (if bc_max_tokens c = 0 then 4096 else bc_max_tokens c) \<and>
    inf_temperature (ci_inference ci) = Some (float 1) \<and> inf_top_p (ci_inference ci) = None"
proof -
  have guard: "ci_thinking y = ci_thinking x \<and> ci_inference y = ci_inference x"
    if "apply_guardrail gid v tr x = Inr y" for gid v tr and x y :: "'a converse_input"
    using that by (auto simp: apply_guardrail_def Let_def split: if_splits)
  have cache: "ci_thinking (apply_cache_points x) = ci_thinking x"
    "ci_inference (apply_cache_points x) = ci_inference x" for x :: "'a converse_input"
    by (simp_all add: apply_cache_points_def Let_def)
  obtain a where a: "build_converse_input parse float r (if bc_model c = [] then req_model r else bc_model c) (bc_max_tokens c) = Inr a"
      and ci: "ci_thinking ci = ci_thinking (apply_extended_thinking float (bc_budget c) a)"
        "ci_inference ci = ci_inference (apply_extended_thinking float (bc_budget c) a)"
    using assms unfolding converse_request_def result_bind_Inr Let_def
    by (auto simp: cache split: if_splits dest: guard)
  have "inf_max_tokens (ci_inference a) = wrap32 (if bc_max_tokens c = 0 then 4096 else bc_max_tokens c)"
    using a by (auto simp: build_converse_input_def result_bind_Inr split: if_splits)
  then show ?thesis by (simp add: ci apply_extended_thinking_def thinking_budget_def Let_def)
qed

theorem bedrock_thinking_witness:
  "\<exists>t. ci_thinking (demo_input True True) = Some t \<and> t < inf_max_tokens (ci_inference (demo_input True True)) \<and>
    (1024 < inf_max_tokens (ci_inference (demo_input True True)) \<longrightarrow> 1024 \<le> t) \<and>
    (inf_max_tokens (ci_inference (demo_input True True)) \<le> 1024 \<longrightarrow>
      t = inf_max_tokens (ci_inference (demo_input True True)) - 1) \<and>
    inf_max_tokens (ci_inference (demo_input True True)) =
      wrap32 (if bc_max_tokens demo_config = 0 then 4096 else bc_max_tokens demo_config) \<and>
    inf_temperature (ci_inference (demo_input True True)) = Some 1 \<and>
    inf_top_p (ci_inference (demo_input True True)) = None"
  by (rule bedrock_thinking [OF demo_request_built [where parse = "\<lambda>_. Inr JNull"]]) (simp add: demo_config_def)

text \<open>The two ways to apply a guardrail agree: for any settings the structured field of Converse and
  the headers of InvokeModel accept the same, fail with the same error, and carry the same id and
  version; the header is ENABLED for both enabled traces.
\<close>

theorem guardrail_paths_agree:
  assumes "gid \<noteq> []"
  shows "(case apply_guardrail gid version trace ci of
      Inl e \<Rightarrow> bedrock_guardrail_headers gid version trace = Inl e
    | Inr ci' \<Rightarrow> \<exists>mode. ci' = ci\<lparr>ci_guardrail := Some (gid, version, mode)\<rparr> \<and>
        bedrock_guardrail_headers gid version trace =
          Inr [(''X-Amzn-Bedrock-GuardrailIdentifier'', gid), (''X-Amzn-Bedrock-GuardrailVersion'', version),
               (''X-Amzn-Bedrock-Trace'', if mode = TraceDisabled then ''DISABLED'' else ''ENABLED'')])"
proof -
  have ne: "rune_text ''disabled'' \<noteq> rune_text ''enabled''" "rune_text ''disabled'' \<noteq> rune_text ''enabled_full''"
    by (simp_all add: rune_text_def)
  show ?thesis
    using assms ne by (auto simp: apply_guardrail_def bedrock_guardrail_headers_def Let_def)
qed

theorem guardrail_paths_agree_witness:
  "(case apply_guardrail ''g'' ''1'' ''Enabled_Full'' (demo_input False False) of
      Inl e \<Rightarrow> bedrock_guardrail_headers ''g'' ''1'' ''Enabled_Full'' = Inl e
    | Inr ci' \<Rightarrow> \<exists>mode. ci' = (demo_input False False)\<lparr>ci_guardrail := Some (''g'', ''1'', mode)\<rparr> \<and>
        bedrock_guardrail_headers ''g'' ''1'' ''Enabled_Full'' =
          Inr [(''X-Amzn-Bedrock-GuardrailIdentifier'', ''g''), (''X-Amzn-Bedrock-GuardrailVersion'', ''1''),
               (''X-Amzn-Bedrock-Trace'', if mode = TraceDisabled then ''DISABLED'' else ''ENABLED'')])"
  by (rule guardrail_paths_agree) simp

text \<open>
  How a chat moves the connection tracker: an invalid request or a client that cannot be built
  leaves it alone; a failure to open the stream moves it to Disconnected exactly when it is a
  transport failure, and only that edge starts the probe; an opened stream moves it to
  Connected, and the reply ends with Done or with the stream's own error.
\<close>

theorem bedrock_outcome:
  "chat_bedrock parse float ready open_stream c r now t = (reply, t', spawn) \<Longrightarrow>
   (case reply of
      Inl (SendFailed e) \<Rightarrow>
        conn t' = (if classify e \<noteq> [] then StateDisconnected else conn t) \<and>
        spawn = (classify e \<noteq> [] \<and> conn t \<noteq> StateDisconnected)
    | Inl _ \<Rightarrow> t' = t \<and> \<not> spawn
    | Inr evs \<Rightarrow> conn t' = StateConnected \<and> \<not> spawn \<and>
        (last evs = Done [] \<or> (\<exists>e. last evs = ErrorEvent (VendorError (Wrapped ''bedrock stream: '' e))))) \<and>
   probing t' = probing t"
  by (auto simp: chat_bedrock_def note_failure_def tracker_set_def converse_events_def
      split: sum.splits prod.splits if_splits option.splits)

theorem bedrock_outcome_witness:
  "(case (Inl (SendFailed (Errno ECONNREFUSED)) :: bedrock_failure + event list) of
      Inl (SendFailed e) \<Rightarrow>
        conn (zero_tracker\<lparr>conn := StateDisconnected, changed_at := 3\<rparr>) = (if classify e \<noteq> [] then StateDisconnected else conn zero_tracker) \<and>
        True = (classify e \<noteq> [] \<and> conn zero_tracker \<noteq> StateDisconnected)
    | Inl _ \<Rightarrow> zero_tracker\<lparr>conn := StateDisconnected, changed_at := 3\<rparr> = zero_tracker \<and> \<not> True
    | Inr evs \<Rightarrow> conn (zero_tracker\<lparr>conn := StateDisconnected, changed_at := 3\<rparr>) = StateConnected \<and> \<not> True \<and>
        (last evs = Done [] \<or> (\<exists>e. last evs = ErrorEvent (VendorError (Wrapped ''bedrock stream: '' e))))) \<and>
   probing (zero_tracker\<lparr>conn := StateDisconnected, changed_at := 3\<rparr>) = probing zero_tracker"
  by (rule bedrock_outcome [where parse = "\<lambda>_. Inr JNull" and float = "\<lambda>q. q" and ready = "Inr ()" and
        open_stream = "\<lambda>_ _. Inl (Errno ECONNREFUSED)" and c = demo_config and r = demo_request and now = 3])
    (simp add: chat_bedrock_def demo_request_built note_failure_def tracker_set_def zero_tracker_def classify_def
      error_as_def errno_tag_def ECONNREFUSED_def)

text \<open>
  A tool call streamed in fragments is delivered whole, however the blocks interleave; an absent
  block index counts as zero, and an absent input is no fragment.
\<close>

fun converse_kind :: "converse_event \<Rightarrow> block_event" where
  "converse_kind (BlockStarted p b) = (case b of
     StartToolUse d n \<Rightarrow> BlockStart (deref_int32 p) (deref_string d) (deref_string n) | StartOther \<Rightarrow> BlockEmit [])"
| "converse_kind (BlockDelta p d) =
     (case d of
        DeltaText t \<Rightarrow> BlockEmit (if t \<noteq> [] then [TextDelta t] else [])
      | DeltaReasoning t \<Rightarrow> BlockEmit (if t \<noteq> [] then [ReasoningDelta t] else [])
      | DeltaReasoningOther \<Rightarrow> BlockEmit []
      | DeltaToolUse inp \<Rightarrow> (case inp of Some s \<Rightarrow> BlockInput (deref_int32 p) s | None \<Rightarrow> BlockEmit [])
      | DeltaOther \<Rightarrow> BlockEmit [])"
| "converse_kind (BlockStopped p) = BlockStop (deref_int32 p)"
| "converse_kind (Metadata u) = BlockEmit (case u of None \<Rightarrow> []
     | Some (a, b, c, d) \<Rightarrow>
         [UsageEvent (bedrock_usage (deref_int32 a) (deref_int32 b) (deref_int32 c) (deref_int32 d))])"
| "converse_kind MessageStart = BlockEmit []"
| "converse_kind MessageStop = BlockEmit []"
| "converse_kind OtherMember = BlockEmit []"

lemma converse_step_kind: "converse_step e m = block_step (converse_kind e) m"
  by (cases e) (simp_all add: acc_call_def Let_def split: converse_start.split converse_delta.split option.split)

lemma converse_kind_plain: "plain_emission (converse_kind e)"
  by (cases e) (simp_all add: plain_emission_def split: converse_start.split converse_delta.split option.split)

interpretation converse_blocks: block_stream converse_step converse_kind
  by unfold_locales (rule converse_step_kind, rule converse_kind_plain)

interpretation converse_client: chat_client "\<lambda>(evs, err). converse_events evs err"
proof unfold_locales
  fix i :: "converse_event list \<times> go_error option"
  note plain = converse_blocks.run_plain [of "fst i" Map.empty]
  show "list_all (\<lambda>e. \<not> terminal_event e) (butlast (case i of (evs, err) \<Rightarrow> converse_events evs err))"
    using plain by (simp add: converse_events_def list_all_iff split_beta)
  show "ToolCallComplete [] \<notin> set (case i of (evs, err) \<Rightarrow> converse_events evs err)"
    using plain by (auto simp: converse_events_def list_all_iff split_beta split: option.split)
qed

theorem converse_call_whole:
  assumes "filter (\<lambda>e. block_index (converse_kind e) = Some (deref_int32 p)) pre =
      BlockStarted q (StartToolUse d n) # map (\<lambda>s. BlockDelta p (DeltaToolUse (Some s))) fs"
  shows "\<exists>rest. converse_events (pre @ BlockStopped p # post) err =
    run_steps converse_step pre Map.empty @
    ToolCallComplete [\<lparr>call_id = deref_string d, call_type = ''function'',
      fn = \<lparr>fn_name = deref_string n, arguments = (if concat fs = [] then ''{}'' else concat fs)\<rparr>\<rparr>] # rest"
proof -
  have "BlockStarted q (StartToolUse d n) \<in> set (filter (\<lambda>e. block_index (converse_kind e) = Some (deref_int32 p)) pre)"
    unfolding assms by simp
  then have "deref_int32 q = deref_int32 p" by simp
  with converse_blocks.block_closed [OF assms, where d = "deref_string d" and n = "deref_string n" and fs = fs and
      stop = "BlockStopped p" and post = post]
  obtain rest where "run_steps converse_step (pre @ BlockStopped p # post) Map.empty =
    run_steps converse_step pre Map.empty @
    ToolCallComplete [\<lparr>call_id = deref_string d, call_type = ''function'',
      fn = \<lparr>fn_name = deref_string n, arguments = (if concat fs = [] then ''{}'' else concat fs)\<rparr>\<rparr>] # rest"
    by auto
  then show ?thesis by (simp add: converse_events_def)
qed

definition two_blocks :: "converse_event list" where
  "two_blocks = [BlockStarted None (StartToolUse (Some ''a'') (Some ''f'')), BlockStarted (Some 2) (StartToolUse (Some ''b'') None),
     BlockDelta (Some 0) (DeltaToolUse (Some ''{'')), BlockDelta (Some 2) (DeltaToolUse (Some ''[]'')),
     BlockDelta (Some 0) (DeltaToolUse None), BlockDelta (Some 0) (DeltaToolUse (Some ''}''))]"

theorem converse_call_whole_witness:
  "\<exists>rest. converse_events (two_blocks @ BlockStopped (Some 0) # []) None =
    run_steps converse_step two_blocks Map.empty @
    ToolCallComplete [\<lparr>call_id = deref_string (Some ''a''), call_type = ''function'',
      fn = \<lparr>fn_name = deref_string (Some ''f''), arguments = (if concat [''{'', ''}''] = [] then ''{}'' else concat [''{'', ''}''])\<rparr>\<rparr>] # rest"
  by (rule converse_call_whole [where q = None]) (simp add: two_blocks_def deref_int32_def)

end
