(* ===== verification/Vertex.thy ===== *)
theory Vertex
  imports Vendor Registry
begin

text \<open>
  The Vertex adapter for Gemini (llm/vertex/vertex.go): translation of a chat request to contents
  and generation config, thinking and safety settings, and the stream callback with what it does
  at the end of the stream. The SDK's types are the data the adapter passes; its enumerations are
  datatypes with the values the code tests. Parsing JSON text, rounding to a float32 and
  marshalling call arguments are arguments of the definitions.
\<close>

section \<open>Contents\<close>

datatype vertex_part =
    TextPart string
  | BytesPart "byte list" string
  | UriPart string string
  | FunctionCallPart string json
  | FunctionResponsePart string json "(byte list \<times> string) list"

datatype vertex_error =
    ModelRequired
  | MediaWithoutMime string
  | MediaWithoutSource string
  | UnknownPart string
  | BadArguments string json_error
  | ResponseMediaWithoutBytes
  | ResponseMediaWithoutMime
  | UnknownCategory string
  | UnknownThreshold string string

definition vertex_part_of :: "message_part \<Rightarrow> vertex_error + vertex_part" where
  "vertex_part_of p =
     (if part_type p = ''text'' then Inr (TextPart (part_text p))
      else if part_type p = ''image'' \<or> part_type p = ''document'' then
        (if part_data p \<noteq> [] then
           (if mime_type p = [] then Inl (MediaWithoutMime (part_type p))
            else Inr (BytesPart (part_data p) (mime_type p)))
         else if part_uri p \<noteq> [] then Inr (UriPart (part_uri p) (mime_type p))
         else Inl (MediaWithoutSource (part_type p)))
      else Inl (UnknownPart (part_type p)))"

definition vertex_leading :: "message \<Rightarrow> vertex_part list" where
  "vertex_leading m = (if content m \<noteq> [] then [TextPart (content m)] else [])"

definition vertex_user_parts :: "message \<Rightarrow> vertex_error + vertex_part list" where
  "vertex_user_parts m =
     (if parts m = [] then (if content m = [] then Inr [] else Inr [TextPart (content m)])
      else result_bind (result_map vertex_part_of (parts m)) (\<lambda>ps. Inr (vertex_leading m @ ps)))"

text \<open>Decoding into a map: an object, or \<open>null\<close>, which leaves a nil map.\<close>

definition decode_map :: "(string \<Rightarrow> json_error + json) \<Rightarrow> string \<Rightarrow> json_error + json" where
  "decode_map parse s =
     (case parse s of
        Inl e \<Rightarrow> Inl e
      | Inr (JObj ms) \<Rightarrow> Inr (json_any (JObj ms))
      | Inr JNull \<Rightarrow> Inr JNull
      | Inr _ \<Rightarrow> Inl (TypeMismatch ''map''))"

definition vertex_call :: "(string \<Rightarrow> json_error + json) \<Rightarrow> tool_call \<Rightarrow> vertex_error + vertex_part" where
  "vertex_call parse tc =
     (if arguments (fn tc) \<noteq> [] then
        (case decode_map parse (arguments (fn tc)) of
           Inl e \<Rightarrow> Inl (BadArguments (fn_name (fn tc)) e)
         | Inr j \<Rightarrow> Inr (FunctionCallPart (fn_name (fn tc)) j))
      else Inr (FunctionCallPart (fn_name (fn tc)) (JObj [])))"

definition vertex_assistant_parts :: "(string \<Rightarrow> json_error + json) \<Rightarrow> message \<Rightarrow> vertex_error + vertex_part list" where
  "vertex_assistant_parts parse m =
     result_bind (result_map vertex_part_of (parts m)) (\<lambda>ps.
     result_bind (result_map (vertex_call parse) (tool_calls m)) (\<lambda>cs.
       Inr (vertex_leading m @ ps @ cs)))"

text \<open>The first pass: tool names by call id, a later call overriding an earlier one.\<close>

definition name_entries :: "message \<Rightarrow> (string \<times> string) list" where
  "name_entries m =
     (if role m = ''assistant'' then
        map (\<lambda>c. (call_id c, fn_name (fn c))) (filter (\<lambda>c. call_id c \<noteq> [] \<and> fn_name (fn c) \<noteq> []) (tool_calls m))
      else [])"

definition id_to_name :: "message list \<Rightarrow> string \<rightharpoonup> string" where
  "id_to_name ms = foldl (\<lambda>m (i, n). m(i \<mapsto> n)) Map.empty (concat (map name_entries ms))"

definition response_name :: "(string \<rightharpoonup> string) \<Rightarrow> message \<Rightarrow> string" where
  "response_name names m =
     (let name = (case names (tool_call_id m) of Some n \<Rightarrow> n | None \<Rightarrow> [])
      in if name = [] then msg_name m else name)"

definition response_payload :: "(string \<Rightarrow> json_error + json) \<Rightarrow> message \<Rightarrow> json" where
  "response_payload parse m =
     (if content m \<noteq> [] then
        (case parse (content m) of
           Inr (JObj ms) \<Rightarrow> json_any (JObj ms)
         | Inr j \<Rightarrow> JObj [(''content'', json_any j)]
         | Inl _ \<Rightarrow> JObj [(''content'', JStr (content m))])
      else JObj [])"

definition response_media :: "message \<Rightarrow> vertex_error + (byte list \<times> string) list" where
  "response_media m =
     result_map (\<lambda>p. if part_data p = [] then Inl ResponseMediaWithoutBytes
        else if mime_type p = [] then Inl ResponseMediaWithoutMime
        else Inr (part_data p, mime_type p))
       (filter (\<lambda>p. part_type p = ''image'' \<or> part_type p = ''document'') (parts m))"

definition vertex_contribution :: "(string \<Rightarrow> json_error + json) \<Rightarrow> (string \<rightharpoonup> string) \<Rightarrow> message \<Rightarrow>
    vertex_error + (string, vertex_part) contribution" where
  "vertex_contribution parse names m =
     (if role m = ''system'' then Inr (Systems (if content m \<noteq> [] then [content m] else []))
      else if role m = ''user'' then result_bind (vertex_user_parts m) (\<lambda>ps. Inr (Turn ''user'' ps))
      else if role m = ''assistant'' then
        result_bind (vertex_assistant_parts parse m) (\<lambda>ps. Inr (Turn ''model'' ps))
      else if role m = ''tool'' then
        result_bind (response_media m) (\<lambda>media.
          Inr (Result (FunctionResponsePart (response_name names m) (response_payload parse m) media)))
      else Inr Skipped)"

section \<open>Requests\<close>

datatype harm_category = HateSpeech | Harassment | DangerousContent | SexuallyExplicit

datatype harm_threshold = BlockNone | BlockLowAndAbove | BlockMediumAndAbove | BlockOnlyHigh | FilterOff

record 'f generate_config =
  gc_system :: "string list option"
  gc_max_tokens :: int
  gc_temperature :: "'f option"
  gc_top_p :: "'f option"
  gc_top_k :: "'f option"
  gc_tools :: "(string \<times> string \<times> json) list option"
  gc_thinking :: "int option option"
  gc_safety :: "(harm_category \<times> harm_threshold) list"

definition generate_config_for :: "(rat \<Rightarrow> 'f) \<Rightarrow> chat_request \<Rightarrow> int \<Rightarrow> string list \<Rightarrow> 'f generate_config" where
  "generate_config_for float r max_toks system =
     \<lparr>gc_system = (if system = [] then None else Some system),
      gc_max_tokens = wrap32 max_toks,
      gc_temperature = (if req_temperature r \<noteq> 0 then Some (float (req_temperature r)) else None),
      gc_top_p = (if req_top_p r \<noteq> 0 then Some (float (req_top_p r)) else None),
      gc_top_k = (if req_top_k r \<noteq> 0 then Some (float (of_int (req_top_k r))) else None),
      gc_tools = (if req_tools r = [] then None
        else Some (map (\<lambda>d. (def_name d, def_desc d, def_params d)) (req_tools r))),
      gc_thinking = None, gc_safety = []\<rparr>"

definition build_vertex_request :: "(string \<Rightarrow> json_error + json) \<Rightarrow> (rat \<Rightarrow> 'f) \<Rightarrow> chat_request \<Rightarrow> int \<Rightarrow>
    vertex_error + (string \<times> vertex_part list) list \<times> 'f generate_config" where
  "build_vertex_request parse float r max_toks =
     (let max_toks = (if max_toks = 0 then 8192 else max_toks); ms = filter_for_request (req_messages r) in
      result_bind (batch_loop (vertex_contribution parse (id_to_name ms)) ms no_history) (\<lambda>h.
        Inr (hist_messages h, generate_config_for float r max_toks (hist_system h))))"

lemmas build_vertex_defs = build_vertex_request_def generate_config_for_def

definition apply_vertex_thinking :: "int \<Rightarrow> 'f generate_config \<Rightarrow> 'f generate_config" where
  "apply_vertex_thinking budget g = g\<lparr>gc_thinking := Some (if 0 < budget then Some (wrap32 budget) else None)\<rparr>"

text \<open>
  \<open>strings.ToUpper\<close> as far as comparison with upper-case ASCII text can tell: ASCII letters, and
  the dotless i and the long s, whose upper case is ASCII.
\<close>

definition upper_rune :: "nat \<Rightarrow> nat" where
  "upper_rune r = (if 97 \<le> r \<and> r \<le> 122 then r - 32 else if r = 0x131 then 73 else if r = 0x17F then 83 else r)"

definition harm_categories :: "(nat list \<times> harm_category) list" where
  "harm_categories = [(rune_text ''hate_speech'', HateSpeech), (rune_text ''harassment'', Harassment),
     (rune_text ''dangerous_content'', DangerousContent), (rune_text ''sexually_explicit'', SexuallyExplicit)]"

definition harm_thresholds :: "(nat list \<times> harm_threshold) list" where
  "harm_thresholds = [(rune_text ''BLOCK_NONE'', BlockNone), (rune_text ''BLOCK_LOW_AND_ABOVE'', BlockLowAndAbove),
     (rune_text ''BLOCK_MEDIUM_AND_ABOVE'', BlockMediumAndAbove), (rune_text ''BLOCK_ONLY_HIGH'', BlockOnlyHigh),
     (rune_text ''OFF'', FilterOff)]"

definition safety_setting :: "string \<times> string \<Rightarrow> vertex_error + harm_category \<times> harm_threshold" where
  "safety_setting kv =
     (case map_of harm_categories (lower_runes (trim_space (fst kv))) of
        None \<Rightarrow> Inl (UnknownCategory (fst kv))
      | Some c \<Rightarrow>
     (case map_of harm_thresholds (map upper_rune (runes (trim_space (snd kv)))) of
        None \<Rightarrow> Inl (UnknownThreshold (fst kv) (snd kv))
      | Some t \<Rightarrow> Inr (c, t)))"

text \<open>The settings in the order Go's map yields them.\<close>

definition apply_vertex_safety :: "(string \<times> string) list \<Rightarrow> 'f generate_config \<Rightarrow> vertex_error + 'f generate_config" where
  "apply_vertex_safety settings g =
     (if settings = [] then Inr g
      else result_bind (result_map safety_setting settings) (\<lambda>out. Inr (g\<lparr>gc_safety := out\<rparr>)))"

section \<open>The stream\<close>

datatype finish_reason =
    FinishUnset | FinishMaxTokens | FinishSafety | FinishRecitation | FinishBlocklist | FinishProhibitedContent
  | FinishSPII | FinishImageSafety | FinishMalformedFunctionCall | FinishOther string

datatype blocked_reason = BlockUnset | BlockUnspecified | BlockOther string

record function_call_part =
  fc_id :: string
  fc_name :: string
  fc_args :: json

record response_part =
  rp_call :: "function_call_part option"
  rp_text :: string
  rp_thought :: bool

record candidate =
  cand_finish :: finish_reason
  cand_parts :: "response_part option list option"

record response =
  resp_block :: "blocked_reason option"
  resp_usage :: "(int \<times> int \<times> int \<times> int) option"
  resp_candidates :: "candidate option list"

record vertex_state =
  seen_usage :: "message_usage option"
  call_index :: nat
  seen_finish :: finish_reason
  seen_block :: blocked_reason

definition vertex_init :: vertex_state where
  "vertex_init = \<lparr>seen_usage = None, call_index = 0, seen_finish = FinishUnset, seen_block = BlockUnset\<rparr>"

definition vertex_usage :: "int \<Rightarrow> int \<Rightarrow> int \<Rightarrow> int \<Rightarrow> message_usage" where
  "vertex_usage prompt candidates cached whole =
     \<lparr>input_tokens = prompt, output_tokens = candidates, cache_read_tokens = cached, cache_write_tokens = 0,
      reasoning_tokens = 0, total_tokens = whole\<rparr>"

definition synth_call_id :: "string \<Rightarrow> string \<Rightarrow> nat \<Rightarrow> string" where
  "synth_call_id provided name idx =
     (if provided \<noteq> [] then provided else ''call_'' @ name @ ''_'' @ itoa (int idx))"

text \<open>
  The parts of a candidate. The counter is a 64-bit int, which no stream exhausts; it is a
  natural number here. The flag is whether the callback goes on: a call whose arguments cannot
  be marshalled ends it.
\<close>

fun parts_loop :: "(json \<Rightarrow> string + string) \<Rightarrow> response_part option list \<Rightarrow> vertex_state \<Rightarrow>
    event list \<times> vertex_state \<times> bool" where
  "parts_loop marshal [] s = ([], s, True)"
| "parts_loop marshal (None # ps) s = parts_loop marshal ps s"
| "parts_loop marshal (Some p # ps) s =
     (case rp_call p of
        Some fc \<Rightarrow>
          (case marshal (fc_args fc) of
             Inl e \<Rightarrow> ([ErrorEvent (OtherError (''vertex: marshal function call args: '' @ e))], s, False)
           | Inr args \<Rightarrow>
               (let tc = \<lparr>call_id = synth_call_id (fc_id fc) (fc_name fc) (call_index s), call_type = ''function'',
                      fn = \<lparr>fn_name = fc_name fc, arguments = args\<rparr>\<rparr>
                in case parts_loop marshal ps (s\<lparr>call_index := Suc (call_index s)\<rparr>) of
                     (evs, r) \<Rightarrow> (ToolCallComplete [tc] # evs, r)))
      | None \<Rightarrow>
          if rp_text p \<noteq> [] then
            (case parts_loop marshal ps s of
               (evs, r) \<Rightarrow> ((if rp_thought p then ReasoningDelta (rp_text p) else TextDelta (rp_text p)) # evs, r))
          else parts_loop marshal ps s)"

fun candidates_loop :: "(json \<Rightarrow> string + string) \<Rightarrow> candidate option list \<Rightarrow> vertex_state \<Rightarrow>
    event list \<times> vertex_state \<times> bool" where
  "candidates_loop marshal [] s = ([], s, True)"
| "candidates_loop marshal (None # cs) s = candidates_loop marshal cs s"
| "candidates_loop marshal (Some c # cs) s =
     (let s = (if cand_finish c \<noteq> FinishUnset then s\<lparr>seen_finish := cand_finish c\<rparr> else s) in
      case cand_parts c of
        None \<Rightarrow> candidates_loop marshal cs s
      | Some ps \<Rightarrow>
          (case parts_loop marshal ps s of
             (evs, s', False) \<Rightarrow> (evs, s', False)
           | (evs, s', True) \<Rightarrow>
               (case candidates_loop marshal cs s' of (evs', r) \<Rightarrow> (evs @ evs', r))))"

definition note_response :: "response \<Rightarrow> vertex_state \<Rightarrow> vertex_state" where
  "note_response r s =
     (let s = (case resp_block r of
          Some b \<Rightarrow> if b \<noteq> BlockUnset then s\<lparr>seen_block := b\<rparr> else s | None \<Rightarrow> s)
      in case resp_usage r of
           Some (prompt, candidates, cached, whole) \<Rightarrow>
             if 0 < prompt \<or> 0 < cached then s\<lparr>seen_usage := Some (vertex_usage prompt candidates cached whole)\<rparr> else s
         | None \<Rightarrow> s)"

text \<open>The SDK's iterator calls the callback until it answers false; an error item ends the stream.\<close>

fun vertex_loop :: "(json \<Rightarrow> string + string) \<Rightarrow> (go_error + response) list \<Rightarrow> vertex_state \<Rightarrow>
    event list \<times> vertex_state \<times> go_error option" where
  "vertex_loop marshal [] s = ([], s, None)"
| "vertex_loop marshal (Inl e # rs) s = ([], s, Some e)"
| "vertex_loop marshal (Inr r # rs) s =
     (case candidates_loop marshal (resp_candidates r) (note_response r s) of
        (evs, s', False) \<Rightarrow> (evs, s', None)
      | (evs, s', True) \<Rightarrow>
          (case vertex_loop marshal rs s' of (evs', e) \<Rightarrow> (evs @ evs', e)))"

definition block_message :: "finish_reason \<Rightarrow> blocked_reason \<Rightarrow> string" where
  "block_message fr br =
     (case br of
        BlockOther b \<Rightarrow> ''prompt blocked ('' @ b @ '')''
      | _ \<Rightarrow>
     (case fr of
        FinishSafety \<Rightarrow> ''response blocked by safety filters''
      | FinishRecitation \<Rightarrow> ''response blocked for recitation (cited/copyrighted content)''
      | FinishBlocklist \<Rightarrow> ''response blocked by a terminology blocklist''
      | FinishProhibitedContent \<Rightarrow> ''response blocked: prohibited content''
      | FinishSPII \<Rightarrow> ''response blocked: sensitive personally identifiable information''
      | FinishImageSafety \<Rightarrow> ''response blocked: image safety''
      | FinishMalformedFunctionCall \<Rightarrow> ''model emitted a malformed function call''
      | _ \<Rightarrow> []))"

definition map_finish_reason :: "finish_reason \<Rightarrow> string" where
  "map_finish_reason fr = (if fr = FinishMaxTokens then ''length'' else [])"

definition vertex_end :: "nat \<Rightarrow> vertex_state \<times> go_error option \<Rightarrow> tracker \<Rightarrow> event list \<times> tracker \<times> bool" where
  "vertex_end now r t =
     (case r of
        (s, Some e) \<Rightarrow>
          (case note_failure now e t of (t', spawn) \<Rightarrow> ([ErrorEvent (VendorError (Wrapped ''vertex: '' e))], t', spawn))
      | (s, None) \<Rightarrow>
          ((case seen_usage s of Some u \<Rightarrow> [UsageEvent u] | None \<Rightarrow> []) @
           (if block_message (seen_finish s) (seen_block s) \<noteq> []
            then [ErrorEvent (OtherError (''vertex: '' @ block_message (seen_finish s) (seen_block s)))]
            else [Done (map_finish_reason (seen_finish s))]), t, False))"

text \<open>\<open>Chat\<close>'s goroutine, started on a tracker that was just set to Connected.\<close>

definition run_vertex :: "(json \<Rightarrow> string + string) \<Rightarrow> (go_error + response) list \<Rightarrow> nat \<Rightarrow> tracker \<Rightarrow>
    event list \<times> tracker \<times> bool" where
  "run_vertex marshal rs now t =
     (case vertex_loop marshal rs vertex_init of
        (evs, r) \<Rightarrow> (case vertex_end now r t of (evs', q) \<Rightarrow> (evs @ evs', q)))"

section \<open>Chat\<close>

record vertex_client =
  vc_model :: string
  vc_max_tokens :: int
  vc_thinking :: bool
  vc_budget :: int
  vc_safety :: "(string \<times> string) list"

definition client_location :: "string \<Rightarrow> string" where
  "client_location loc = (if loc = [] then ''us-central1'' else loc)"

definition vertex_request :: "(string \<Rightarrow> json_error + json) \<Rightarrow> (rat \<Rightarrow> 'f) \<Rightarrow> vertex_client \<Rightarrow> chat_request \<Rightarrow>
    vertex_error + string \<times> (string \<times> vertex_part list) list \<times> 'f generate_config" where
  "vertex_request parse float c r =
     (let model = (if vc_model c = [] then req_model r else vc_model c) in
      if model = [] then Inl ModelRequired
      else result_bind (build_vertex_request parse float r (vc_max_tokens c)) (\<lambda>(contents, g).
        let g = (if vc_thinking c then apply_vertex_thinking (vc_budget c) g else g) in
        result_bind (if vc_safety c \<noteq> [] then apply_vertex_safety (vc_safety c) g else Inr g) (\<lambda>g.
          Inr (model, contents, g))))"

datatype vertex_failure = BadRequest vertex_error | NoClient go_error

text \<open>\<open>newVertexClient\<close>: \<open>mk_sdk\<close> is the SDK's constructor, for a project and a location.\<close>

definition genai_setup :: "(string \<times> string \<Rightarrow> go_error + 'k) \<Rightarrow> string \<Rightarrow> string \<Rightarrow> go_error + 'k" where
  "genai_setup mk_sdk project location =
     (case mk_sdk (project, client_location location) of
        Inl e \<Rightarrow> Inl (Wrapped ''genai client: '' e)
      | Inr k \<Rightarrow> Inr k)"

text \<open>
  \<open>client\<close>: \<open>new_client\<close> is the factory a test may set. What the first call built is kept, whatever the
  settings are later.
\<close>

definition genai_client :: "(string \<Rightarrow> string \<Rightarrow> go_error + 'k) option \<Rightarrow> (string \<times> string \<Rightarrow> go_error + 'k) \<Rightarrow>
    string \<Rightarrow> string \<Rightarrow> (go_error + 'k) option \<Rightarrow> (go_error + 'k) \<times> (go_error + 'k) option" where
  "genai_client new_client mk_sdk project location =
     once_sdk ((case new_client of None \<Rightarrow> genai_setup mk_sdk | Some f \<Rightarrow> f) project location)"

lemma genai_client_kept:
  "genai_client f mk p l att = (Inr k, att') \<Longrightarrow> genai_client f' mk' p' l' att' = (Inr k, att')"
  unfolding genai_client_def by (rule once_client.kept)

definition chat_vertex :: "(string \<Rightarrow> json_error + json) \<Rightarrow> (rat \<Rightarrow> 'f) \<Rightarrow> (json \<Rightarrow> string + string) \<Rightarrow> go_error + 'k \<Rightarrow>
    ('k \<Rightarrow> string \<times> (string \<times> vertex_part list) list \<times> 'f generate_config \<Rightarrow> (go_error + response) list) \<Rightarrow>
    vertex_client \<Rightarrow> chat_request \<Rightarrow> nat \<Rightarrow> tracker \<Rightarrow> (vertex_failure + event list) \<times> tracker \<times> bool" where
  "chat_vertex parse float marshal ready generate c r now t =
     (case vertex_request parse float c r of
        Inl e \<Rightarrow> (Inl (BadRequest e), t, False)
      | Inr q \<Rightarrow>
     (case ready of
        Inl e \<Rightarrow> (Inl (NoClient e), t, False)
      | Inr k \<Rightarrow>
          (case run_vertex marshal (generate k q) now (fst (tracker_set now StateConnected t)) of
             (evs, t', spawn) \<Rightarrow> (Inr evs, t', spawn))))"

text \<open>
  A turn on the client's state, the kept result of the construction and the tracker: \<open>client\<close> is
  called only for a request that could be built. \<open>build\<close> is what constructing the client would
  give now, \<open>interval\<close> how long a probe holds its claim.
\<close>

definition genai_turn where
  "genai_turn parse float marshal c interval = (\<lambda>(build, generate, r, now) (sdk, t).
     (case vertex_request parse float c r of
        Inl e \<Rightarrow> (Inl (BadRequest e), (sdk, t), None)
      | Inr _ \<Rightarrow>
     (case once_sdk build sdk of (ready, sdk') \<Rightarrow>
     (case chat_vertex parse float marshal ready generate c r now t of (reply, t', spawn) \<Rightarrow>
     (case settle interval (t', spawn) of (t'', sleep) \<Rightarrow> (reply, (sdk', t''), sleep))))))"

lemma genai_turn_stuck:
  "genai_turn parse float marshal c interval (build, generate, r, now) (Some (Inl e), t) =
     (Inl (case vertex_request parse float c r of Inl x \<Rightarrow> BadRequest x | Inr _ \<Rightarrow> NoClient e), (Some (Inl e), t), None)"
  by (simp add: genai_turn_def chat_vertex_def settle_def split: sum.split)

section \<open>Lemmas\<close>

subsection \<open>Calls of a stream\<close>

fun calls_of_event :: "event \<Rightarrow> tool_call list" where
  "calls_of_event (ToolCallComplete cs) = cs"
| "calls_of_event _ = []"

definition emitted :: "event list \<Rightarrow> tool_call list" where
  "emitted evs = concat (map calls_of_event evs)"

lemma emitted_simps [simp]: "emitted [] = []" "emitted (e # evs) = calls_of_event e @ emitted evs"
  "emitted (x @ y) = emitted x @ emitted y"
  by (simp_all add: emitted_def)

definition calls_in :: "response_part option list \<Rightarrow> function_call_part list" where
  "calls_in ps = concat (map (\<lambda>p. case p of None \<Rightarrow> [] | Some x \<Rightarrow>
     (case rp_call x of None \<Rightarrow> [] | Some fc \<Rightarrow> [fc])) ps)"

definition candidate_calls :: "candidate option list \<Rightarrow> function_call_part list" where
  "candidate_calls cs = concat (map (\<lambda>c. case c of None \<Rightarrow> [] | Some x \<Rightarrow>
     (case cand_parts x of None \<Rightarrow> [] | Some ps \<Rightarrow> calls_in ps)) cs)"

lemma calls_in_simps [simp]:
  "calls_in [] = []" "calls_in (None # ps) = calls_in ps"
  "calls_in (Some p # ps) = (case rp_call p of None \<Rightarrow> calls_in ps | Some fc \<Rightarrow> fc # calls_in ps)"
  "candidate_calls [] = []" "candidate_calls (None # cs) = candidate_calls cs"
  "candidate_calls (Some c # cs) = (case cand_parts c of None \<Rightarrow> [] | Some ps \<Rightarrow> calls_in ps) @ candidate_calls cs"
  by (simp_all add: calls_in_def candidate_calls_def split: option.split)

text \<open>The calls of the responses before the first error.\<close>

fun stream_calls :: "(go_error + response) list \<Rightarrow> function_call_part list" where
  "stream_calls [] = []"
| "stream_calls (Inl e # rs) = []"
| "stream_calls (Inr r # rs) = candidate_calls (resp_candidates r) @ stream_calls rs"

fun number_calls :: "(json \<Rightarrow> string) \<Rightarrow> nat \<Rightarrow> function_call_part list \<Rightarrow> tool_call list" where
  "number_calls f k [] = []"
| "number_calls f k (fc # fcs) =
     \<lparr>call_id = synth_call_id (fc_id fc) (fc_name fc) k, call_type = ''function'',
      fn = \<lparr>fn_name = fc_name fc, arguments = f (fc_args fc)\<rparr>\<rparr> # number_calls f (Suc k) fcs"

lemma number_calls_append:
  "number_calls f k (xs @ ys) = number_calls f k xs @ number_calls f (k + length xs) ys"
  by (induction xs arbitrary: k) simp_all

text \<open>No event of the loop ends the reply, when arguments marshal.\<close>

definition open_events :: "event list \<Rightarrow> bool" where
  "open_events evs = list_all (\<lambda>e. \<not> terminal_event e \<and> e \<noteq> ToolCallComplete []) evs"

lemma open_events_simps [simp]: "open_events []" "open_events (e # evs) = (\<not> terminal_event e \<and> e \<noteq> ToolCallComplete [] \<and> open_events evs)"
  "open_events (x @ y) = (open_events x \<and> open_events y)"
  by (simp_all add: open_events_def)

lemma parts_loop_total:
  "parts_loop (\<lambda>a. Inr (f a)) ps s = (evs, s', go) \<Longrightarrow>
     go \<and> s' = s\<lparr>call_index := call_index s + length (calls_in ps)\<rparr> \<and> open_events evs \<and>
     emitted evs = number_calls f (call_index s) (calls_in ps)"
proof (induction "\<lambda>a. Inr (f a) :: string + string" ps s arbitrary: evs s' go rule: parts_loop.induct)
  case (3 p ps s)
  then show ?case
    by (cases "rp_call p") (auto simp: Let_def split: prod.splits if_splits)
qed auto

lemma candidates_loop_total:
  "candidates_loop (\<lambda>a. Inr (f a)) cs s = (evs, s', go) \<Longrightarrow>
     go \<and> call_index s' = call_index s + length (candidate_calls cs) \<and> open_events evs \<and>
     emitted evs = number_calls f (call_index s) (candidate_calls cs)"
proof (induction cs arbitrary: s evs s' go)
  case (Cons c cs)
  show ?case
  proof (cases c)
    case None
    with Cons.prems Cons.IH [of s evs s' go] show ?thesis by simp
  next
    case (Some x)
    define s1 where "s1 = (if cand_finish x \<noteq> FinishUnset then s\<lparr>seen_finish := cand_finish x\<rparr> else s)"
    have s1: "call_index s1 = call_index s" by (simp add: s1_def)
    show ?thesis
    proof (cases "cand_parts x")
      case None
      with Some Cons.prems have "candidates_loop (\<lambda>a. Inr (f a)) cs s1 = (evs, s', go)"
        by (simp add: s1_def [symmetric])
      from Cons.IH [OF this] None Some s1 show ?thesis by simp
    next
      case ps: (Some ps)
      obtain e1 s2 g1 where p: "parts_loop (\<lambda>a. Inr (f a)) ps s1 = (e1, s2, g1)" by (cases "parts_loop (\<lambda>a. Inr (f a)) ps s1")
      obtain e2 s3 g2 where q: "candidates_loop (\<lambda>a. Inr (f a)) cs s2 = (e2, s3, g2)"
        by (cases "candidates_loop (\<lambda>a. Inr (f a)) cs s2")
      from parts_loop_total [OF p] have "g1" by simp
      with Cons.prems Some ps p q have "evs = e1 @ e2" "s' = s3" "go = g2"
        by (simp_all add: Let_def s1_def)
      with parts_loop_total [OF p] Cons.IH [OF q] Some ps s1 show ?thesis
        by (simp add: number_calls_append add.assoc)
    qed
  qed
qed simp

lemma note_response_index [simp]: "call_index (note_response r s) = call_index s"
  by (auto simp: note_response_def Let_def split: option.split)

lemma vertex_loop_total:
  "vertex_loop (\<lambda>a. Inr (f a)) rs s = (evs, s', e) \<Longrightarrow>
     open_events evs \<and> emitted evs = number_calls f (call_index s) (stream_calls rs) \<and>
     e = first_some (\<lambda>r. case r of Inl e \<Rightarrow> Some e | Inr _ \<Rightarrow> None) rs"
proof (induction rs arbitrary: s evs s' e)
  case (Cons r rs)
  show ?case
  proof (cases r)
    case (Inl x)
    with Cons show ?thesis by auto
  next
    case (Inr x)
    obtain e1 s1 g where c: "candidates_loop (\<lambda>a. Inr (f a)) (resp_candidates x) (note_response x s) = (e1, s1, g)"
      by (cases "candidates_loop (\<lambda>a. Inr (f a)) (resp_candidates x) (note_response x s)")
    obtain e2 s2 e3 where l: "vertex_loop (\<lambda>a. Inr (f a)) rs s1 = (e2, s2, e3)" by (cases "vertex_loop (\<lambda>a. Inr (f a)) rs s1")
    from candidates_loop_total [OF c] have g by simp
    with Cons.prems Inr c l have "evs = e1 @ e2" "e = e3" by simp_all
    with candidates_loop_total [OF c] Cons.IH [OF l] Inr show ?thesis by (simp add: number_calls_append)
  qed
qed simp

lemma run_vertex_total:
  obtains evs s e where "vertex_loop (\<lambda>a. Inr (f a)) rs vertex_init = (evs, s, e)" "open_events evs"
    "emitted evs = number_calls f 0 (stream_calls rs)"
    "e = first_some (\<lambda>r. case r of Inl e \<Rightarrow> Some e | Inr _ \<Rightarrow> None) rs"
    "fst (run_vertex (\<lambda>a. Inr (f a)) rs now t) = evs @ fst (vertex_end now (s, e) t)"
    "snd (run_vertex (\<lambda>a. Inr (f a)) rs now t) = snd (vertex_end now (s, e) t)"
proof -
  obtain evs s e where l: "vertex_loop (\<lambda>a. Inr (f a)) rs vertex_init = (evs, s, e)"
    by (cases "vertex_loop (\<lambda>a. Inr (f a)) rs vertex_init")
  show thesis
    using vertex_loop_total [OF l] by (intro that [OF l]) (simp_all add: run_vertex_def l split: prod.split, simp_all add: vertex_init_def)
qed

lemma vertex_end_events:
  "\<exists>us e. fst (vertex_end now r t) = us @ [e] \<and> open_events us \<and> emitted us = [] \<and> terminal_event e \<and> emitted [e] = []"
  by (cases r; cases "snd r") (auto simp: vertex_end_def split: prod.split option.split)

text \<open>With arguments that marshal, what any JSON value does, the reply follows the contract.\<close>

interpretation vertex_client: chat_client "\<lambda>(f, rs, now, t). fst (run_vertex (\<lambda>a. Inr (f a)) rs now t)"
proof unfold_locales
  fix i :: "(json \<Rightarrow> string) \<times> (go_error + response) list \<times> nat \<times> tracker"
  obtain f rs now t where i: "i = (f, rs, now, t)" by (cases i)
  obtain evs s e where r: "open_events evs" "fst (run_vertex (\<lambda>a. Inr (f a)) rs now t) = evs @ fst (vertex_end now (s, e) t)"
    by (rule run_vertex_total)
  obtain us e' where u: "fst (vertex_end now (s, e) t) = us @ [e']" "open_events us" "terminal_event e'"
    using vertex_end_events [of now "(s, e)" t] by blast
  show "list_all (\<lambda>e. \<not> terminal_event e) (butlast (case i of (f, rs, now, t) \<Rightarrow> fst (run_vertex (\<lambda>a. Inr (f a)) rs now t)))"
    using r u by (auto simp: i butlast_append open_events_def list_all_iff)
  show "ToolCallComplete [] \<notin> set (case i of (f, rs, now, t) \<Rightarrow> fst (run_vertex (\<lambda>a. Inr (f a)) rs now t))"
    using r u by (auto simp: i open_events_def list_all_iff)
qed

subsection \<open>Synthesized ids\<close>

lemma digits_split:
  assumes "a @ [c] @ ds = b @ [c] @ es" "list_all P ds" "list_all P es" "\<not> P c"
  shows "a = b \<and> ds = es"
proof -
  have tw: "takeWhile P (rev ds @ [c] @ r) = rev ds" if "list_all P ds" for r ds
    using that assms(4) by (auto simp: takeWhile_append list_all_iff)
  have "rev ds @ [c] @ rev a = rev es @ [c] @ rev b"
    using arg_cong [OF assms(1), of rev] by simp
  with tw [OF assms(2), of "rev a"] tw [OF assms(3), of "rev b"] have "ds = es" by simp
  with assms(1) show ?thesis by simp
qed

lemma synth_id_inj: "synth_call_id [] n i = synth_call_id [] m j \<longleftrightarrow> n = m \<and> i = j"
proof
  assume "synth_call_id [] n i = synth_call_id [] m j"
  then have "(''call_'' @ n) @ [CHR ''_''] @ nat_dec i = (''call_'' @ m) @ [CHR ''_''] @ nat_dec j"
    by (simp add: synth_call_id_def itoa_def)
  from digits_split [OF this nat_dec_digits nat_dec_digits] show "n = m \<and> i = j"
    by (simp add: is_digit_def)
qed simp

lemma number_calls_nth:
  "number_calls f k fcs = map (\<lambda>(i, fc). \<lparr>call_id = synth_call_id (fc_id fc) (fc_name fc) (k + i), call_type = ''function'',
      fn = \<lparr>fn_name = fc_name fc, arguments = f (fc_args fc)\<rparr>\<rparr>) (enumerate 0 fcs)"
proof (induction fcs arbitrary: k)
  case (Cons fc fcs)
  then show ?case by (simp add: enumerate_Suc_eq [of 0] case_prod_unfold o_def)
qed simp

lemma number_calls_distinct:
  "list_all (\<lambda>fc. fc_id fc = []) fcs \<Longrightarrow> distinct (map call_id (number_calls f k fcs)) \<and>
     (\<forall>c \<in> set (number_calls f k fcs). \<exists>n i. k \<le> i \<and> call_id c = synth_call_id [] n i)"
proof (induction fcs arbitrary: k)
  case (Cons fc fcs)
  then have IH: "distinct (map call_id (number_calls f (Suc k) fcs))"
    "\<forall>c \<in> set (number_calls f (Suc k) fcs). \<exists>n i. Suc k \<le> i \<and> call_id c = synth_call_id [] n i" "fc_id fc = []"
    by simp_all
  then have "synth_call_id [] (fc_name fc) k \<notin> call_id ` set (number_calls f (Suc k) fcs)"
    by (auto simp: synth_id_inj)
  moreover have "\<forall>c \<in> set (number_calls f (Suc k) fcs). \<exists>n i. k \<le> i \<and> call_id c = synth_call_id [] n i"
    using IH(2) Suc_leD by blast
  ultimately show ?case using IH by auto
qed simp

text \<open>Every stream numbers its calls from zero: the first call of a tool has the same id in each.\<close>

lemma ids_repeat_across_streams:
  "emitted (fst (run_vertex (\<lambda>a. Inr (f a)) [Inr \<lparr>resp_block = None, resp_usage = None,
      resp_candidates = [Some \<lparr>cand_finish = FinishUnset, cand_parts =
        Some [Some \<lparr>rp_call = Some \<lparr>fc_id = [], fc_name = n, fc_args = a\<rparr>, rp_text = [], rp_thought = False\<rparr>]\<rparr>]\<rparr>] now t)) =
   [\<lparr>call_id = synth_call_id [] n 0, call_type = ''function'', fn = \<lparr>fn_name = n, arguments = f a\<rparr>\<rparr>]"
  by (simp add: run_vertex_def vertex_init_def note_response_def vertex_end_def block_message_def)

text \<open>A marshal failure is reported, and the reply still goes on to end with Done.\<close>

lemma marshal_failure_then_done:
  "fst (run_vertex (\<lambda>_. Inl x) [Inr \<lparr>resp_block = None, resp_usage = None,
      resp_candidates = [Some \<lparr>cand_finish = FinishUnset, cand_parts =
        Some [Some \<lparr>rp_call = Some \<lparr>fc_id = [], fc_name = n, fc_args = a\<rparr>, rp_text = [], rp_thought = False\<rparr>]\<rparr>]\<rparr>] now t) =
   [ErrorEvent (OtherError (''vertex: marshal function call args: '' @ x)), Done []]"
  by (simp add: run_vertex_def vertex_init_def note_response_def vertex_end_def block_message_def map_finish_reason_def)

text \<open>The text parts of a tool result are not sent: the response has the content and the media only.\<close>

lemma result_text_parts_dropped:
  assumes "role m = ''tool''"
  shows "vertex_contribution parse names (m\<lparr>parts := filter (\<lambda>p. part_type p \<noteq> ''text'') (parts m)\<rparr>) =
    vertex_contribution parse names m"
proof -
  let ?m = "m\<lparr>parts := filter (\<lambda>p. part_type p \<noteq> ''text'') (parts m)\<rparr>"
  have media: "filter (\<lambda>p. part_type p = ''image'' \<or> part_type p = ''document'') (filter (\<lambda>p. part_type p \<noteq> ''text'') ps) =
      filter (\<lambda>p. part_type p = ''image'' \<or> part_type p = ''document'') ps" for ps
    by (induction ps) auto
  have "parts ?m = filter (\<lambda>p. part_type p \<noteq> ''text'') (parts m)" by simp
  then have "response_media ?m = response_media m" by (simp only: response_media_def media)
  moreover have "response_name names ?m = response_name names m" "response_payload parse ?m = response_payload parse m"
    by (simp_all add: response_name_def response_payload_def Let_def cong del: if_weak_cong option.case_cong sum.case_cong)
  ultimately show ?thesis using assms by (simp add: vertex_contribution_def)
qed

subsection \<open>Names of tool results\<close>

lemma foldl_updates: "foldl (\<lambda>m (i, n). m(i \<mapsto> n)) m xs k = (case map_of (rev xs) k of None \<Rightarrow> m k | Some n \<Rightarrow> Some n)"
proof (induction xs arbitrary: m)
  case (Cons x xs)
  then show ?case by (cases x) (auto simp: map_add_def split: option.split)
qed simp

lemma id_to_name_unique:
  assumes "(i, n) \<in> set (concat (map name_entries ms))" "\<And>k. (i, k) \<in> set (concat (map name_entries ms)) \<Longrightarrow> k = n"
  shows "id_to_name ms i = Some n"
proof -
  let ?xs = "rev (concat (map name_entries ms))"
  have "(i, n) \<in> set ?xs" using assms(1) by simp
  then have "map_of ?xs i \<noteq> None" unfolding map_of_eq_None_iff by (metis fst_conv image_eqI)
  then obtain k where k: "map_of ?xs i = Some k" by auto
  then have "(i, k) \<in> set ?xs" by (rule map_of_SomeD)
  then have "k = n" using assms(2) by simp
  with k show ?thesis by (simp add: id_to_name_def foldl_updates)
qed

subsection \<open>What the translation keeps\<close>

fun use_of :: "vertex_part \<Rightarrow> string list" where
  "use_of (FunctionCallPart n a) = [n]"
| "use_of _ = []"

fun result_of :: "vertex_part \<Rightarrow> string list" where
  "result_of (FunctionResponsePart n p media) = [n]"
| "result_of _ = []"

lemma vertex_part_blocks_plain:
  "result_map vertex_part_of ps = Inr bs \<Longrightarrow> concat (map use_of bs) = [] \<and> concat (map result_of bs) = []"
  by (induction ps arbitrary: bs) (auto simp: vertex_part_of_def split: sum.splits if_splits)

lemma vertex_call_blocks_uses:
  "result_map (vertex_call parse) cs = Inr bs \<Longrightarrow>
     concat (map use_of bs) = map (\<lambda>c. fn_name (fn c)) cs \<and> concat (map result_of bs) = []"
  by (induction cs arbitrary: bs) (auto simp: vertex_call_def split: sum.splits if_splits)

lemma vertex_content_tools:
  "vertex_user_parts m = Inr c \<Longrightarrow> concat (map use_of c) = [] \<and> concat (map result_of c) = []"
  "vertex_assistant_parts parse m = Inr c \<Longrightarrow>
     concat (map use_of c) = map (\<lambda>c. fn_name (fn c)) (tool_calls m) \<and> concat (map result_of c) = []"
  using vertex_part_blocks_plain [of "parts m"] vertex_call_blocks_uses [of parse "tool_calls m"]
  by (auto simp: vertex_user_parts_def vertex_assistant_parts_def vertex_leading_def result_bind_Inr split: if_splits)

definition names_called :: "message \<Rightarrow> string list" where
  "names_called m = (if role m = ''assistant'' then map (\<lambda>c. fn_name (fn c)) (tool_calls m) else [])"

definition names_answered :: "(string \<rightharpoonup> string) \<Rightarrow> message \<Rightarrow> string list" where
  "names_answered names m = (if role m = ''tool'' then [response_name names m] else [])"

definition instructions :: "message \<Rightarrow> string list" where
  "instructions m = (if role m = ''system'' \<and> content m \<noteq> [] then [content m] else [])"

lemma vertex_contribution_tools:
  "vertex_contribution parse names m = Inr c \<Longrightarrow>
     concat (map use_of (blocks_in c)) = names_called m \<and>
     concat (map result_of (blocks_in c)) = names_answered names m \<and> systems_in c = instructions m"
  using vertex_content_tools(1) [of m] vertex_content_tools(2) [of parse m]
  by (auto simp: vertex_contribution_def names_called_def names_answered_def instructions_def result_bind_Inr
      split: if_splits)

lemma vertex_contributions_tools:
  "result_map (vertex_contribution parse names) ms = Inr cs \<Longrightarrow>
     concat (map use_of (concat (map blocks_in cs))) = concat (map names_called ms) \<and>
     concat (map result_of (concat (map blocks_in cs))) = concat (map (names_answered names) ms) \<and>
     concat (map systems_in cs) = concat (map instructions ms)"
proof (induction ms arbitrary: cs)
  case (Cons m ms)
  obtain c cs' where "vertex_contribution parse names m = Inr c" "result_map (vertex_contribution parse names) ms = Inr cs'" "cs = c # cs'"
    using Cons.prems by (auto split: sum.splits)
  with Cons.IH vertex_contribution_tools show ?case by simp
qed simp

interpretation vertex_batching: batching "vertex_contribution parse names" "\<lambda>b. result_of b \<noteq> []" "[''user'', ''model'']"
proof unfold_locales
  fix m b
  show "vertex_contribution parse names m = Inr (Result b) \<Longrightarrow> result_of b \<noteq> []"
    by (auto simp: vertex_contribution_def result_bind_Inr split: if_splits)
next
  fix m r bs
  show "vertex_contribution parse names m = Inr (Turn r bs) \<Longrightarrow>
      r \<in> set [''user'', ''model''] \<and> list_all (\<lambda>b. \<not> result_of b \<noteq> []) bs"
    using vertex_content_tools(1) [of m] vertex_content_tools(2) [of parse m]
    by (auto simp: vertex_contribution_def result_bind_Inr list_all_iff split: if_splits)
qed

lemma vertex_request_history:
  assumes "build_vertex_request parse float r n = Inr (contents, g)" "ms = filter_for_request (req_messages r)"
  shows "concat (map use_of (sent_blocks contents)) = concat (map names_called ms) \<and>
    concat (map result_of (sent_blocks contents)) = concat (map (names_answered (id_to_name ms)) ms) \<and>
    (case gc_system g of None \<Rightarrow> [] | Some ts \<Rightarrow> ts) = concat (map instructions ms)"
proof -
  obtain h where h: "batch_loop (vertex_contribution parse (id_to_name ms)) ms no_history = Inr h" "contents = hist_messages h"
      "(case gc_system g of None \<Rightarrow> [] | Some ts \<Rightarrow> ts) = hist_system h"
    using assms by (auto simp: build_vertex_defs result_bind_Inr Let_def)
  obtain cs where "result_map (vertex_contribution parse (id_to_name ms)) ms = Inr cs"
      "sent_blocks (hist_messages h) = concat (map blocks_in cs)" "hist_system h = concat (map systems_in cs)"
    using batch_loop_kept [OF h(1)] by (auto simp: no_history_def hist_blocks_def)
  then show ?thesis using vertex_contributions_tools by (simp add: h)
qed

section \<open>Properties\<close>


definition parallel_calls :: "(go_error + response) list" where
  "parallel_calls =
     (let call = (\<lambda>a. Some \<lparr>rp_call = Some \<lparr>fc_id = [], fc_name = ''read'', fc_args = a\<rparr>, rp_text = [], rp_thought = False\<rparr>)
      in [Inr \<lparr>resp_block = None, resp_usage = Some (3, 2, 0, 5), resp_candidates =
           [Some \<lparr>cand_finish = FinishUnset, cand_parts = Some [call (JObj []), None, call JNull]\<rparr>]\<rparr>])"



definition plain_vertex :: vertex_client where
  "plain_vertex = \<lparr>vc_model = ''m'', vc_max_tokens = 0, vc_thinking = False, vc_budget = 0, vc_safety = []\<rparr>"

definition empty_request :: chat_request where
  "empty_request = \<lparr>req_model = [], req_messages = [], req_stream = True, req_tools = [],
     req_max_tokens = 0, req_stop = [], req_temperature = 0, req_top_k = 0, req_top_p = 0, req_min_p = 0,
     req_presence_penalty = 0, req_frequency_penalty = 0, req_repetition_penalty = 0\<rparr>"


text \<open>
  A history that translates keeps every function call and every function response in order;
  system texts become the instruction; every content is a user or model turn that is not empty,
  and one with responses has nothing but responses.
\<close>

theorem vertex_history:
  assumes "build_vertex_request parse float r n = Inr (contents, g)" "ms = filter_for_request (req_messages r)"
  shows "concat (map use_of (sent_blocks contents)) = concat (map names_called ms) \<and>
    concat (map result_of (sent_blocks contents)) = concat (map (names_answered (id_to_name ms)) ms) \<and>
    (case gc_system g of None \<Rightarrow> [] | Some ts \<Rightarrow> ts) = concat (map instructions ms) \<and>
    list_all (\<lambda>(who, ps). ps \<noteq> [] \<and> (who = ''user'' \<and> list_all (\<lambda>b. result_of b \<noteq> []) ps \<or>
      who \<in> set [''user'', ''model''] \<and> list_all (\<lambda>b. result_of b = []) ps)) contents"
proof -
  obtain h where "batch_loop (vertex_contribution parse (id_to_name ms)) ms no_history = Inr h" "contents = hist_messages h"
    using assms by (auto simp: build_vertex_defs result_bind_Inr Let_def)
  then show ?thesis
    using vertex_request_history [OF assms] vertex_batching.sent_ok [of parse "id_to_name ms" ms h]
    by (simp add: vertex_batching.message_ok_def case_prod_unfold list_all_iff)
qed

definition tool_request :: chat_request where
  "tool_request = empty_request\<lparr>req_messages :=
     [empty_message\<lparr>role := ''system'', content := ''s''\<rparr>,
      empty_message\<lparr>role := ''assistant'', tool_calls := [\<lparr>call_id = ''1'', call_type = ''function'',
        fn = \<lparr>fn_name = ''f'', arguments = []\<rparr>\<rparr>]\<rparr>,
      empty_message\<lparr>role := ''tool'', tool_call_id := ''1''\<rparr>]\<rparr>"

definition tool_contents :: "(string \<times> vertex_part list) list" where
  "tool_contents = [(''model'', [FunctionCallPart ''f'' (JObj [])]), (''user'', [FunctionResponsePart ''f'' (JObj []) []])]"

definition tool_config :: "rat generate_config" where
  "tool_config = \<lparr>gc_system = Some [''s''], gc_max_tokens = 8192, gc_temperature = None, gc_top_p = None, gc_top_k = None,
     gc_tools = None, gc_thinking = None, gc_safety = []\<rparr>"

theorem vertex_history_witness:
  "concat (map use_of (sent_blocks tool_contents)) = concat (map names_called (filter_for_request (req_messages tool_request))) \<and>
    concat (map result_of (sent_blocks tool_contents)) =
      concat (map (names_answered (id_to_name (filter_for_request (req_messages tool_request)))) (filter_for_request (req_messages tool_request))) \<and>
    (case gc_system tool_config of None \<Rightarrow> [] | Some ts \<Rightarrow> ts) = concat (map instructions (filter_for_request (req_messages tool_request))) \<and>
    list_all (\<lambda>(who, ps). ps \<noteq> [] \<and> (who = ''user'' \<and> list_all (\<lambda>b. result_of b \<noteq> []) ps \<or>
      who \<in> set [''user'', ''model''] \<and> list_all (\<lambda>b. result_of b = []) ps)) tool_contents"
  by (rule vertex_history [where parse = "\<lambda>_. Inr JNull" and float = "\<lambda>q. q" and n = 0, OF _ refl])
    (simp add: build_vertex_defs tool_request_def empty_request_def filter_for_request_def empty_message_def
      vertex_contribution_def vertex_assistant_parts_def vertex_leading_def vertex_call_def response_media_def
      response_name_def response_payload_def id_to_name_def name_entries_def no_history_def flush_def
      tool_contents_def tool_config_def wrap32_def)

text \<open>
  A tool result is sent under the name of the call it answers: the name of the calls with its id
  in the history, when there are such calls and they agree.
\<close>

theorem response_name_recovered:
  assumes "m \<in> set ms" "role m = ''assistant''" "c \<in> set (tool_calls m)" "call_id c = tool_call_id t"
    "call_id c \<noteq> []" "fn_name (fn c) \<noteq> []"
    "list_all (\<lambda>(i, n). i = tool_call_id t \<longrightarrow> n = fn_name (fn c)) (concat (map name_entries ms))"
  shows "response_name (id_to_name ms) t = fn_name (fn c)"
proof -
  have "(tool_call_id t, fn_name (fn c)) \<in> set (name_entries m)"
    using assms(2-6) by (auto simp: name_entries_def intro!: image_eqI [of _ _ c])
  then have "(tool_call_id t, fn_name (fn c)) \<in> set (concat (map name_entries ms))" using assms(1) by auto
  then have "id_to_name ms (tool_call_id t) = Some (fn_name (fn c))"
    by (rule id_to_name_unique) (use assms(7) in \<open>auto simp: list_all_iff\<close>)
  then show ?thesis using assms(6) by (simp add: response_name_def)
qed

theorem response_name_recovered_witness:
  "response_name (id_to_name (req_messages tool_request)) (empty_message\<lparr>role := ''tool'', tool_call_id := ''1''\<rparr>) =
    fn_name (fn \<lparr>call_id = ''1'', call_type = ''function'', fn = \<lparr>fn_name = ''f'', arguments = []\<rparr>\<rparr>)"
  by (rule response_name_recovered [where m = "empty_message\<lparr>role := ''assistant'', tool_calls :=
        [\<lparr>call_id = ''1'', call_type = ''function'', fn = \<lparr>fn_name = ''f'', arguments = []\<rparr>\<rparr>]\<rparr>"])
    (simp_all add: tool_request_def name_entries_def empty_message_def)

text \<open>
  The order in which Go's map yields the safety settings does not matter: in any order they are
  accepted or rejected alike, and accepted they give the same settings up to order and the same
  rest of the config.
\<close>

theorem vertex_safety_order:
  assumes "mset settings = mset settings'" "apply_vertex_safety settings g = Inr g1"
  shows "\<exists>g2. apply_vertex_safety settings' g = Inr g2 \<and> mset (gc_safety g2) = mset (gc_safety g1) \<and>
    g2\<lparr>gc_safety := []\<rparr> = g1\<lparr>gc_safety := []\<rparr>"
proof (cases "settings = []")
  case True
  with assms show ?thesis by (simp add: apply_vertex_safety_def)
next
  case False
  then have ne: "settings' \<noteq> []" using assms(1) by auto
  obtain out where out: "result_map safety_setting settings = Inr out" "g1 = g\<lparr>gc_safety := out\<rparr>"
    using False assms(2) by (auto simp: apply_vertex_safety_def result_bind_Inr)
  obtain out' where "result_map safety_setting settings' = Inr out'" "mset out' = mset out"
    using result_map_mset [OF assms(1) out(1)] by auto
  with ne out(2) show ?thesis by (simp add: apply_vertex_safety_def)
qed

lemma demo_settings:
  "apply_vertex_safety [(''harassment'', ''OFF''), (''HATE_speech'', ''block_none'')] tool_config =
     Inr (tool_config\<lparr>gc_safety := [(Harassment, FilterOff), (HateSpeech, BlockNone)]\<rparr>)"
proof -
  have "list_all (list_all plain_char) [''harassment'', ''OFF'', ''HATE_speech'', ''block_none'']"
    by (simp add: plain_char_def is_space_def)
  then have "trim_space ''harassment'' = ''harassment''" "trim_space ''OFF'' = ''OFF''"
    "trim_space ''HATE_speech'' = ''HATE_speech''" "trim_space ''block_none'' = ''block_none''"
    by (simp_all add: trim_space_plain)
  moreover have "runes ''harassment'' = rune_text ''harassment''" "runes ''OFF'' = rune_text ''OFF''"
    "runes ''HATE_speech'' = rune_text ''HATE_speech''" "runes ''block_none'' = rune_text ''block_none''"
    by (simp_all add: runes_ascii rune_text_def)
  ultimately have "safety_setting (''harassment'', ''OFF'') = Inr (Harassment, FilterOff)"
    "safety_setting (''HATE_speech'', ''block_none'') = Inr (HateSpeech, BlockNone)"
    by (simp_all add: safety_setting_def lower_runes_def rune_text_def harm_categories_def harm_thresholds_def upper_rune_def)
  then show ?thesis by (simp add: apply_vertex_safety_def)
qed

theorem vertex_safety_order_witness:
  "\<exists>g2. apply_vertex_safety [(''HATE_speech'', ''block_none''), (''harassment'', ''OFF'')] tool_config = Inr g2 \<and>
    mset (gc_safety g2) = mset (gc_safety (tool_config\<lparr>gc_safety := [(Harassment, FilterOff), (HateSpeech, BlockNone)]\<rparr>)) \<and>
    g2\<lparr>gc_safety := []\<rparr> = (tool_config\<lparr>gc_safety := [(Harassment, FilterOff), (HateSpeech, BlockNone)]\<rparr>)\<lparr>gc_safety := []\<rparr>"
  by (rule vertex_safety_order [OF _ demo_settings]) simp

end
