(* ===== verification/InlineCalls.thy ===== *)
theory InlineCalls
  imports Errors JsonRaw Messages
begin

text \<open>
  Tool calls leaked into text (llm/inline_toolcall.go). The three regular expressions are matchers
  on the characters of a text, each its rune with its bytes; the leftmost match wins, and the lazy
  group ends at the first place where the rest of the expression matches.
  Both shapes of a call are modelled down to the JSON text of its arguments.
\<close>

section \<open>The regular expressions\<close>

type_synonym chars = "(nat \<times> string) list"

definition bytes_of :: "chars \<Rightarrow> string" where
  "bytes_of t = concat (map snd t)"

definition skip_ws :: "chars \<Rightarrow> chars" where
  "skip_ws t = dropWhile (\<lambda>(r, _). regex_space r) t"

fun match_ci :: "string \<Rightarrow> chars \<Rightarrow> chars option" where
  "match_ci [] t = Some t"
| "match_ci (c # cs) [] = None"
| "match_ci (c # cs) (x # t) = (if fold_rune (fst x) = of_char c then match_ci cs t else None)"

fun lazy_until :: "(chars \<Rightarrow> chars option) \<Rightarrow> chars \<Rightarrow> (chars \<times> chars) option" where
  "lazy_until tail [] = map_option (\<lambda>r. ([], r)) (tail [])"
| "lazy_until tail (x # t) =
     (case tail (x # t) of
        Some r \<Rightarrow> Some ([], r)
      | None \<Rightarrow> map_option (\<lambda>(g, r). (x # g, r)) (lazy_until tail t))"

text \<open>\<open>reToolCallBlock\<close>: the group, and what follows the match.\<close>

definition match_tool_call :: "chars \<Rightarrow> (string \<times> chars) option" where
  "match_tool_call t =
     (case match_ci ''<tool_call>'' t of
        None \<Rightarrow> None
      | Some r \<Rightarrow> map_option (\<lambda>(g, rest). (bytes_of g, rest))
          (lazy_until (\<lambda>t. match_ci ''</tool_call>'' (skip_ws t)) (skip_ws r)))"

definition name_char :: "nat \<times> string \<Rightarrow> bool" where
  "name_char x \<longleftrightarrow> fst x \<noteq> 62 \<and> \<not> regex_space (fst x)"

definition close_tag :: "string \<Rightarrow> chars \<Rightarrow> chars option" where
  "close_tag tag t =
     (case match_ci tag t of
        None \<Rightarrow> None
      | Some r \<Rightarrow> (case skip_ws r of x # rest \<Rightarrow> if fst x = 62 then Some rest else None | [] \<Rightarrow> None))"

text \<open>\<open>reFunctionBlock\<close> and \<open>reParameter\<close>: the two groups, and what follows.\<close>

definition match_tagged :: "string \<Rightarrow> string \<Rightarrow> chars \<Rightarrow> ((string \<times> string) \<times> chars) option" where
  "match_tagged opening closing t =
     (case match_ci opening t of
        None \<Rightarrow> None
      | Some r \<Rightarrow>
     (case skip_ws r of
        [] \<Rightarrow> None
      | eq # r \<Rightarrow>
          if fst eq \<noteq> 61 then None
          else
            let r = skip_ws r; name = takeWhile name_char r in
            if name = [] then None
            else case skip_ws (dropWhile name_char r) of
                   [] \<Rightarrow> None
                 | gt # body \<Rightarrow>
                     if fst gt \<noteq> 62 then None
                     else map_option (\<lambda>(g, rest). ((bytes_of name, bytes_of g), rest))
                       (lazy_until (close_tag closing) body)))"

definition match_function :: "chars \<Rightarrow> ((string \<times> string) \<times> chars) option" where
  "match_function t = match_tagged ''<function'' ''</function'' t"

definition match_parameter :: "chars \<Rightarrow> ((string \<times> string) \<times> chars) option" where
  "match_parameter t = match_tagged ''<parameter'' ''</parameter'' t"

text \<open>
  \<open>FindAllStringSubmatch\<close> and \<open>ReplaceAllString\<close> with nothing: the groups of the matches from
  left to right, and the characters outside them. A match takes at least one character.
\<close>

function all_matches :: "(chars \<Rightarrow> ('a \<times> chars) option) \<Rightarrow> chars \<Rightarrow> 'a list \<times> chars" where
  "all_matches m [] = ([], [])"
| "all_matches m (x # t) =
     (case m (x # t) of
        Some (g, rest) \<Rightarrow>
          if length rest < length (x # t) then (case all_matches m rest of (gs, out) \<Rightarrow> (g # gs, out)) else ([], x # t)
      | None \<Rightarrow> (case all_matches m t of (gs, out) \<Rightarrow> (gs, x # out)))"
  by pat_completeness auto
termination by (relation "measure (\<lambda>(m, t). length t)") auto

section \<open>The calls\<close>

definition new_inline_call :: "string \<Rightarrow> string \<Rightarrow> nat \<Rightarrow> tool_call" where
  "new_inline_call name args idx =
     \<lparr>call_id = ''call_inline_'' @ itoa (int idx + 1), call_type = ''function'',
      fn = \<lparr>fn_name = trim_space name, arguments = args\<rparr>\<rparr>"

definition json_string :: "string \<Rightarrow> string" where
  "json_string s = json_render (JStr s)"

definition parameter_value :: "string \<Rightarrow> string" where
  "parameter_value raw = (if raw \<noteq> [] \<and> json_valid raw \<and> raw \<noteq> ''}'' then raw else json_string raw)"

definition parameter_members :: "(string \<times> string) list \<Rightarrow> string list" where
  "parameter_members pms =
     map (\<lambda>(k, v). json_string (trim_space k) @ '':'' @ parameter_value (trim_space v))
       (filter (\<lambda>(k, _). trim_space k \<noteq> []) pms)"

definition parse_function_xml :: "string \<Rightarrow> string \<Rightarrow> nat \<Rightarrow> tool_call option" where
  "parse_function_xml name body idx =
     (let name = trim_space name in
      if name = [] then None
      else Some (new_inline_call name
        (''{'' @ join '','' (parameter_members (fst (all_matches match_parameter (utf8_split body)))) @ ''}'') idx))"

text \<open>
  The two decodings of the JSON shape: a body into the struct of name and raw arguments (empty
  when absent), and the arguments into a string (\<open>null\<close> leaves it empty).
\<close>

definition inline_fields :: "string \<Rightarrow> (string \<times> string) option" where
  "inline_fields body =
     (case json_parse body of
        Inl _ \<Rightarrow> None
      | Inr JNull \<Rightarrow> Some ([], [])
      | Inr _ \<Rightarrow>
          (case raw_object body of
             None \<Rightarrow> None
           | Some ms \<Rightarrow>
               (case raw_str_field ''name'' ms of
                  Inl _ \<Rightarrow> None
                | Inr name \<Rightarrow> Some (name, raw_member ''arguments'' ms))))"

definition decode_string :: "string \<Rightarrow> string option" where
  "decode_string raw =
     (case json_parse raw of Inr (JStr s) \<Rightarrow> Some s | Inr JNull \<Rightarrow> Some [] | _ \<Rightarrow> None)"

fun first_match :: "(chars \<Rightarrow> ('a \<times> chars) option) \<Rightarrow> chars \<Rightarrow> 'a option" where
  "first_match m [] = None"
| "first_match m (x # t) = (case m (x # t) of Some (g, _) \<Rightarrow> Some g | None \<Rightarrow> first_match m t)"

definition parse_one_inline :: "string \<Rightarrow> nat \<Rightarrow> tool_call option" where
  "parse_one_inline body idx =
     (case first_match match_function (utf8_split body) of
        Some (name, inner) \<Rightarrow> parse_function_xml name inner idx
      | None \<Rightarrow>
     (case inline_fields body of
        None \<Rightarrow> None
      | Some (name, raw) \<Rightarrow>
          if name = [] then None
          else
            let args = trim_space raw;
                args = (if args = [] \<or> args = ''null'' then ''{}''
                        else case decode_string raw of Some s \<Rightarrow> s | None \<Rightarrow> args)
            in Some (new_inline_call name args idx)))"

text \<open>The loops over the matches number the calls by those parsed so far.\<close>

fun collect_calls :: "('a \<Rightarrow> nat \<Rightarrow> tool_call option) \<Rightarrow> 'a list \<Rightarrow> nat \<Rightarrow> tool_call list" where
  "collect_calls p [] n = []"
| "collect_calls p (g # gs) n =
     (case p g n of Some c \<Rightarrow> c # collect_calls p gs (Suc n) | None \<Rightarrow> collect_calls p gs n)"

definition parse_inline_tool_calls :: "string \<Rightarrow> string \<times> tool_call list" where
  "parse_inline_tool_calls s =
     (if s = [] \<or> CHR ''<'' \<notin> set s then (s, [])
      else
        (case all_matches match_tool_call (utf8_split s) of
           (blocks, outside) \<Rightarrow>
             let calls = collect_calls (\<lambda>b. parse_one_inline (trim_space b)) blocks 0 in
             if calls \<noteq> [] then (trim_space (bytes_of outside), calls)
             else
               (case all_matches match_function (utf8_split s) of
                  (blocks, outside) \<Rightarrow>
                    let calls = collect_calls (\<lambda>(name, body). parse_function_xml name body) blocks 0 in
                    if calls \<noteq> [] then (trim_space (bytes_of outside), calls) else (s, []))))"

section \<open>Lemmas\<close>

lemma match_ci_length: "match_ci p t = Some r \<Longrightarrow> length t = length p + length r"
  by (induction p t rule: match_ci.induct) (auto split: if_splits)

lemma skip_ws_length: "length (skip_ws t) \<le> length t"
  by (simp add: skip_ws_def length_dropWhile_le)

lemma lazy_until_length:
  "(\<And>t r. tail t = Some r \<Longrightarrow> length r \<le> length t) \<Longrightarrow> lazy_until tail t = Some (g, r) \<Longrightarrow> length r \<le> length t"
  by (induction t arbitrary: g r) (fastforce split: option.splits)+

lemma close_tag_length: "close_tag tag t = Some r \<Longrightarrow> length r \<le> length t"
proof -
  assume "close_tag tag t = Some r"
  then obtain u x where u: "match_ci tag t = Some u" "skip_ws u = x # r"
    by (auto simp: close_tag_def split: option.splits list.splits if_splits)
  show ?thesis using match_ci_length [OF u(1)] skip_ws_length [of u] u(2) by simp
qed

text \<open>The guard of the scan is always met.\<close>

lemma match_tool_call_shorter: "match_tool_call t = Some (g, r) \<Longrightarrow> length r < length t"
proof -
  assume "match_tool_call t = Some (g, r)"
  then obtain u h where u: "match_ci ''<tool_call>'' t = Some u"
      "lazy_until (\<lambda>t. match_ci ''</tool_call>'' (skip_ws t)) (skip_ws u) = Some (h, r)"
    by (auto simp: match_tool_call_def split: option.splits)
  have "length r \<le> length (skip_ws u)"
  proof (rule lazy_until_length [OF _ u(2)])
    fix t r assume "match_ci ''</tool_call>'' (skip_ws t) = Some r"
    from match_ci_length [OF this] skip_ws_length [of t] show "length r \<le> length t" by simp
  qed
  then show ?thesis using match_ci_length [OF u(1)] skip_ws_length [of u] by simp
qed

lemma match_tagged_shorter:
  assumes "match_tagged a b t = Some (g, r)" "a \<noteq> []"
  shows "length r < length t"
proof -
  obtain u eq v gt body h where u: "match_ci a t = Some u" "skip_ws u = eq # v"
      "skip_ws (dropWhile name_char (skip_ws v)) = gt # body" "lazy_until (close_tag b) body = Some (h, r)"
    using assms(1) by (auto simp: match_tagged_def Let_def split: option.splits list.splits if_splits)
  have "length r \<le> length body" by (rule lazy_until_length [OF _ u(4)]) (rule close_tag_length)
  moreover have "length (gt # body) \<le> length (skip_ws v)"
    unfolding u(3) [symmetric] using skip_ws_length [of "dropWhile name_char (skip_ws v)"] length_dropWhile_le
    by (rule le_trans)
  moreover have "length (eq # v) \<le> length u" unfolding u(2) [symmetric] by (rule skip_ws_length)
  ultimately show ?thesis using match_ci_length [OF u(1)] skip_ws_length [of v] by simp
qed

lemma collect_calls_ids:
  "(\<And>g n c. p g n = Some c \<Longrightarrow> call_id c = ''call_inline_'' @ itoa (int n + 1)) \<Longrightarrow>
     map call_id (collect_calls p gs n) = map (\<lambda>i. ''call_inline_'' @ itoa (int i + 1)) [n..<n + length (collect_calls p gs n)]"
proof (induction gs arbitrary: n)
  case (Cons g gs)
  show ?case
  proof (cases "p g n")
    case None
    with Cons show ?thesis by simp
  next
    case (Some c)
    then have "collect_calls p (g # gs) n = c # collect_calls p gs (Suc n)" by simp
    with Cons.IH [of "Suc n"] Cons.prems [OF Some] Cons.prems show ?thesis
      by (simp add: upt_conv_Cons del: upt_Suc)
  qed
qed simp

lemma inline_ids:
  "parse_function_xml name body n = Some c \<Longrightarrow> call_id c = ''call_inline_'' @ itoa (int n + 1)"
  "parse_one_inline b n = Some c \<Longrightarrow> call_id c = ''call_inline_'' @ itoa (int n + 1)"
  by (auto simp: parse_function_xml_def parse_one_inline_def new_inline_call_def Let_def split: option.splits if_splits)

section \<open>Properties\<close>

text \<open>
  Calls are recovered or the text is left alone: without a call the content comes back as it was,
  and the recovered calls are numbered from one in their order, so that their ids are distinct.
\<close>

theorem inline_calls_numbered:
  "case parse_inline_tool_calls s of
     (cleaned, calls) \<Rightarrow> (calls = [] \<longrightarrow> cleaned = s) \<and>
       map call_id calls = map (\<lambda>i. ''call_inline_'' @ itoa (int i + 1)) [0..<length calls] \<and> distinct (map call_id calls)"
proof -
  let ?r = "parse_inline_tool_calls s"
  have ids: "map call_id (snd ?r) = map (\<lambda>i. ''call_inline_'' @ itoa (int i + 1)) [0..<length (snd ?r)]"
    using collect_calls_ids [of "\<lambda>b. parse_one_inline (trim_space b)" _ 0]
      collect_calls_ids [of "\<lambda>(name, body). parse_function_xml name body" _ 0] inline_ids
    by (auto simp: parse_inline_tool_calls_def Let_def split: prod.split)
  have "distinct (map (\<lambda>i. ''call_inline_'' @ itoa (int i + 1)) [0..<k])" for k
    by (simp add: distinct_map inj_on_def)
  with ids have "distinct (map call_id (snd ?r))" by metis
  moreover have "snd ?r = [] \<longrightarrow> fst ?r = s"
    by (auto simp: parse_inline_tool_calls_def Let_def split: prod.split)
  ultimately show ?thesis using ids by (cases ?r) simp
qed

theorem inline_calls_numbered_witness:
  "case parse_inline_tool_calls ''a < b'' of
     (cleaned, calls) \<Rightarrow> (calls = [] \<longrightarrow> cleaned = ''a < b'') \<and>
       map call_id calls = map (\<lambda>i. ''call_inline_'' @ itoa (int i + 1)) [0..<length calls] \<and> distinct (map call_id calls)"
  by (rule inline_calls_numbered)

text \<open>
  When one wrapped block parses, the blocks that do not are removed with it: only text outside
  the matches is kept.
\<close>

lemma unparsed_blocks_removed:
  "all_matches match_tool_call (utf8_split s) = (blocks, outside) \<Longrightarrow> CHR ''<'' \<in> set s \<Longrightarrow>
     collect_calls (\<lambda>b. parse_one_inline (trim_space b)) blocks 0 \<noteq> [] \<Longrightarrow>
     fst (parse_inline_tool_calls s) = trim_space (bytes_of outside)"
  by (auto simp: parse_inline_tool_calls_def Let_def)

end
