(* ===== verification/InlineRecovery.thy ===== *)
theory InlineRecovery
  imports InlineCalls
begin

text \<open>
  Leaked tool calls are recovered (llm/inline_toolcall.go): the texts of any number of calls, in the
  function shape or the JSON shape, wrapped in blocks or bare, with other text around them. Text is
  any bytes without an opening bracket of markup; what is compared are the characters \<open>InlineCalls\<close>
  matches on.
\<close>

section \<open>Characters of a text\<close>

definition chars_of :: "string \<Rightarrow> chars" where
  "chars_of s = map (\<lambda>c. (of_char c, [c])) s"

definition ascii :: "string \<Rightarrow> bool" where
  "ascii s = list_all (\<lambda>c. (of_char c :: nat) < 128) s"

lemma chars_of_simps [simp]:
  "chars_of [] = []" "chars_of (c # s) = (of_char c, [c]) # chars_of s" "chars_of (a @ b) = chars_of a @ chars_of b"
  by (simp_all add: chars_of_def)

lemma ascii_simps [simp]: "ascii []" "ascii (c # s) \<longleftrightarrow> (of_char c :: nat) < 128 \<and> ascii s" "ascii (a @ b) \<longleftrightarrow> ascii a \<and> ascii b"
  by (simp_all add: ascii_def)

lemma bytes_of_simps [simp]:
  "bytes_of [] = []" "bytes_of (x # a) = snd x @ bytes_of a" "bytes_of (a @ b) = bytes_of a @ bytes_of b" "bytes_of (chars_of s) = s" "bytes_of (utf8_split s) = s"
  by (simp_all add: bytes_of_def chars_of_def utf8_split_concat o_def)

lemma bytes_of_concat [simp]: "bytes_of (concat xs) = concat (map bytes_of xs)"
  by (induction xs) simp_all

lemma split_ascii: "ascii a \<Longrightarrow> utf8_split (a @ s) = chars_of a @ utf8_split s"
  by (induction a) (simp_all add: utf8_split_ascii del: utf8_split.simps(2))

lemmas split_ascii_only = split_ascii [of _ "[]", simplified]

text \<open>What starts a tag is not part of the rune before it.\<close>

definition tag_next :: "string \<Rightarrow> bool" where
  "tag_next s \<longleftrightarrow> s = [] \<or> hd s = CHR ''<''"

lemma split_before_tag: "tag_next t \<Longrightarrow> utf8_split (s @ t) = utf8_split s @ utf8_split t"
  using utf8_split_before_ascii [of "CHR ''<''" s "tl t"] by (cases t) (auto simp: tag_next_def simp del: utf8_split.simps(2))

definition untagged :: "string \<Rightarrow> bool" where
  "untagged s \<longleftrightarrow> CHR ''<'' \<notin> set s"

definition no_lt :: "chars \<Rightarrow> bool" where
  "no_lt t \<longleftrightarrow> list_all (\<lambda>x. fst x \<noteq> 60) t"

lemma no_lt_simps [simp]: "no_lt []" "no_lt (x # t) \<longleftrightarrow> fst x \<noteq> 60 \<and> no_lt t" "no_lt (t @ u) \<longleftrightarrow> no_lt t \<and> no_lt u"
  by (simp_all add: no_lt_def)

lemma no_lt_drop [simp]: "no_lt t \<Longrightarrow> no_lt (drop n t)"
  by (auto simp: no_lt_def list_all_iff dest: in_set_dropD)

lemma lt_code: "(of_char c :: nat) = 60 \<longleftrightarrow> c = CHR ''<''"
  using of_char_eq_iff [of c "CHR ''<''"] by simp

lemma gt_code: "(of_char c :: nat) = 62 \<longleftrightarrow> c = CHR ''>''"
  using of_char_eq_iff [of c "CHR ''>''"] by simp

lemma untagged_split:
  assumes "untagged s"
  shows "no_lt (utf8_split s)"
  unfolding no_lt_def list_all_iff
proof
  fix x assume x: "x \<in> set (utf8_split s)"
  show "fst x \<noteq> 60"
  proof
    assume "fst x = 60"
    with x have "(60, snd x) \<in> set (utf8_split s)" by (metis prod.collapse)
    from low_rune_in [OF this] have "(60::nat) \<in> of_char ` set s" by simp
    then obtain c where "c \<in> set s" "(of_char c :: nat) = 60" by auto
    with assms show False by (simp add: lt_code untagged_def)
  qed
qed

lemma untagged_chars: "untagged s \<Longrightarrow> no_lt (chars_of s)"
  by (auto simp: no_lt_def list_all_iff untagged_def chars_of_def lt_code)

lemma untagged_simps [simp]: "untagged (a @ b) \<longleftrightarrow> untagged a \<and> untagged b" "untagged []"
  "untagged (c # s) \<longleftrightarrow> c \<noteq> CHR ''<'' \<and> untagged s"
  by (auto simp: untagged_def)

text \<open>Names of functions and parameters.\<close>

definition word :: "string \<Rightarrow> bool" where
  "word s \<longleftrightarrow> s \<noteq> [] \<and> list_all (\<lambda>c. plain_char c \<and> c \<noteq> CHR ''<'' \<and> c \<noteq> CHR ''>'') s"

lemma regex_space_is_space: "regex_space r \<Longrightarrow> is_space r"
  by (auto simp: regex_space_def is_space_def)

lemma word_name_chars: "word s \<Longrightarrow> list_all name_char (chars_of s)"
  using regex_space_is_space
  by (fastforce simp: word_def name_char_def list_all_iff chars_of_def plain_char_def gt_code)

lemma word_ascii: "word s \<Longrightarrow> ascii s"
  by (simp add: word_def ascii_def plain_char_def list_all_iff)

lemma word_trim: "word s \<Longrightarrow> trim_space s = s"
  by (rule trim_space_plain) (simp add: word_def list_all_iff)

lemma word_untagged: "word s \<Longrightarrow> untagged s"
  by (auto simp: word_def untagged_def list_all_iff)

lemma word_utf8: "word s \<Longrightarrow> replace_invalid s = s"
  using word_ascii [of s] by (simp add: replace_invalid_valid valid_utf8_ascii ascii_def)

text \<open>White space is trimmed at the ends only.\<close>

lemma trim_ends:
  assumes "s = c # m" "s = m' @ [d]" "plain_char c" "plain_char d"
  shows "trim_space s = s"
proof -
  have c: "utf8_split s = (of_char c, [c]) # utf8_split m"
    using assms(1,3) by (simp add: plain_char_def utf8_split_ascii del: utf8_split.simps(2))
  have d: "utf8_split s = utf8_split m' @ [(of_char d, [d])]"
    using assms(2,4) utf8_split_before_ascii [of d m' "[]"]
    by (simp add: plain_char_def utf8_split_ascii del: utf8_split.simps(2))
  have "dropWhile (\<lambda>(r, _). is_space r) (utf8_split s) = utf8_split s"
    using assms(3) by (simp add: c plain_char_def)
  moreover have "dropWhile (\<lambda>(r, _). is_space r) (rev (utf8_split s)) = rev (utf8_split s)"
    using assms(4) by (simp add: d plain_char_def)
  ultimately show ?thesis by (simp add: trim_space_def utf8_split_concat)
qed

section \<open>Scanning\<close>

definition needs_lt :: "(chars \<Rightarrow> 'a option) \<Rightarrow> bool" where
  "needs_lt m \<longleftrightarrow> (\<forall>x t. fst x \<noteq> 60 \<longrightarrow> m (x # t) = None)"

lemma match_ci_lt: "fst x \<noteq> 60 \<Longrightarrow> match_ci (CHR ''<'' # p) (x # t) = None"
  by (simp add: fold_rune_def)

lemma matchers_need_lt [simp]:
  "needs_lt (match_tagged (CHR ''<'' # p) c)" "needs_lt (close_tag (CHR ''<'' # p))" "needs_lt match_tool_call"
  "needs_lt match_function" "needs_lt match_parameter"
  by (simp_all add: needs_lt_def match_tagged_def close_tag_def match_tool_call_def match_function_def match_parameter_def
      match_ci_lt del: match_ci.simps)

text \<open>A segment is a tag with the text after it.\<close>

definition segment :: "chars \<Rightarrow> bool" where
  "segment g \<longleftrightarrow> (\<exists>x r. g = x # r \<and> fst x = 60 \<and> no_lt r)"

definition misses :: "(chars \<Rightarrow> 'a option) \<Rightarrow> chars \<Rightarrow> bool" where
  "misses m g \<longleftrightarrow> segment g \<and> (\<forall>t. m (g @ t) = None)"

lemma all_matches_skip:
  "needs_lt m \<Longrightarrow> no_lt p \<Longrightarrow> all_matches m (p @ t) = (case all_matches m t of (gs, out) \<Rightarrow> (gs, p @ out))"
  by (induction p) (auto simp: needs_lt_def split: prod.splits)

lemma all_matches_segments:
  assumes "needs_lt m" "list_all (misses m) segs"
  shows "all_matches m (concat segs @ t) = (case all_matches m t of (gs, out) \<Rightarrow> (gs, concat segs @ out))"
  using assms(2)
proof (induction segs)
  case (Cons g segs)
  then obtain x r where r: "g = x # r" "no_lt r" "m (g @ u) = None" for u
    by (auto simp: misses_def segment_def)
  have "all_matches m (g @ u) = (case all_matches m u of (gs, out) \<Rightarrow> (gs, g @ out))" for u
    using r(3) [of u] all_matches_skip [OF assms(1) r(2), of u] by (simp add: r(1) split: prod.splits)
  with Cons show ?case by (simp split: prod.splits)
qed simp

lemma all_matches_found:
  assumes "m (p @ t) = Some (g, t)" "p \<noteq> []"
  shows "all_matches m (p @ t) = (case all_matches m t of (gs, out) \<Rightarrow> (g # gs, out))"
  using assms by (cases p) (simp_all split: prod.split)

text \<open>A lazy group runs to the first place its end matches.\<close>

lemma lazy_until_at:
  "(\<And>x u v. p = u @ x # v \<Longrightarrow> tail (x # v @ q) = None) \<Longrightarrow> tail q = Some r \<Longrightarrow> lazy_until tail (p @ q) = Some (p, r)"
proof (induction p)
  case Nil
  then show ?case by (cases q) simp_all
next
  case (Cons x p)
  have "lazy_until tail (p @ q) = Some (p, r)"
    by (rule Cons.IH [OF _ Cons.prems(2)]) (use Cons.prems(1) in \<open>metis append_Cons\<close>)
  moreover have "tail (x # p @ q) = None" using Cons.prems(1) [of "[]" x p] by simp
  ultimately show ?case by simp
qed

text \<open>A place in a text of segments is in the text of one of them, or its start.\<close>

lemma segment_suffix:
  assumes "list_all segment segs" "concat segs = u @ x # v"
  shows "(\<exists>w segs'. x # v = w @ concat segs' \<and> no_lt w \<and> w \<noteq> [] \<and> set segs' \<subseteq> set segs) \<or>
    (\<exists>g segs'. x # v = g @ concat segs' \<and> g \<in> set segs \<and> set segs' \<subseteq> set segs)"
  using assms
proof (induction segs arbitrary: u)
  case (Cons g segs)
  from Cons.prems(2) have eq: "g @ concat segs = u @ x # v" by simp
  show ?case
  proof (cases "length u < length g")
    case True
    then have "take (length u) g = u" and g: "drop (length u) g @ concat segs = x # v"
      using eq by (auto simp: append_eq_append_conv_if split: if_splits)
    show ?thesis
    proof (cases u)
      case Nil
      then have "x # v = g @ concat segs" using g by simp
      then show ?thesis by (intro disjI2 exI [of _ g] exI [of _ segs]) auto
    next
      case (Cons y u')
      have "no_lt (drop (length u) g)"
        using \<open>list_all segment (g # segs)\<close> Cons by (auto simp: segment_def)
      then show ?thesis
        using g True by (intro disjI1 exI [of _ "drop (length u) g"] exI [of _ segs]) auto
    qed
  next
    case False
    then have "concat segs = drop (length g) u @ x # v"
      using eq by (auto simp: append_eq_append_conv_if)
    from Cons.IH [OF _ this] Cons.prems(1) show ?thesis by fastforce
  qed
qed simp

lemma lazy_until_segments:
  assumes "needs_lt tail" "list_all (misses tail) segs" "tail q = Some r"
  shows "lazy_until tail (concat segs @ q) = Some (concat segs, r)"
proof (rule lazy_until_at)
  show "tail q = Some r" by fact
next
  fix x u v assume "concat segs = u @ x # v"
  moreover have "list_all segment segs" using assms(2) by (auto simp: misses_def list_all_iff)
  ultimately consider w s where "x # v = w @ s" "no_lt w" "w \<noteq> []" | g s where "x # v = g @ s" "g \<in> set segs"
    using segment_suffix [of segs u x v] by blast
  then show "tail (x # v @ q) = None"
  proof cases
    case 1
    then have "fst x \<noteq> 60" by (cases w) auto
    then show ?thesis using assms(1) unfolding needs_lt_def by blast
  next
    case 2
    then have eq: "x # v @ q = g @ s @ q" by (metis append_Cons append_assoc)
    show ?thesis unfolding eq using 2 assms(2) by (simp add: misses_def list_all_iff)
  qed
qed

lemma lazy_until_skip:
  "needs_lt tail \<Longrightarrow> no_lt p \<Longrightarrow> tail q = Some r \<Longrightarrow> lazy_until tail (p @ q) = Some (p, r)"
  by (rule lazy_until_at) (auto simp: needs_lt_def)

text \<open>
  The end of a wrapped call may have white space before it: the group does not end with any, and no
  place in it is white space up to that end.
\<close>

lemma blank_none:
  assumes m: "needs_lt m" and segs: "list_all (misses m) segs"
  shows "no_lt w \<Longrightarrow> w @ concat segs \<noteq> [] \<Longrightarrow> \<not> regex_space (fst (last (w @ concat segs))) \<Longrightarrow>
    m (skip_ws (w @ concat segs @ q)) = None"
proof (induction w)
  case Nil
  with segs obtain g segs' where g: "segs = g # segs'" "misses m g" by (cases segs) auto
  then obtain x r where x: "g = x # r" "fst x = 60" by (auto simp: misses_def segment_def)
  then have "skip_ws (concat segs @ q) = g @ concat segs' @ q"
    by (cases x) (simp add: g(1) skip_ws_def regex_space_def)
  with g(2) show ?case by (simp add: misses_def)
next
  case (Cons c w)
  show ?case
  proof (cases "regex_space (fst c)")
    case True
    then have "w @ concat segs \<noteq> []" using Cons.prems(3) by (metis append_Cons last_ConsL)
    moreover from this have "last ((c # w) @ concat segs) = last (w @ concat segs)" by (metis append_Cons last_ConsR)
    ultimately have "m (skip_ws (w @ concat segs @ q)) = None" using Cons by (metis no_lt_simps(2))
    with True show ?thesis by (simp add: skip_ws_def split_beta)
  next
    case False
    then have "skip_ws ((c # w) @ concat segs @ q) = c # w @ concat segs @ q" by (simp add: skip_ws_def split_beta)
    moreover have "m (c # w @ concat segs @ q) = None" using m Cons.prems(1) unfolding needs_lt_def by (cases c) simp
    ultimately show ?thesis by simp
  qed
qed

lemma lazy_until_blank:
  assumes m: "needs_lt m" "list_all (misses m) segs" and w: "no_lt w"
    and p: "p = w @ concat segs" "p \<noteq> []" "\<not> regex_space (fst (last p))" and q: "m (skip_ws q) = Some r"
  shows "lazy_until (\<lambda>t. m (skip_ws t)) (p @ q) = Some (p, r)"
proof (rule lazy_until_at)
  show "m (skip_ws q) = Some r" by fact
next
  fix u x v assume pu: "p = u @ x # v"
  have "\<exists>w' segs'. x # v = w' @ concat segs' \<and> no_lt w' \<and> set segs' \<subseteq> set segs"
  proof (cases "length u < length w")
    case True
    then have "x # v = drop (length u) w @ concat segs"
      using pu p(1) by (auto simp: append_eq_append_conv_if split: if_splits)
    with w show ?thesis by (intro exI [of _ "drop (length u) w"] exI [of _ segs]) simp
  next
    case False
    then have "concat segs = drop (length w) u @ x # v"
      using pu p(1) by (auto simp: append_eq_append_conv_if)
    moreover have "list_all segment segs" using m(2) by (auto simp: misses_def list_all_iff)
    ultimately consider w' segs' where "x # v = w' @ concat segs'" "no_lt w'" "set segs' \<subseteq> set segs"
      | g segs' where "x # v = g @ concat segs'" "g \<in> set segs" "set segs' \<subseteq> set segs"
      using segment_suffix by blast
    then show ?thesis
    proof cases
      case 1
      then show ?thesis by blast
    next
      case 2
      then show ?thesis by (intro exI [of _ "[]"] exI [of _ "g # segs'"]) simp
    qed
  qed
  then obtain w' segs' where s: "x # v = w' @ concat segs'" "no_lt w'" "set segs' \<subseteq> set segs" by blast
  then have "list_all (misses m) segs'" using m(2) by (auto simp: list_all_iff)
  moreover have "last (x # v) = last p" using pu by simp
  ultimately have "m (skip_ws (w' @ concat segs' @ q)) = None"
    using blank_none [OF m(1) _ s(2), of segs'] p(3) by (simp add: s(1) [symmetric])
  moreover have eq: "x # v @ q = w' @ concat segs' @ q" using s(1) by (metis append_Cons append_assoc)
  ultimately show "m (skip_ws (x # v @ q)) = None" unfolding eq by simp
qed

section \<open>Function blocks\<close>

definition param_text :: "string \<times> string \<Rightarrow> string" where
  "param_text kv = ''<parameter='' @ fst kv @ ''>'' @ snd kv @ ''</parameter>''"

definition function_text :: "string \<Rightarrow> (string \<times> string) list \<Rightarrow> string" where
  "function_text n ps = ''<function='' @ n @ ''>'' @ concat (map param_text ps) @ ''</function>''"

definition params_ok :: "(string \<times> string) list \<Rightarrow> bool" where
  "params_ok ps \<longleftrightarrow> list_all (\<lambda>(k, v). word k \<and> untagged v) ps"

definition param_chars :: "string \<times> string \<Rightarrow> chars" where
  "param_chars kv = chars_of (''<parameter='' @ fst kv @ ''>'') @ utf8_split (snd kv) @ chars_of ''</parameter>''"

definition function_chars :: "string \<Rightarrow> (string \<times> string) list \<Rightarrow> chars" where
  "function_chars n ps = chars_of (''<function='' @ n @ ''>'') @ concat (map param_chars ps) @ chars_of ''</function>''"

lemma split_param:
  assumes "word (fst kv)"
  shows "utf8_split (param_text kv @ u) = param_chars kv @ utf8_split u"
proof -
  have "utf8_split (param_text kv @ u) =
      chars_of (''<parameter='' @ fst kv @ ''>'') @ utf8_split (snd kv @ ''</parameter>'' @ u)"
    using split_ascii [of "''<parameter='' @ fst kv @ ''>''" "snd kv @ ''</parameter>'' @ u"] word_ascii [OF assms]
    by (simp add: param_text_def)
  also have "utf8_split (snd kv @ ''</parameter>'' @ u) = utf8_split (snd kv) @ chars_of ''</parameter>'' @ utf8_split u"
    using split_before_tag [of "''</parameter>'' @ u" "snd kv"] split_ascii [of "''</parameter>''" u]
    by (simp add: tag_next_def del: utf8_split.simps(2))
  finally show ?thesis by (simp add: param_chars_def)
qed

lemma split_params:
  "params_ok ps \<Longrightarrow> utf8_split (concat (map param_text ps) @ u) = concat (map param_chars ps) @ utf8_split u"
  by (induction ps) (auto simp: params_ok_def split_param)

lemma split_function:
  assumes "word n" "params_ok ps"
  shows "utf8_split (function_text n ps @ u) = function_chars n ps @ utf8_split u"
proof -
  have "utf8_split (function_text n ps @ u) =
      chars_of (''<function='' @ n @ ''>'') @ utf8_split (concat (map param_text ps) @ ''</function>'' @ u)"
    using split_ascii [of "''<function='' @ n @ ''>''" "concat (map param_text ps) @ ''</function>'' @ u"] word_ascii [OF assms(1)]
    by (simp add: function_text_def)
  also have "utf8_split (concat (map param_text ps) @ ''</function>'' @ u) =
      concat (map param_chars ps) @ chars_of ''</function>'' @ utf8_split u"
    using split_params [OF assms(2)] split_ascii [of "''</function>''" u] by simp
  finally show ?thesis by (simp add: function_chars_def)
qed

lemma param_bytes [simp]: "bytes_of (param_chars kv) = param_text kv"
  by (simp add: param_chars_def param_text_def)

definition param_segments :: "(string \<times> string) list \<Rightarrow> chars list" where
  "param_segments ps =
     concat (map (\<lambda>(k, v). [chars_of (''<parameter='' @ k @ ''>'') @ utf8_split v, chars_of ''</parameter>'']) ps)"

definition function_segments :: "string \<Rightarrow> (string \<times> string) list \<Rightarrow> chars list" where
  "function_segments n ps = [chars_of (''<function='' @ n @ ''>'')] @ param_segments ps @ [chars_of ''</function>'']"

lemma param_segments_text: "concat (param_segments ps) = concat (map param_chars ps)"
  by (induction ps) (auto simp: param_segments_def param_chars_def)

lemma function_segments_text: "concat (function_segments n ps) = function_chars n ps"
  by (simp add: function_segments_def function_chars_def param_segments_text)

lemma missesI:
  assumes "\<And>u. m (chars_of p @ u) = None" "g = chars_of (p @ s) @ t" "p \<noteq> []" "hd p = CHR ''<''" "untagged (tl p @ s)" "no_lt t"
  shows "misses m g"
proof -
  obtain q where p: "p = CHR ''<'' # q" using assms(3,4) by (cases p) auto
  have "segment g"
    using assms(2,5,6) untagged_chars by (auto simp: segment_def p)
  then show ?thesis using assms(1) [of "chars_of s @ t @ _"] by (simp add: misses_def assms(2))
qed

lemma param_segments_miss:
  assumes "params_ok ps" "\<And>u. m (chars_of ''<p'' @ u) = None" "\<And>u. m (chars_of ''</p'' @ u) = None"
  shows "list_all (misses m) (param_segments ps)"
  using assms(1)
proof (induction ps)
  case (Cons kv ps)
  obtain k v where kv: "kv = (k, v)" by (cases kv)
  with Cons.prems have ok: "word k" "untagged v" "params_ok ps" by (simp_all add: params_ok_def)
  have "misses m (chars_of (''<parameter='' @ k @ ''>'') @ utf8_split v)"
    by (rule missesI [of m "''<p''" _ "''arameter='' @ k @ ''>''"])
      (use assms(2) ok word_untagged untagged_split in simp_all)
  moreover have "misses m (chars_of ''</parameter>'')"
    by (rule missesI [of m "''</p''" _ "''arameter>''" "[]"]) (use assms(3) in simp_all)
  ultimately show ?case using Cons.IH [OF ok(3)] by (simp add: param_segments_def kv)
qed (simp add: param_segments_def)

lemma match_ci_self: "list_all (\<lambda>c. fold_rune (of_char c) = of_char c) p \<Longrightarrow> match_ci p (chars_of p @ t) = Some t"
  by (induction p) simp_all

text \<open>A tag with a word, and the text up to a close tag.\<close>

lemma match_tagged_word:
  assumes "list_all (\<lambda>c. fold_rune (of_char c) = of_char c) opening" "word w"
    "lazy_until (close_tag closing) rest = Some (b, after)"
  shows "match_tagged opening closing (chars_of opening @ chars_of (''='' @ w @ ''>'') @ rest) = Some ((w, bytes_of b), after)"
proof -
  have tw: "takeWhile name_char (chars_of w @ (62, ''>'') # rest) = chars_of w"
    "dropWhile name_char (chars_of w @ (62, ''>'') # rest) = (62, ''>'') # rest"
    using word_name_chars [OF assms(2)] by (simp_all add: list_all_iff takeWhile_append name_char_def)
  obtain c cs where w: "w = c # cs" "\<not> regex_space (of_char c)"
    using assms(2) regex_space_is_space by (cases w) (auto simp: word_def plain_char_def)
  have "skip_ws (chars_of w @ (62, ''>'') # rest) = chars_of w @ (62, ''>'') # rest"
    using w(2) by (simp add: skip_ws_def w(1))
  moreover have "skip_ws ((61, ''='') # u) = (61, ''='') # u" "skip_ws ((62, ''>'') # u) = (62, ''>'') # u" for u
    by (simp_all add: skip_ws_def regex_space_def)
  moreover have "chars_of w \<noteq> []" by (simp add: w(1))
  ultimately show ?thesis
    using assms(3) by (simp add: match_tagged_def match_ci_self [OF assms(1)] Let_def tw)
qed

lemma parameters_found: "params_ok ps \<Longrightarrow> all_matches match_parameter (concat (map param_chars ps)) = (ps, [])"
proof (induction ps)
  case (Cons kv ps)
  obtain k v where kv: "kv = (k, v)" by (cases kv)
  from Cons.prems have ok: "word k" "untagged v" "params_ok ps" by (simp_all add: params_ok_def kv)
  let ?rest = "concat (map param_chars ps)"
  have "close_tag ''</parameter'' (chars_of ''</parameter>'' @ ?rest) = Some ?rest"
    by (simp add: close_tag_def fold_rune_def skip_ws_def regex_space_def)
  from lazy_until_skip [OF matchers_need_lt(2) untagged_split [OF ok(2)] this]
  have "lazy_until (close_tag ''</parameter'') (utf8_split v @ chars_of ''</parameter>'' @ ?rest) = Some (utf8_split v, ?rest)" .
  from match_tagged_word [OF _ ok(1) this, of "''<parameter''"]
  have m: "match_parameter (param_chars (k, v) @ ?rest) = Some ((k, v), ?rest)"
    by (simp add: match_parameter_def param_chars_def fold_rune_def)
  have "param_chars (k, v) \<noteq> []" by (simp add: param_chars_def)
  from all_matches_found [where m = match_parameter, OF m this] Cons.IH [OF ok(3)] show ?case by (simp add: kv)
qed simp

lemma function_matched:
  assumes "word n" "params_ok ps"
  shows "match_function (function_chars n ps @ rest) = Some ((n, concat (map param_text ps)), rest)"
proof -
  have "close_tag ''</function'' (chars_of ''</function>'' @ rest) = Some rest"
    by (simp add: close_tag_def fold_rune_def skip_ws_def regex_space_def)
  moreover have "list_all (misses (close_tag ''</function'')) (param_segments ps)"
    by (rule param_segments_miss [OF assms(2)]) (simp_all add: close_tag_def fold_rune_def)
  ultimately have "lazy_until (close_tag ''</function'') (concat (param_segments ps) @ chars_of ''</function>'' @ rest) =
      Some (concat (param_segments ps), rest)"
    by (intro lazy_until_segments) simp_all
  from match_tagged_word [OF _ assms(1) this, of "''<function''"] show ?thesis
    by (simp add: match_function_def function_chars_def fold_rune_def param_segments_text o_def)
qed

section \<open>Arguments\<close>

text \<open>
  The arguments of a call in the function shape are the text of a JSON object, whatever stands in
  its parameters, as long as no value is nested to the very limit of the decoder.
\<close>

definition parameter_json :: "string \<Rightarrow> json" where
  "parameter_json raw = (case json_parse raw of Inr v \<Rightarrow> v | Inl _ \<Rightarrow> JStr (replace_invalid raw))"

lemma json_parse_string: "json_parse (json_string s) = Inr (JStr (replace_invalid s))"
  using json_parse_render [of "JStr s"] by (simp add: json_string_def)

lemma not_json [simp]: "json_parse [] = Inl SyntaxError" "json_parse ''}'' = Inl SyntaxError"
  by (simp_all add: json_parse_def max_nesting_def parse_value_def json_ws_def json_number_def number_sign_def
      number_int_def is_digit_def)

lemma parameter_value_parses: "json_parse (parameter_value raw) = Inr (parameter_json raw)"
proof (cases "json_parse raw")
  case (Inl e)
  then show ?thesis using json_parse_string by (simp add: parameter_value_def parameter_json_def json_valid_def)
next
  case (Inr v)
  then have "raw \<noteq> [] \<and> raw \<noteq> ''}''" by auto
  with Inr show ?thesis by (simp add: parameter_value_def parameter_json_def json_valid_def)
qed

definition parameters_text :: "(string \<times> string) list \<Rightarrow> string" where
  "parameters_text ps =
     ''{'' @ join '','' (map (\<lambda>(k, v). json_string k @ '':'' @ parameter_value (trim_space v)) ps) @ ''}''"

definition shallow :: "(string \<times> string) list \<Rightarrow> bool" where
  "shallow ps \<longleftrightarrow> list_all (\<lambda>(k, v). json_depth (parameter_json (trim_space v)) < max_nesting) ps"

lemma parameters_parse:
  assumes "shallow ps"
  shows "json_parse (parameters_text ps) =
    Inr (JObj (map (\<lambda>(k, v). (replace_invalid k, parameter_json (trim_space v))) ps))"
proof -
  let ?ms = "map (\<lambda>(k, v). (k, parameter_value (trim_space v))) ps"
  have t: "map (\<lambda>(k, v). json_string k @ '':'' @ parameter_value (trim_space v)) ps = map member_of_text ?ms"
    by (simp add: member_of_text_def json_string_def split_def o_def del: json_render.simps)
  have "json_parse (snd m) = Inr (projr (json_parse (snd m))) \<and> json_depth (projr (json_parse (snd m))) < max_nesting"
    if "m \<in> set ?ms" for m
    using that assms parameter_value_parses by (auto simp: shallow_def list_all_iff)
  from object_of_texts [of ?ms "\<lambda>m. projr (json_parse (snd m))", OF this] show ?thesis
    unfolding parameters_text_def t by (simp add: parameter_value_parses split_def o_def)
qed

lemma function_parsed:
  assumes "word n" "params_ok ps"
  shows "parse_function_xml n (concat (map param_text ps)) i = Some (new_inline_call n (parameters_text ps) i)"
proof -
  have "parameter_members ps = map (\<lambda>(k, v). json_string k @ '':'' @ parameter_value (trim_space v)) ps"
    using assms(2) word_trim by (induction ps) (auto simp: params_ok_def parameter_members_def word_def)
  moreover have "utf8_split (concat (map param_text ps)) = concat (map param_chars ps)"
    using split_params [OF assms(2), of "[]"] by simp
  moreover have "n \<noteq> []" using assms(1) by (simp add: word_def)
  ultimately show ?thesis
    using parameters_found [OF assms(2)]
    by (simp add: parse_function_xml_def word_trim [OF assms(1)] parameters_text_def)
qed

section \<open>The JSON shape\<close>

lemma first_match_untagged: "needs_lt m \<Longrightarrow> no_lt t \<Longrightarrow> first_match m t = None"
  by (induction t) (auto simp: needs_lt_def)

lemma json_text_untagged: "json_numbers j \<Longrightarrow> untagged (json_render j)"
  using json_render_printable [of j] by (auto simp: untagged_def list_all_iff printable_def)

lemma json_text_ends:
  assumes "json_numbers j"
  shows "json_render j \<noteq> [] \<and> plain_char (hd (json_render j)) \<and> plain_char (last (json_render j))"
proof (cases j)
  case (JNum s)
  then have "s \<noteq> []" "list_all number_char s" using assms number_start by (auto simp: valid_number_chars)
  then have "number_char (hd s)" "number_char (last s)" by (simp_all add: list_all_iff)
  moreover have "plain_char c" if "number_char c" for c
    using that by (auto simp: number_char_def plain_char_def is_space_def is_digit_def)
  ultimately show ?thesis using JNum \<open>s \<noteq> []\<close> by simp
qed (simp_all add: plain_char_def is_space_def)

lemma trim_hd_last: "s \<noteq> [] \<and> plain_char (hd s) \<and> plain_char (last s) \<Longrightarrow> trim_space s = s"
  using trim_ends [of s "hd s" "tl s" "butlast s" "last s"] by simp

lemma trim_json: "json_numbers j \<Longrightarrow> trim_space (json_render j) = json_render j"
  using json_text_ends by (rule trim_hd_last)

definition inline_json :: "string \<Rightarrow> json \<Rightarrow> json" where
  "inline_json n a = JObj [(''name'', JStr n), (''arguments'', a)]"

text \<open>What the arguments become: their text, the text in a string, or an empty object for \<open>null\<close>.\<close>

definition arguments_text :: "json \<Rightarrow> string" where
  "arguments_text a = (case a of JNull \<Rightarrow> ''{}'' | JStr s \<Rightarrow> replace_invalid s | _ \<Rightarrow> json_render a)"

lemma inline_keys [simp]:
  "fold_key ''name'' = ''NAME''" "fold_key ''arguments'' = ''ARGUMENTS''"
  "replace_invalid ''name'' = ''name''" "replace_invalid ''arguments'' = ''arguments''"
  by code_simp+

lemma inline_fields_render:
  assumes "json_numbers a" "json_depth a < max_nesting"
  shows "inline_fields (json_render (inline_json n a)) = Some (replace_invalid n, json_render a)"
proof -
  have "json_parse (json_render (inline_json n a)) = Inr (json_clean (inline_json n a))"
    using assms by (intro json_parse_render) (simp_all add: inline_json_def)
  moreover have "raw_object (json_render (inline_json n a)) =
      Some [(''name'', JStr (replace_invalid n), json_render (JStr n)), (''arguments'', json_clean a, json_render a)]"
    using raw_object_render [of "[(''name'', JStr n), (''arguments'', a)]"] assms
    by (simp add: inline_json_def max_nesting_def del: json_render.simps)
  ultimately show ?thesis
    by (simp add: inline_fields_def inline_json_def raw_str_field_def str_field_def raw_member_def del: json_render.simps)
qed

lemma arguments_decoded:
  assumes "json_numbers a" "json_depth a < max_nesting"
  shows "(let args = trim_space (json_render a)
      in if args = [] \<or> args = ''null'' then ''{}''
         else case decode_string (json_render a) of Some s \<Rightarrow> s | None \<Rightarrow> args) = arguments_text a"
proof -
  have p: "json_parse (json_render a) = Inr (json_clean a)" using assms by (intro json_parse_render) simp_all
  have ne: "json_render a \<noteq> []" using json_text_ends [OF assms(1)] by blast
  have null: "json_render a = ''null'' \<longleftrightarrow> a = JNull"
  proof
    assume "json_render a = ''null''"
    moreover have "json_parse ''null'' = Inr JNull" using json_parse_render [of JNull] by simp
    ultimately have "json_clean a = JNull" using p by simp
    then show "a = JNull" by (cases a) simp_all
  qed simp
  have dec: "decode_string (json_render a) = (case json_clean a of JStr s \<Rightarrow> Some s | JNull \<Rightarrow> Some [] | _ \<Rightarrow> None)"
    by (simp add: decode_string_def p split: json.split)
  show ?thesis
    unfolding Let_def trim_json [OF assms(1)] dec null
    using ne by (cases a) (simp_all add: arguments_text_def del: json_render.simps)
qed

section \<open>Leaked calls\<close>

text \<open>A call as a model writes it, and what is recovered of it.\<close>

datatype inline_form = FunctionForm string "(string \<times> string) list" | JsonForm string json

fun form_body :: "inline_form \<Rightarrow> string" where
  "form_body (FunctionForm n ps) = function_text n ps"
| "form_body (JsonForm n a) = json_render (inline_json n a)"

fun form_ok :: "inline_form \<Rightarrow> bool" where
  "form_ok (FunctionForm n ps) \<longleftrightarrow> word n \<and> params_ok ps \<and> shallow ps"
| "form_ok (JsonForm n a) \<longleftrightarrow> n \<noteq> [] \<and> valid_utf8 n \<and> json_numbers a \<and> json_depth a < max_nesting"

fun form_call :: "inline_form \<Rightarrow> nat \<Rightarrow> tool_call" where
  "form_call (FunctionForm n ps) i = new_inline_call n (parameters_text ps) i"
| "form_call (JsonForm n a) i = new_inline_call n (arguments_text a) i"

text \<open>What the arguments parse to, when they were not given as text themselves.\<close>

fun form_arguments :: "inline_form \<Rightarrow> json option" where
  "form_arguments (FunctionForm n ps) = Some (JObj (map (\<lambda>(k, v). (k, parameter_json (trim_space v))) ps))"
| "form_arguments (JsonForm n a) = (case a of JNull \<Rightarrow> Some (JObj []) | JStr _ \<Rightarrow> None | _ \<Rightarrow> Some (json_clean a))"

lemma form_arguments_parse:
  assumes "form_ok f" "form_arguments f = Some j"
  shows "json_parse (arguments (fn (form_call f i))) = Inr j"
proof (cases f)
  case (FunctionForm n ps)
  then have "map (\<lambda>(k, v). (replace_invalid k, parameter_json (trim_space v))) ps =
      map (\<lambda>(k, v). (k, parameter_json (trim_space v))) ps"
    using assms(1) word_utf8 by (auto simp: params_ok_def list_all_iff)
  with FunctionForm assms parameters_parse [of ps] show ?thesis by (simp add: new_inline_call_def)
next
  case (JsonForm n a)
  then have p: "json_parse (json_render a) = Inr (json_clean a)" using assms(1) by (intro json_parse_render) simp_all
  have "json_parse ''{}'' = Inr (JObj [])" using json_parse_render [of "JObj []"] by (simp add: max_nesting_def)
  with JsonForm p assms(2) show ?thesis
    by (cases a) (auto simp: new_inline_call_def arguments_text_def simp del: json_render.simps)
qed

lemma form_parsed:
  assumes "form_ok f"
  shows "parse_one_inline (trim_space (form_body f)) i = Some (form_call f i)"
proof (cases f)
  case (FunctionForm n ps)
  have "trim_space (function_text n ps) = function_text n ps"
    by (rule trim_hd_last) (simp add: function_text_def plain_char_def is_space_def)
  moreover have "first_match match_function (utf8_split (function_text n ps)) = Some (n, concat (map param_text ps))"
  proof -
    have "utf8_split (function_text n ps) = function_chars n ps" using split_function [of n ps "[]"] assms FunctionForm by simp
    moreover have "match_function (function_chars n ps) = Some ((n, concat (map param_text ps)), [])"
      using function_matched [of n ps "[]"] assms FunctionForm by simp
    ultimately show ?thesis by (cases "function_chars n ps") (simp_all add: function_chars_def)
  qed
  ultimately show ?thesis
    using function_parsed [of n ps i] assms FunctionForm by (simp add: parse_one_inline_def)
next
  case (JsonForm n a)
  then have num: "json_numbers (inline_json n a)" using assms by (simp add: inline_json_def)
  have "first_match match_function (utf8_split (json_render (inline_json n a))) = None"
    by (rule first_match_untagged [OF matchers_need_lt(4) untagged_split [OF json_text_untagged [OF num]]])
  then show ?thesis
    using inline_fields_render [of a n] arguments_decoded [of a] trim_json [OF num] assms JsonForm
    by (simp add: parse_one_inline_def replace_invalid_valid Let_def)
qed

text \<open>A call in a block of its own: what is found there, and that the bare shape is not a block.\<close>

definition wrapped_text :: "inline_form \<Rightarrow> string" where
  "wrapped_text f = ''<tool_call>'' @ form_body f @ ''</tool_call>''"

definition wrapped_chars :: "inline_form \<Rightarrow> chars" where
  "wrapped_chars f = chars_of ''<tool_call>'' @ utf8_split (form_body f) @ chars_of ''</tool_call>''"

lemma split_wrapped: "utf8_split (wrapped_text f @ u) = wrapped_chars f @ utf8_split u"
proof -
  have "utf8_split (wrapped_text f @ u) = chars_of ''<tool_call>'' @ utf8_split (form_body f @ ''</tool_call>'' @ u)"
    using split_ascii [of "''<tool_call>''" "form_body f @ ''</tool_call>'' @ u"] by (simp add: wrapped_text_def)
  also have "utf8_split (form_body f @ ''</tool_call>'' @ u) = utf8_split (form_body f) @ chars_of ''</tool_call>'' @ utf8_split u"
    using split_before_tag [of "''</tool_call>'' @ u" "form_body f"] split_ascii [of "''</tool_call>''" u]
    by (simp add: tag_next_def del: utf8_split.simps(2))
  finally show ?thesis by (simp add: wrapped_chars_def)
qed

lemma form_segments:
  assumes "form_ok f" "\<And>u. m (chars_of ''<f'' @ u) = None" "\<And>u. m (chars_of ''<p'' @ u) = None"
    "\<And>u. m (chars_of ''</p'' @ u) = None" "\<And>u. m (chars_of ''</f'' @ u) = None"
  obtains w segs where "utf8_split (form_body f) = w @ concat segs" "no_lt w" "list_all (misses m) segs"
proof (cases f)
  case (FunctionForm n ps)
  then have ok: "word n" "params_ok ps" using assms(1) by simp_all
  have "misses m (chars_of (''<function='' @ n @ ''>''))"
    by (rule missesI [of m "''<f''" _ "''unction='' @ n @ ''>''" "[]"]) (use assms(2) ok word_untagged in simp_all)
  moreover have "misses m (chars_of ''</function>'')"
    by (rule missesI [of m "''</f''" _ "''unction>''" "[]"]) (use assms(5) in simp_all)
  ultimately have "list_all (misses m) (function_segments n ps)"
    using param_segments_miss [OF ok(2) assms(3,4)] by (simp add: function_segments_def)
  moreover have "utf8_split (form_body f) = [] @ concat (function_segments n ps)"
    using split_function [OF ok, of "[]"] FunctionForm by (simp add: function_segments_text)
  ultimately show ?thesis using that [of "[]" "function_segments n ps"] by simp
next
  case (JsonForm n a)
  then have "no_lt (utf8_split (form_body f))"
    using assms(1) untagged_split [OF json_text_untagged, of "inline_json n a"] by (simp add: inline_json_def del: json_render.simps)
  then show ?thesis using that [of "utf8_split (form_body f)" "[]"] by simp
qed

lemma form_ends: "form_ok f \<Longrightarrow> form_body f \<noteq> [] \<and> plain_char (hd (form_body f)) \<and> plain_char (last (form_body f))"
proof (cases f)
  case (JsonForm n a)
  assume "form_ok f"
  with JsonForm json_text_ends [of "inline_json n a"] show ?thesis by (simp add: inline_json_def del: json_render.simps)
qed (simp add: function_text_def plain_char_def is_space_def)

lemma split_ends:
  assumes "s \<noteq> []" "plain_char (hd s)" "plain_char (last s)"
  shows "utf8_split s \<noteq> []" "\<not> regex_space (fst (hd (utf8_split s)))" "\<not> regex_space (fst (last (utf8_split s)))"
proof -
  obtain c t where c: "s = c # t" using assms(1) by (cases s) auto
  then have "utf8_split s = (of_char c, [c]) # utf8_split t"
    using assms(2) by (simp add: plain_char_def utf8_split_ascii del: utf8_split.simps(2))
  then show "utf8_split s \<noteq> []" "\<not> regex_space (fst (hd (utf8_split s)))"
    using assms(2) c regex_space_is_space by (auto simp: plain_char_def)
  have s: "s = butlast s @ [last s]" using assms(1) by simp
  have l: "(of_char (last s) :: nat) < 128" "\<not> is_space (of_char (last s))" using assms(3) by (simp_all add: plain_char_def)
  have "utf8_split s = utf8_split (butlast s) @ [(of_char (last s), [last s])]"
    using utf8_split_before_ascii [OF l(1), of "butlast s" "[]"] l(1) s
    by (simp add: utf8_split_ascii del: utf8_split.simps(2))
  then have "last (utf8_split s) = (of_char (last s), [last s])" by (metis last_snoc)
  then show "\<not> regex_space (fst (last (utf8_split s)))" using l(2) regex_space_is_space by auto
qed

lemma wrapped_found:
  assumes "form_ok f"
  shows "match_tool_call (wrapped_chars f @ t) = Some (form_body f, t)"
proof -
  let ?m = "match_ci ''</tool_call>''" let ?p = "utf8_split (form_body f)"
  have m: "needs_lt ?m" by (simp add: needs_lt_def match_ci_lt del: match_ci.simps)
  obtain w segs where s: "?p = w @ concat segs" "no_lt w" "list_all (misses ?m) segs"
    by (rule form_segments [OF assms, of ?m]) (simp_all add: fold_rune_def)
  have ends: "?p \<noteq> []" "\<not> regex_space (fst (hd ?p))" "\<not> regex_space (fst (last ?p))"
    using split_ends [of "form_body f"] form_ends [OF assms] by simp_all
  have "?m (skip_ws (chars_of ''</tool_call>'' @ t)) = Some t"
    by (simp add: skip_ws_def regex_space_def fold_rune_def)
  from lazy_until_blank [OF m s(3,2,1) ends(1,3) this]
  have "lazy_until (\<lambda>t. ?m (skip_ws t)) (?p @ chars_of ''</tool_call>'' @ t) = Some (?p, t)" .
  moreover have "skip_ws (?p @ u) = ?p @ u" for u
    using ends(1,2) by (cases ?p) (simp_all add: skip_ws_def split_beta)
  moreover have "match_ci ''<tool_call>'' (chars_of ''<tool_call>'' @ u) = Some u" for u
    by (rule match_ci_self) (simp add: fold_rune_def)
  ultimately show ?thesis
    by (simp only: match_tool_call_def wrapped_chars_def option.case option.map prod.case bytes_of_simps append_assoc)
qed

section \<open>Any number of calls in a text\<close>

text \<open>
  A text with calls: each as \<open>write\<close> writes it, with text before the first and after each. The calls
  are wrapped in blocks, or they are bare function blocks.
\<close>

definition leaked_text :: "(inline_form \<Rightarrow> string) \<Rightarrow> string \<Rightarrow> (inline_form \<times> string) list \<Rightarrow> string" where
  "leaked_text write pre fs = pre @ concat (map (\<lambda>(f, t). write f @ t) fs)"

definition leaked_chars :: "(inline_form \<Rightarrow> chars) \<Rightarrow> (inline_form \<times> string) list \<Rightarrow> chars" where
  "leaked_chars chars fs = concat (map (\<lambda>(f, t). chars f @ utf8_split t) fs)"

definition leaked_calls :: "(inline_form \<times> string) list \<Rightarrow> tool_call list" where
  "leaked_calls fs = map (\<lambda>(i, f, _). form_call f i) (enumerate 0 fs)"

definition forms_ok :: "(inline_form \<times> string) list \<Rightarrow> bool" where
  "forms_ok fs \<longleftrightarrow> list_all (\<lambda>(f, t). form_ok f \<and> untagged t) fs"

fun is_function :: "inline_form \<Rightarrow> bool" where
  "is_function (FunctionForm n ps) = True"
| "is_function (JsonForm n a) = False"

lemma split_leaked:
  assumes "\<And>f t u. (f, t) \<in> set fs \<Longrightarrow> utf8_split (write f @ u) = chars f @ utf8_split u \<and> hd (write f) = CHR ''<'' \<and> write f \<noteq> []"
  shows "utf8_split (leaked_text write pre fs) = utf8_split pre @ leaked_chars chars fs"
  using assms
proof (induction fs arbitrary: pre)
  case (Cons ft fs)
  obtain f t where ft: "ft = (f, t)" by (cases ft)
  have f: "utf8_split (write f @ u) = chars f @ utf8_split u" "hd (write f) = CHR ''<''" "write f \<noteq> []" for u
    using Cons.prems [of f t] by (simp_all add: ft)
  then have "tag_next (write f @ leaked_text write t fs)" by (simp add: tag_next_def)
  moreover have "utf8_split (leaked_text write t fs) = utf8_split t @ leaked_chars chars fs"
    by (rule Cons.IH) (rule Cons.prems [OF list.set_intros(2)])
  ultimately show ?case
    using split_before_tag [of "write f @ leaked_text write t fs" pre] f(1)
    by (simp add: leaked_text_def leaked_chars_def ft)
qed (simp add: leaked_text_def leaked_chars_def)

lemma blocks_found:
  assumes "needs_lt m" and "\<And>f t u. (f, t) \<in> set fs \<Longrightarrow> m (chars f @ u) = Some (g f, u) \<and> chars f \<noteq> [] \<and> untagged t"
  shows "all_matches m (leaked_chars chars fs) = (map (\<lambda>(f, _). g f) fs, concat (map (\<lambda>(_, t). utf8_split t) fs))"
  using assms(2)
proof (induction fs)
  case (Cons ft fs)
  obtain f t where ft: "ft = (f, t)" by (cases ft)
  have f: "m (chars f @ u) = Some (g f, u)" "chars f \<noteq> []" "untagged t" for u
    using Cons.prems [of f t] by (simp_all add: ft)
  have "all_matches m (leaked_chars chars fs) = (map (\<lambda>(f, _). g f) fs, concat (map (\<lambda>(_, t). utf8_split t) fs))"
    by (rule Cons.IH) (rule Cons.prems [OF list.set_intros(2)])
  with all_matches_found [where m = m, OF f(1,2)] all_matches_skip [OF assms(1) untagged_split [OF f(3)], of "leaked_chars chars fs"]
  show ?case by (simp add: leaked_chars_def ft)
qed (simp add: leaked_chars_def)

lemma no_blocks:
  "forms_ok fs \<Longrightarrow> list_all (\<lambda>(f, _). is_function f) fs \<Longrightarrow>
     all_matches match_tool_call (leaked_chars (\<lambda>f. utf8_split (form_body f)) fs) =
       ([], leaked_chars (\<lambda>f. utf8_split (form_body f)) fs)"
proof (induction fs)
  case (Cons ft fs)
  obtain f t where ft: "ft = (f, t)" by (cases ft)
  from Cons.prems have ok: "form_ok f" "untagged t" "forms_ok fs" by (simp_all add: forms_ok_def ft)
  obtain w segs where s: "utf8_split (form_body f) = w @ concat segs" "no_lt w" "list_all (misses match_tool_call) segs"
    by (rule form_segments [OF ok(1), of match_tool_call]) (simp_all add: match_tool_call_def fold_rune_def)
  have "all_matches match_tool_call (utf8_split (form_body f) @ u) =
      (case all_matches match_tool_call u of (gs, out) \<Rightarrow> (gs, utf8_split (form_body f) @ out))" for u
    using all_matches_skip [OF matchers_need_lt(3) s(2), of "concat segs @ u"]
      all_matches_segments [OF matchers_need_lt(3) s(3), of u] by (simp add: s(1) split: prod.splits)
  with all_matches_skip [OF matchers_need_lt(3) untagged_split [OF ok(2)]] Cons ok(3) show ?case
    by (simp add: leaked_chars_def ft)
qed (simp add: leaked_chars_def)

lemma collect_all:
  assumes "\<And>f t i. (f, t) \<in> set fs \<Longrightarrow> p (g f) i = Some (form_call f i)"
  shows "collect_calls p (map (\<lambda>(f, _). g f) fs) n = map (\<lambda>(i, f, _). form_call f i) (enumerate n fs)"
  using assms
proof (induction fs arbitrary: n)
  case (Cons ft fs)
  obtain f t where ft: "ft = (f, t)" by (cases ft)
  have "collect_calls p (map (\<lambda>(f, _). g f) fs) (Suc n) = map (\<lambda>(i, f, _). form_call f i) (enumerate (Suc n) fs)"
    by (rule Cons.IH) (rule Cons.prems [OF list.set_intros(2)])
  with Cons.prems [of f t n] show ?case by (simp add: ft)
qed simp

lemma bytes_of_texts: "bytes_of (utf8_split pre @ concat (map (\<lambda>(_, t). utf8_split t) fs)) = pre @ concat (map snd fs)"
  by (induction fs) auto

lemma wrapped_recovered:
  assumes "untagged pre" "forms_ok fs" "fs \<noteq> []"
  shows "parse_inline_tool_calls (leaked_text wrapped_text pre fs) = (trim_space (pre @ concat (map snd fs)), leaked_calls fs)"
proof -
  have ok: "form_ok f" "untagged t" if "(f, t) \<in> set fs" for f t
    using that assms(2) by (auto simp: forms_ok_def list_all_iff)
  have "utf8_split (leaked_text wrapped_text pre fs) = utf8_split pre @ leaked_chars wrapped_chars fs"
    by (rule split_leaked) (simp only: split_wrapped, simp add: wrapped_text_def)
  moreover have "all_matches match_tool_call (leaked_chars wrapped_chars fs) =
      (map (\<lambda>(f, _). form_body f) fs, concat (map (\<lambda>(_, t). utf8_split t) fs))"
    by (rule blocks_found) (use ok wrapped_found in \<open>auto simp: wrapped_chars_def\<close>)
  ultimately have "all_matches match_tool_call (utf8_split (leaked_text wrapped_text pre fs)) =
      (map (\<lambda>(f, _). form_body f) fs, utf8_split pre @ concat (map (\<lambda>(_, t). utf8_split t) fs))"
    using all_matches_skip [OF matchers_need_lt(3) untagged_split [OF assms(1)]] by simp
  moreover have "collect_calls (\<lambda>b. parse_one_inline (trim_space b)) (map (\<lambda>(f, _). form_body f) fs) 0 = leaked_calls fs"
    unfolding leaked_calls_def by (rule collect_all) (use ok form_parsed in blast)
  moreover have "CHR ''<'' \<in> set (leaked_text wrapped_text pre fs)" "leaked_calls fs \<noteq> []"
    using assms(3) by (cases fs; auto simp: leaked_text_def wrapped_text_def leaked_calls_def)+
  ultimately show ?thesis
    unfolding parse_inline_tool_calls_def using bytes_of_texts [of pre fs] by auto
qed

fun function_group :: "inline_form \<Rightarrow> string \<times> string" where
  "function_group (FunctionForm n ps) = (n, concat (map param_text ps))"
| "function_group (JsonForm n a) = ([], [])"

lemma bare_recovered:
  assumes "untagged pre" "forms_ok fs" "fs \<noteq> []" "list_all (\<lambda>(f, _). is_function f) fs"
  shows "parse_inline_tool_calls (leaked_text form_body pre fs) = (trim_space (pre @ concat (map snd fs)), leaked_calls fs)"
proof -
  let ?s = "leaked_text form_body pre fs" let ?c = "\<lambda>f. utf8_split (form_body f)"
  have fform: "\<exists>n ps. f = FunctionForm n ps \<and> word n \<and> params_ok ps \<and> untagged t" if "(f, t) \<in> set fs" for f t
    using that assms(2,4) by (cases f) (auto simp: forms_ok_def list_all_iff)
  have chars: "utf8_split (form_body f @ u) = ?c f @ utf8_split u \<and> match_function (?c f @ v) = Some (function_group f, v) \<and>
      hd (form_body f) = CHR ''<'' \<and> form_body f \<noteq> [] \<and> ?c f \<noteq> []" if "(f, t) \<in> set fs" for f t u v
  proof -
    from fform [OF that] obtain n ps where f: "f = FunctionForm n ps" "word n" "params_ok ps" by blast
    then show ?thesis
      using split_function [OF f(2,3)] split_function [OF f(2,3), of "[]"] function_matched [OF f(2,3)]
      by (simp add: function_chars_def del: chars_of_simps(2)) (simp add: function_text_def)
  qed
  have s: "utf8_split ?s = utf8_split pre @ leaked_chars ?c fs"
    by (rule split_leaked) (use chars in blast)
  have "all_matches match_tool_call (utf8_split ?s) = ([], utf8_split ?s)"
    using no_blocks [OF assms(2,4)] all_matches_skip [OF matchers_need_lt(3) untagged_split [OF assms(1)]] by (simp add: s)
  moreover have "all_matches match_function (leaked_chars ?c fs) =
      (map (\<lambda>(f, _). function_group f) fs, concat (map (\<lambda>(_, t). utf8_split t) fs))"
  proof (rule blocks_found)
    fix f t u assume "(f, t) \<in> set fs"
    from chars [OF this] fform [OF this]
    show "match_function (?c f @ u) = Some (function_group f, u) \<and> ?c f \<noteq> [] \<and> untagged t" by blast
  qed simp
  then have "all_matches match_function (utf8_split ?s) =
      (map (\<lambda>(f, _). function_group f) fs, utf8_split pre @ concat (map (\<lambda>(_, t). utf8_split t) fs))"
    using all_matches_skip [OF matchers_need_lt(4) untagged_split [OF assms(1)]] by (simp add: s)
  moreover have "collect_calls (\<lambda>(name, body). parse_function_xml name body) (map (\<lambda>(f, _). function_group f) fs) 0 = leaked_calls fs"
    unfolding leaked_calls_def
  proof (rule collect_all)
    fix f t i assume "(f, t) \<in> set fs"
    from fform [OF this] show "(case function_group f of (name, body) \<Rightarrow> parse_function_xml name body) i = Some (form_call f i)"
      using function_parsed by auto
  qed
  moreover have "CHR ''<'' \<in> set ?s" "leaked_calls fs \<noteq> []"
    using assms(3) chars by (cases fs; fastforce simp: leaked_text_def leaked_calls_def dest: hd_in_set)+
  ultimately show ?thesis
    unfolding parse_inline_tool_calls_def using bytes_of_texts [of pre fs] by auto
qed

section \<open>Properties\<close>



end
