(* ===== verification/HeldClaim.thy ===== *)
theory HeldClaim
  imports Vendor
begin

text \<open>
  The recovery probe of the adapters without a cheap ping (\<open>startRecoveryProbe\<close> in
  llm/vertex/vertex.go, llm/bedrock/bedrock.go, anthropic_bedrock.go and anthropic_vertex.go) with
  the chats of a client around it: a transition system over the locked operations of the tracker
  and a clock. A probe only holds the claim for its interval; what the tracker shows is decided by
  the chats.
\<close>

section \<open>Chats and sleeping probes\<close>

datatype sleeper = NoSleeper | Spawned | Asleep int

record hold_sys =
  clock :: int
  held_trk :: tracker
  turn_pcs :: "nat \<Rightarrow> chat_pc"
  sleepers :: "nat \<Rightarrow> sleeper"

text \<open>
  The goroutine: it sleeps for its interval (at least) and releases the claim. The result is where
  it is next and the tracker.
\<close>

fun sleeper_step :: "int \<Rightarrow> int \<Rightarrow> sleeper \<Rightarrow> tracker \<Rightarrow> (sleeper \<times> tracker) option" where
  "sleeper_step configured now Spawned t = Some (Asleep (now + probe_interval configured), t)"
| "sleeper_step configured now (Asleep w) t = (if w \<le> now then Some (NoSleeper, release_probe t) else None)"
| "sleeper_step configured now NoSleeper t = None"

lemma sleeper_step_Some:
  "sleeper_step configured now pc t = Some (pc', t') \<longleftrightarrow>
     (pc = Spawned \<and> pc' = Asleep (now + probe_interval configured) \<and> t' = t) \<or>
     (\<exists>w. pc = Asleep w \<and> w \<le> now \<and> pc' = NoSleeper \<and> t' = release_probe t)"
  by (cases pc) auto

text \<open>
  A turn either opens a stream or fails; the edge into Disconnected makes it start a probe, which
  it can do when no other probe holds the claim.
\<close>

inductive hold_step :: "int \<Rightarrow> hold_sys \<Rightarrow> hold_sys \<Rightarrow> bool" for configured where
  time_passes: "0 < d \<Longrightarrow> hold_step configured s (s\<lparr>clock := clock s + d\<rparr>)"
| turn_opened: "turn_pcs s c = Running \<Longrightarrow>
    hold_step configured s (s\<lparr>held_trk := fst (tracker_set now StateConnected (held_trk s))\<rparr>)"
| turn_failed: "turn_pcs s c = Running \<Longrightarrow> note_failure now e (held_trk s) = (t', spawn) \<Longrightarrow>
    hold_step configured s
      (s\<lparr>held_trk := t', turn_pcs := (turn_pcs s)(c := if spawn then StartingProbe else Running)\<rparr>)"
| probe_spawned: "turn_pcs s c = StartingProbe \<Longrightarrow> hold_claim configured (held_trk s) = (t', Some d) \<Longrightarrow>
    sleepers s p = NoSleeper \<Longrightarrow>
    hold_step configured s
      (s\<lparr>held_trk := t', turn_pcs := (turn_pcs s)(c := Running), sleepers := (sleepers s)(p := Spawned)\<rparr>)"
| claim_taken: "turn_pcs s c = StartingProbe \<Longrightarrow> hold_claim configured (held_trk s) = (t', None) \<Longrightarrow>
    hold_step configured s (s\<lparr>held_trk := t', turn_pcs := (turn_pcs s)(c := Running)\<rparr>)"
| sleeper_runs: "sleeper_step configured (clock s) (sleepers s p) (held_trk s) = Some (pc, t') \<Longrightarrow>
    hold_step configured s (s\<lparr>held_trk := t', sleepers := (sleepers s)(p := pc)\<rparr>)"

definition hold_init :: hold_sys where
  "hold_init = \<lparr>clock = 0, held_trk = zero_tracker, turn_pcs = (\<lambda>_. Running), sleepers = (\<lambda>_. NoSleeper)\<rparr>"

inductive hold_reachable :: "int \<Rightarrow> hold_sys \<Rightarrow> bool" for configured where
  hold_start: "hold_reachable configured hold_init"
| hold_more: "hold_reachable configured s \<Longrightarrow> hold_step configured s s' \<Longrightarrow> hold_reachable configured s'"

inductive_cases hold_stepE: "hold_step configured s s'"

section \<open>The claim\<close>

text \<open>The claim is held by the one probe there is, and no probe sleeps past its interval.\<close>

definition held_by_one :: "int \<Rightarrow> hold_sys \<Rightarrow> bool" where
  "held_by_one configured s \<longleftrightarrow>
     (probing (held_trk s) \<longleftrightarrow> (\<exists>p. sleepers s p \<noteq> NoSleeper)) \<and>
     (\<forall>p q. sleepers s p \<noteq> NoSleeper \<longrightarrow> sleepers s q \<noteq> NoSleeper \<longrightarrow> p = q) \<and>
     (\<forall>p w. sleepers s p = Asleep w \<longrightarrow> w \<le> clock s + probe_interval configured)"

lemma held_alone:
  "held_by_one configured s \<Longrightarrow> sleepers s p \<noteq> NoSleeper \<Longrightarrow> q \<noteq> p \<Longrightarrow> sleepers s q = NoSleeper"
  unfolding held_by_one_def by blast

lemma hold_claim_cases:
  "hold_claim configured t = (t', Some d) \<longleftrightarrow>
     \<not> probing t \<and> t' = t\<lparr>probing := True\<rparr> \<and> d = probe_interval configured"
  "hold_claim configured t = (t', None) \<longleftrightarrow> probing t \<and> t' = t"
  by (auto simp: hold_claim_def claim_probe_def)

lemma note_failure_probing: "note_failure now e t = (t', spawn) \<Longrightarrow> probing t' = probing t"
  by (auto simp: note_failure_def tracker_set_def split: if_splits)

lemma hold_step_held: "hold_step configured s s' \<Longrightarrow> held_by_one configured s \<Longrightarrow> held_by_one configured s'"
proof (induction rule: hold_step.induct)
  case (time_passes d s)
  then have d: "0 < d" and "\<And>p w. sleepers s p = Asleep w \<Longrightarrow> w \<le> clock s + probe_interval configured"
    by (simp_all add: held_by_one_def)
  then have "w \<le> clock s + d + probe_interval configured" if "sleepers s p = Asleep w" for p w
    using that by (meson add_strict_increasing2 add_right_mono less_add_same_cancel1 less_imp_le order_trans)
  with time_passes show ?case by (simp add: held_by_one_def)
next
  case (turn_failed s c now e t' spawn)
  then show ?case by (simp add: held_by_one_def note_failure_probing)
next
  case (sleeper_runs s p pc t')
  then have "sleepers s q = NoSleeper" if "q \<noteq> p" for q using held_alone that by (force simp: sleeper_step_Some)
  with sleeper_runs show ?case by (auto simp: held_by_one_def sleeper_step_Some)
qed (auto simp: held_by_one_def hold_claim_cases)

lemma hold_reachable_held: "hold_reachable configured s \<Longrightarrow> held_by_one configured s"
proof (induction rule: hold_reachable.induct)
  case hold_start
  then show ?case by (simp add: held_by_one_def hold_init_def zero_tracker_def)
qed (rule hold_step_held)

section \<open>What a probe does\<close>

text \<open>A tracker leaves Disconnected only when a turn opens a stream.\<close>

theorem recovery_by_turn:
  assumes "hold_step configured s s'" "conn (held_trk s) = StateDisconnected" "conn (held_trk s') \<noteq> StateDisconnected"
  shows "\<exists>c now. turn_pcs s c = Running \<and> s' = s\<lparr>held_trk := fst (tracker_set now StateConnected (held_trk s))\<rparr>"
  using assms(1)
proof cases
  case (turn_failed c now e t' spawn)
  then have "conn t' = StateDisconnected"
    using assms(2) note_failure_spec(1,3) [of e now "held_trk s"] by (cases "classify e = []") auto
  with turn_failed assms(3) show ?thesis by simp
qed (use assms(2,3) in \<open>auto simp: hold_claim_cases sleeper_step_Some\<close>)

text \<open>
  The claim is given back: a probe that is there can end within its interval while every turn and
  the state shown stay as they are, and then a probe can be started again.
\<close>

theorem claim_given_back:
  assumes "hold_reachable configured s" "sleepers s p \<noteq> NoSleeper"
  shows "\<exists>s'. (hold_step configured)\<^sup>*\<^sup>* s s' \<and> clock s' \<le> clock s + probe_interval configured \<and>
    (\<forall>q. sleepers s' q = NoSleeper) \<and> turn_pcs s' = turn_pcs s \<and> conn (held_trk s') = conn (held_trk s) \<and>
    snd (claim_probe (held_trk s'))"
proof -
  have I: "0 < probe_interval configured" by (simp add: probe_interval_def second_def)
  have held: "held_by_one configured s" using hold_reachable_held [OF assms(1)] .
  have wake: "\<exists>s'. (hold_step configured)\<^sup>*\<^sup>* r s' \<and> clock s' \<le> max w (clock r) \<and> (\<forall>q. sleepers s' q = NoSleeper) \<and>
      turn_pcs s' = turn_pcs r \<and> conn (held_trk s') = conn (held_trk r) \<and> snd (claim_probe (held_trk s'))"
    if r: "held_by_one configured r" "sleepers r p = Asleep w" for r w
  proof -
    let ?r = "r\<lparr>clock := max w (clock r)\<rparr>"
    let ?e = "?r\<lparr>held_trk := release_probe (held_trk r), sleepers := (sleepers r)(p := NoSleeper)\<rparr>"
    have "(hold_step configured)\<^sup>*\<^sup>* r ?r"
    proof (cases "clock r < w")
      case True
      then show ?thesis using time_passes [of "w - clock r" configured r] by (simp add: max_def)
    qed (simp add: max_def)
    moreover have "hold_step configured ?r ?e" using sleeper_runs [of configured ?r p NoSleeper] r(2) by simp
    ultimately have "(hold_step configured)\<^sup>*\<^sup>* r ?e" by (rule rtranclp.rtrancl_into_rtrancl)
    moreover have "sleepers r q = NoSleeper" if "q \<noteq> p" for q
      using held_alone [OF r(1) _ that] r(2) by simp
    ultimately show ?thesis by (intro exI [of _ ?e]) (auto simp: claim_probe_def)
  qed
  show ?thesis
  proof (cases "sleepers s p")
    case Spawned
    let ?r = "s\<lparr>sleepers := (sleepers s)(p := Asleep (clock s + probe_interval configured))\<rparr>"
    have st: "hold_step configured s ?r" using sleeper_runs [of configured s p _ "held_trk s"] Spawned by simp
    obtain s' where "(hold_step configured)\<^sup>*\<^sup>* ?r s'" "clock s' \<le> max (clock s + probe_interval configured) (clock s)"
        "\<forall>q. sleepers s' q = NoSleeper" "turn_pcs s' = turn_pcs s" "conn (held_trk s') = conn (held_trk s)"
        "snd (claim_probe (held_trk s'))"
      using wake [OF hold_step_held [OF st held], of "clock s + probe_interval configured"] by auto
    with st I show ?thesis by (intro exI [of _ s']) (auto intro: converse_rtranclp_into_rtranclp)
  next
    case (Asleep w)
    then have "w \<le> clock s + probe_interval configured" using held by (auto simp: held_by_one_def)
    with wake [OF held Asleep] I show ?thesis by fastforce
  qed (use assms(2) in simp)
qed

text \<open>A turn fails and starts a probe.\<close>

definition held_demo :: hold_sys where
  "held_demo = \<lparr>clock = 0, held_trk = disc\<lparr>probing := True\<rparr>, turn_pcs = (\<lambda>_. Running), sleepers = (\<lambda>_. NoSleeper)(0 := Spawned)\<rparr>"

lemma held_demo_reachable: "hold_reachable configured held_demo"
proof -
  let ?s = "hold_init\<lparr>held_trk := disc, turn_pcs := (turn_pcs hold_init)(0 := StartingProbe)\<rparr>"
  have "note_failure 1 (Errno ECONNREFUSED) zero_tracker = (disc, True)"
    by (simp add: note_failure_def classify_def error_as_def errno_tag_def ECONNREFUSED_def tracker_set_def
        zero_tracker_def disc_def)
  then have "hold_step configured hold_init ?s"
    using turn_failed [of hold_init 0 1 "Errno ECONNREFUSED" disc True] by (simp add: hold_init_def)
  then have r: "hold_reachable configured ?s" using hold_reachable.hold_start hold_reachable.hold_more by blast
  have "hold_claim configured disc = (disc\<lparr>probing := True\<rparr>, Some (probe_interval configured))"
    by (simp add: hold_claim_cases disc_def)
  then have "hold_step configured ?s held_demo"
    using probe_spawned [of ?s 0 configured "disc\<lparr>probing := True\<rparr>" "probe_interval configured" 0]
    by (simp add: held_demo_def hold_init_def)
  with r show ?thesis by (rule hold_reachable.hold_more)
qed

end
