(* ===== verification/Paths.thy ===== *)
theory Paths
  imports Prelude
begin

text \<open>
  The XDG layout of an application (paths/paths.go) and the lexical path operations of
  path/filepath it and store/store.go use, as they are on Unix. The environment, the home
  directory, the temporary directory and the user id are arguments.
\<close>

section \<open>Paths\<close>

fun path_split :: "string \<Rightarrow> string list" where
  "path_split [] = [[]]"
| "path_split (c # cs) = (if c = CHR ''/'' then [] # path_split cs
     else case path_split cs of [] \<Rightarrow> [[c]] | w # ws \<Rightarrow> (c # w) # ws)"

fun path_join_with :: "string list \<Rightarrow> string" where
  "path_join_with [] = []"
| "path_join_with [w] = w"
| "path_join_with (w # ws) = w @ CHR ''/'' # path_join_with ws"

text \<open>\<open>filepath.Clean\<close>: the elements kept so far are a stack, the last first.\<close>

fun clean_step :: "bool \<Rightarrow> string list \<Rightarrow> string \<Rightarrow> string list" where
  "clean_step rooted st w =
     (if w = [] \<or> w = ''.'' then st
      else if w = ''..'' then
        (case st of
           [] \<Rightarrow> if rooted then [] else [w]
         | t # r \<Rightarrow> if t = ''..'' then w # st else r)
      else w # st)"

definition path_clean :: "string \<Rightarrow> string" where
  "path_clean p =
     (let rooted = (case p of c # _ \<Rightarrow> c = CHR ''/'' | [] \<Rightarrow> False);
          ws = rev (foldl (clean_step rooted) [] (path_split p));
          out = (if rooted then ''/'' else []) @ path_join_with ws
      in if out = [] then ''.'' else out)"

definition path_join :: "string list \<Rightarrow> string" where
  "path_join es =
     (case dropWhile (\<lambda>e. e = []) es of [] \<Rightarrow> [] | e # r \<Rightarrow> path_clean (path_join_with (e # r)))"

definition path_dir :: "string \<Rightarrow> string" where
  "path_dir p = path_clean (rev (dropWhile (\<lambda>c. c \<noteq> CHR ''/'') (rev p)))"

section \<open>Layouts\<close>

record host =
  host_env :: "string \<Rightarrow> string"
  host_home :: "string + string"
  host_temp :: string
  host_uid :: nat

datatype path_error = AppEmpty | ResolveHome string

definition home_dir :: "host \<Rightarrow> string \<Rightarrow> string \<Rightarrow> string list \<Rightarrow> path_error + string" where
  "home_dir h app env_var home_rel =
     (if app = [] then Inl AppEmpty
      else if host_env h env_var \<noteq> [] then Inr (path_join [host_env h env_var, app])
      else case host_home h of
             Inl e \<Rightarrow> Inl (ResolveHome e)
           | Inr home \<Rightarrow> Inr (path_join (home # home_rel @ [app])))"

definition config_dir :: "host \<Rightarrow> string \<Rightarrow> path_error + string" where
  "config_dir h app = home_dir h app ''XDG_CONFIG_HOME'' [''.config'']"

definition data_dir :: "host \<Rightarrow> string \<Rightarrow> path_error + string" where
  "data_dir h app = home_dir h app ''XDG_DATA_HOME'' [''.local'', ''share'']"

definition state_dir :: "host \<Rightarrow> string \<Rightarrow> path_error + string" where
  "state_dir h app = home_dir h app ''XDG_STATE_HOME'' [''.local'', ''state'']"

definition fallback_to_state :: "host \<Rightarrow> string \<Rightarrow> path_error + string" where
  "fallback_to_state h app = state_dir h app"

definition fallback_to_temp :: "host \<Rightarrow> string \<Rightarrow> path_error + string" where
  "fallback_to_temp h app =
     (if app = [] then Inl AppEmpty
      else Inr (path_join [host_temp h, app @ ''-'' @ itoa (int (host_uid h))]))"

definition runtime_dir :: "host \<Rightarrow> string \<Rightarrow> (host \<Rightarrow> string \<Rightarrow> path_error + string) option \<Rightarrow> path_error + string" where
  "runtime_dir h app fallback =
     (if app = [] then Inl AppEmpty
      else if host_env h ''XDG_RUNTIME_DIR'' \<noteq> [] then Inr (path_join [host_env h ''XDG_RUNTIME_DIR'', app])
      else (case fallback of None \<Rightarrow> fallback_to_state | Some f \<Rightarrow> f) h app)"

section \<open>Cleaning\<close>

text \<open>An element that stays: it is not empty, has no separator, and is neither dot nor dot-dot.\<close>

definition plain_element :: "string \<Rightarrow> bool" where
  "plain_element w \<longleftrightarrow> w \<noteq> [] \<and> CHR ''/'' \<notin> set w \<and> w \<noteq> ''.'' \<and> w \<noteq> ''..''"

definition absolute :: "string list \<Rightarrow> string" where
  "absolute ws = concat (map (\<lambda>w. CHR ''/'' # w) ws)"

lemma path_split_element: "CHR ''/'' \<notin> set w \<Longrightarrow> path_split w = [w]"
  by (induction w) auto

lemma path_split_sep: "CHR ''/'' \<notin> set w \<Longrightarrow> path_split (w @ CHR ''/'' # r) = w # path_split r"
  by (induction w) auto

lemma path_split_absolute: "list_all plain_element ws \<Longrightarrow> ws \<noteq> [] \<Longrightarrow> path_split (absolute ws) = [] # ws"
proof (induction ws)
  case (Cons w ws)
  then have w: "CHR ''/'' \<notin> set w" by (simp add: plain_element_def)
  show ?case
  proof (cases "ws = []")
    case True
    with w show ?thesis by (simp add: absolute_def path_split_element)
  next
    case False
    then obtain v vs where ws: "ws = v # vs" by (cases ws) auto
    have "absolute ws = CHR ''/'' # (v @ absolute vs)" by (simp add: absolute_def ws)
    with Cons.IH Cons.prems False have "path_split (v @ absolute vs) = ws" by simp
    moreover have "absolute (w # ws) = CHR ''/'' # (w @ CHR ''/'' # (v @ absolute vs))"
      by (simp add: absolute_def ws)
    ultimately show ?thesis using path_split_sep [OF w] by simp
  qed
qed simp

lemma clean_plain: "list_all plain_element ws \<Longrightarrow> foldl (clean_step r) st ws = rev ws @ st"
  by (induction ws arbitrary: st) (simp_all add: plain_element_def)

lemma path_join_absolute: "ws \<noteq> [] \<Longrightarrow> CHR ''/'' # path_join_with ws = absolute ws"
  by (induction ws rule: path_join_with.induct) (simp_all add: absolute_def)

lemma path_clean_absolute:
  assumes "list_all plain_element ws" "ws \<noteq> []"
  shows "path_clean (absolute ws) = absolute ws"
proof -
  have rooted: "(case absolute ws of c # _ \<Rightarrow> c = CHR ''/'' | [] \<Rightarrow> False) = True"
    using assms(2) by (cases ws) (auto simp: absolute_def)
  have "absolute ws \<noteq> []" using assms(2) by (cases ws) (auto simp: absolute_def)
  then show ?thesis
    unfolding path_clean_def rooted path_split_absolute [OF assms]
    using assms by (simp add: clean_plain path_join_absolute)
qed

lemma absolute_append: "absolute (vs @ ws) = absolute vs @ absolute ws"
  by (simp add: absolute_def)

text \<open>Joining plain elements to a clean absolute directory appends them.\<close>

lemma path_join_plain:
  assumes "list_all plain_element base" "base \<noteq> []" "list_all plain_element es" "es \<noteq> []"
  shows "path_join (absolute base # es) = absolute (base @ es)"
proof -
  have "absolute base \<noteq> []" using assms(2) by (cases base) (auto simp: absolute_def)
  moreover have "path_join_with (absolute base # es) = absolute (base @ es)"
    using assms(4) path_join_absolute [of es] by (cases es) (simp_all add: absolute_append)
  ultimately show ?thesis
    using assms path_clean_absolute [of "base @ es"] by (simp add: path_join_def)
qed

section \<open>Properties\<close>

text \<open>
  Where the directories are, for an application named by a plain element. With the variable set
  to a clean absolute directory the application's directory is in it, whatever the home
  directory is; with it empty, it is under the default in the home directory; a runtime
  directory falls back on the state directory.
\<close>

theorem xdg_directories:
  assumes "plain_element app" "list_all plain_element base" "base \<noteq> []"
  shows "(host_env h ''XDG_CONFIG_HOME'' = absolute base \<longrightarrow> config_dir h app = Inr (absolute (base @ [app]))) \<and>
    (host_env h ''XDG_DATA_HOME'' = absolute base \<longrightarrow> data_dir h app = Inr (absolute (base @ [app]))) \<and>
    (host_env h ''XDG_STATE_HOME'' = absolute base \<longrightarrow> state_dir h app = Inr (absolute (base @ [app]))) \<and>
    (host_env h ''XDG_RUNTIME_DIR'' = absolute base \<longrightarrow> runtime_dir h app f = Inr (absolute (base @ [app]))) \<and>
    (host_home h = Inr (absolute base) \<longrightarrow>
      (host_env h ''XDG_CONFIG_HOME'' = [] \<longrightarrow> config_dir h app = Inr (absolute (base @ [''.config'', app]))) \<and>
      (host_env h ''XDG_DATA_HOME'' = [] \<longrightarrow> data_dir h app = Inr (absolute (base @ [''.local'', ''share'', app]))) \<and>
      (host_env h ''XDG_STATE_HOME'' = [] \<longrightarrow> state_dir h app = Inr (absolute (base @ [''.local'', ''state'', app])))) \<and>
    (host_env h ''XDG_RUNTIME_DIR'' = [] \<longrightarrow> runtime_dir h app None = state_dir h app)"
proof -
  have ne: "absolute base \<noteq> []" "app \<noteq> []"
    using assms by (cases base; auto simp: absolute_def plain_element_def)+
  have join: "path_join (absolute base # es @ [app]) = absolute (base @ es @ [app])" if "list_all plain_element es" for es
    using path_join_plain [OF assms(2,3), of "es @ [app]"] assms(1) that by simp
  show ?thesis
    using ne join [of "[]"] join [of "[''.config'']"] join [of "[''.local'', ''share'']"] join [of "[''.local'', ''state'']"]
    by (simp add: config_dir_def data_dir_def state_dir_def runtime_dir_def home_dir_def fallback_to_state_def
        plain_element_def)
qed

definition demo_host :: host where
  "demo_host = \<lparr>host_env = (\<lambda>v. if v = ''XDG_DATA_HOME'' then ''/home/u'' else []), host_home = Inr ''/home/u'',
     host_temp = ''/tmp'', host_uid = 1000\<rparr>"

theorem xdg_directories_witness:
  "data_dir demo_host ''enso'' = Inr ''/home/u/enso'' \<and> config_dir demo_host ''enso'' = Inr ''/home/u/.config/enso'' \<and>
   runtime_dir demo_host ''enso'' None = Inr ''/home/u/.local/state/enso''"
proof -
  have "plain_element ''enso''" "list_all plain_element [''home'', ''u'']" "[''home'', ''u''] \<noteq> []"
    by (simp_all add: plain_element_def)
  note x = xdg_directories [OF this, of demo_host]
  show ?thesis using x by (simp add: demo_host_def absolute_def)
qed

end
