(* ===== verification/Store.thy ===== *)
theory Store
  imports Paths Results
begin

text \<open>
  The SQLite harness: opening a database (store/store.go) and running migrations keyed on
  \<open>PRAGMA user_version\<close> (store/migrate.go). The database engine is an argument, a record of the
  operations the code calls on a connection or a transaction; a transaction works on its own copy
  of the database, which replaces the database when the commit succeeds.
\<close>

section \<open>Opening a database\<close>

datatype store_error =
    CreateDataDir string
  | OpenFailed string string
  | PingFailed string string
  | ReadMigrations string
  | NoVersionPrefix string
  | BadVersion string
  | DuplicateVersion int string string
  | ReadVersion string
  | ReadMigration string string
  | ApplyMigration string string

definition dsn :: "string \<Rightarrow> string" where
  "dsn path = ''file:'' @ path @ ''?_pragma=journal_mode(WAL)&_pragma=foreign_keys(1)&_pragma=busy_timeout(5000)''"

text \<open>
  \<open>Open\<close>: \<open>mkdir\<close> creates a directory with its parents, \<open>chmod\<close> is called on every open with its
  result ignored. The result is the handle, and the directories whose mode was clamped.
\<close>

definition open_store :: "(string \<Rightarrow> string option) \<Rightarrow> (string \<Rightarrow> string + 'handle) \<Rightarrow> ('handle \<Rightarrow> string option) \<Rightarrow> string \<Rightarrow>
    (store_error + 'handle) \<times> string list" where
  "open_store mkdir connect ping path =
     (case mkdir (path_dir path) of
        Some e \<Rightarrow> (Inl (CreateDataDir e), [])
      | None \<Rightarrow>
          ((case connect (dsn path) of
              Inl e \<Rightarrow> Inl (OpenFailed path e)
            | Inr h \<Rightarrow> (case ping h of Some e \<Rightarrow> Inl (PingFailed path e) | None \<Rightarrow> Inr h)), [path_dir path]))"

section \<open>Migrations\<close>

record dir_entry =
  entry_name :: string
  entry_is_dir :: bool

record 'db engine =
  sql_begin :: "'db \<Rightarrow> string option"
  sql_exec :: "string \<Rightarrow> 'db \<Rightarrow> string + 'db"
  sql_commit :: "'db \<Rightarrow> string option"
  sql_version :: "'db \<Rightarrow> string + int"

definition has_sql_suffix :: "string \<Rightarrow> bool" where
  "has_sql_suffix name = has_suffix ''.sql'' name"

definition migration_version :: "string \<Rightarrow> store_error + int" where
  "migration_version name =
     (let ds = takeWhile is_digit name in
      if ds = [] then Inl (NoVersionPrefix name)
      else case atoi ds of None \<Rightarrow> Inl (BadVersion ds) | Some v \<Rightarrow> Inr v)"

fun collect_migrations :: "dir_entry list \<Rightarrow> store_error + (int \<times> string) list" where
  "collect_migrations [] = Inr []"
| "collect_migrations (e # es) =
     (if entry_is_dir e \<or> \<not> has_sql_suffix (entry_name e) then collect_migrations es
      else result_bind (migration_version (entry_name e)) (\<lambda>v.
        result_bind (collect_migrations es) (\<lambda>ms. Inr ((v, entry_name e) # ms))))"

fun check_versions :: "(int \<times> string) list \<Rightarrow> store_error + unit" where
  "check_versions (a # b # ms) =
     (if fst b = fst a then Inl (DuplicateVersion (fst b) (snd a) (snd b)) else check_versions (b # ms))"
| "check_versions _ = Inr ()"

text \<open>
  The migrations in ascending order; \<open>sort.Slice\<close> leaves the order of equal versions open, which
  only the names in the duplicate error show.
\<close>

definition migration_plan :: "dir_entry list \<Rightarrow> store_error + (int \<times> string) list" where
  "migration_plan es =
     result_bind (collect_migrations es) (\<lambda>ms.
     result_bind (check_versions (sort_key fst ms)) (\<lambda>_. Inr (sort_key fst ms)))"

definition version_pragma :: "int \<Rightarrow> string" where
  "version_pragma v = ''PRAGMA user_version = '' @ itoa v"

definition apply_one :: "'db engine \<Rightarrow> 'db \<Rightarrow> string \<Rightarrow> int \<Rightarrow> string option \<times> 'db" where
  "apply_one eng db body v =
     (case sql_begin eng db of
        Some e \<Rightarrow> (Some e, db)
      | None \<Rightarrow>
     (case sql_exec eng body db of
        Inl e \<Rightarrow> (Some e, db)
      | Inr db1 \<Rightarrow>
     (case sql_exec eng (version_pragma v) db1 of
        Inl e \<Rightarrow> (Some e, db)
      | Inr db2 \<Rightarrow>
     (case sql_commit eng db2 of
        Some e \<Rightarrow> (Some e, db)
      | None \<Rightarrow> (None, db2)))))"

fun apply_loop :: "'db engine \<Rightarrow> (string \<Rightarrow> string + string) \<Rightarrow> string \<Rightarrow> int \<Rightarrow> (int \<times> string) list \<Rightarrow> 'db \<Rightarrow>
    store_error option \<times> 'db" where
  "apply_loop eng read_file dir current [] db = (None, db)"
| "apply_loop eng read_file dir current ((v, name) # ms) db =
     (if v \<le> current then apply_loop eng read_file dir current ms db
      else case read_file (dir @ ''/'' @ name) of
             Inl e \<Rightarrow> (Some (ReadMigration name e), db)
           | Inr body \<Rightarrow>
               (case apply_one eng db body v of
                  (Some e, db') \<Rightarrow> (Some (ApplyMigration name e), db')
                | (None, db') \<Rightarrow> apply_loop eng read_file dir v ms db'))"

definition migrate :: "'db engine \<Rightarrow> string + dir_entry list \<Rightarrow> (string \<Rightarrow> string + string) \<Rightarrow> string \<Rightarrow> 'db \<Rightarrow>
    store_error option \<times> 'db" where
  "migrate eng entries read_file dir db =
     (case entries of
        Inl e \<Rightarrow> (Some (ReadMigrations e), db)
      | Inr es \<Rightarrow>
     (case migration_plan es of
        Inl e \<Rightarrow> (Some e, db)
      | Inr ms \<Rightarrow>
     (case sql_version eng db of
        Inl e \<Rightarrow> (Some (ReadVersion e), db)
      | Inr current \<Rightarrow> apply_loop eng read_file dir current ms db)))"

section \<open>Lemmas\<close>

subsection \<open>The plan\<close>

lemma check_versions_ok: "check_versions ms = Inr u \<Longrightarrow> sorted (map fst ms) \<Longrightarrow> sorted_wrt (<) (map fst ms)"
proof (induction ms arbitrary: u rule: check_versions.induct)
  case (1 a b ms)
  then show ?case by (fastforce split: if_splits)
qed simp_all

lemma check_versions_distinct: "distinct (map fst ms) \<Longrightarrow> check_versions ms = Inr ()"
  by (induction ms rule: check_versions.induct) auto

definition versioned :: "dir_entry \<Rightarrow> store_error + (int \<times> string) list" where
  "versioned e = (if entry_is_dir e \<or> \<not> has_sql_suffix (entry_name e) then Inr []
     else result_bind (migration_version (entry_name e)) (\<lambda>v. Inr [(v, entry_name e)]))"

lemma collect_versioned: "collect_migrations es = result_bind (result_map versioned es) (\<lambda>xs. Inr (concat xs))"
proof (induction es)
  case (Cons e es)
  have "collect_migrations (e # es) = result_bind (versioned e) (\<lambda>x. result_bind (collect_migrations es) (\<lambda>ms. Inr (x @ ms)))"
    by (cases "migration_version (entry_name e)"; cases "collect_migrations es") (simp_all add: versioned_def)
  then show ?case
    unfolding Cons by (cases "versioned e"; cases "result_map versioned es") simp_all
qed simp

lemma mset_concat_cong: "mset xs = mset ys \<Longrightarrow> mset (concat xs) = mset (concat ys)"
  by (metis mset_concat mset_map sum_mset_sum_list)

lemma plan_sorted: "migration_plan es = Inr ms \<Longrightarrow> sorted_wrt (<) (map fst ms)"
  using check_versions_ok by (auto simp: migration_plan_def result_bind_Inr)

lemma sorted_unique:
  "sorted_wrt (<) (map fst xs) \<Longrightarrow> mset ys = mset xs \<Longrightarrow> sort_key fst ys = xs" for xs ys :: "(int \<times> 'a) list"
proof (rule properties_for_sort_key [symmetric, THEN sym])
  assume s: "sorted_wrt (<) (map fst xs)" "mset ys = mset xs"
  then show "mset xs = mset ys" "sorted (map fst xs)" by (simp_all add: strict_sorted_imp_sorted)
  have d: "distinct (map fst xs)" using s(1) by (simp add: strict_sorted_iff)
  have one: "filter (\<lambda>x. fst k = fst x) zs = (if k \<in> set zs then [k] else [])"
    if "distinct (map fst zs)" "\<forall>z \<in> set zs. fst z = fst k \<longrightarrow> z = k" for k :: "int \<times> 'a" and zs
    using that by (induction zs) (auto simp: filter_empty_conv)
  fix k assume k: "k \<in> set xs"
  have all: "\<forall>z \<in> set xs. fst z = fst k \<longrightarrow> z = k" using d k by (metis eq_key_imp_eq_value prod.collapse)
  have "distinct (map fst ys)" using d s(2) by (metis mset_map mset_eq_imp_distinct_iff)
  moreover have "set ys = set xs" using s(2) by (metis mset_eq_setD)
  ultimately show "filter (\<lambda>x. fst k = fst x) xs = filter (\<lambda>x. fst k = fst x) ys"
    using one [OF d all] one [of ys k] all by simp
qed

subsection \<open>Running the plan\<close>

text \<open>The state after a list of migrations has been applied in full, \<open>None\<close> when one fails.\<close>

fun applied :: "'db engine \<Rightarrow> (string \<Rightarrow> string + string) \<Rightarrow> string \<Rightarrow> (int \<times> string) list \<Rightarrow> 'db \<Rightarrow> 'db option" where
  "applied eng read_file dir [] db = Some db"
| "applied eng read_file dir ((v, name) # ms) db =
     (case read_file (dir @ ''/'' @ name) of
        Inl e \<Rightarrow> None
      | Inr body \<Rightarrow> (case apply_one eng db body v of (None, db') \<Rightarrow> applied eng read_file dir ms db' | _ \<Rightarrow> None))"

definition pending :: "int \<Rightarrow> (int \<times> string) list \<Rightarrow> (int \<times> string) list" where
  "pending current ms = filter (\<lambda>(v, _). current < v) ms"

lemma apply_one_failed: "apply_one eng db body v = (Some e, db') \<Longrightarrow> db' = db"
  by (auto simp: apply_one_def split: option.splits sum.splits)

lemma pending_greater: "sorted_wrt (<) (map fst ((v, n) # ms)) \<Longrightarrow> pending v ms = ms"
  by (auto simp: pending_def intro!: filter_True)

lemma pending_sorted: "sorted_wrt (<) (map fst ((v, n) # ms)) \<Longrightarrow> c < v \<Longrightarrow> pending c ms = ms"
  by (auto simp: pending_def intro!: filter_True)

lemma apply_loop_prefix:
  "apply_loop eng read_file dir c ms db = (err, db') \<Longrightarrow> sorted_wrt (<) (map fst ms) \<Longrightarrow>
     \<exists>k \<le> length (pending c ms). applied eng read_file dir (take k (pending c ms)) db = Some db' \<and>
       (err = None \<longleftrightarrow> k = length (pending c ms))"
proof (induction eng read_file dir c ms db rule: apply_loop.induct)
  case (1 eng read_file dir current db)
  then show ?case by (simp add: pending_def)
next
  case (2 eng read_file dir current v name ms db)
  show ?case
  proof (cases "v \<le> current")
    case True
    with 2 have "pending current ((v, name) # ms) = pending current ms" by (simp add: pending_def)
    with 2 True show ?thesis by simp
  next
    case new: False
    then have p: "pending current ((v, name) # ms) = (v, name) # ms"
      using pending_sorted [OF 2(4), of current] by (simp add: pending_def)
    show ?thesis
    proof (cases "read_file (dir @ ''/'' @ name)")
      case (Inl e)
      with 2(3) new show ?thesis unfolding p by (intro exI [of _ 0]) auto
    next
      case (Inr body)
      show ?thesis
      proof (cases "apply_one eng db body v")
        case (Pair r db1)
        show ?thesis
        proof (cases r)
          case (Some e)
          with 2(3) new Inr Pair have "db1 = db'" "err = Some (ApplyMigration name e)" by simp_all
          with apply_one_failed [of eng db body v e db1] Pair Some show ?thesis unfolding p
            by (intro exI [of _ 0]) simp
        next
          case None
          with 2(3) new Inr Pair have "apply_loop eng read_file dir v ms db1 = (err, db')" by simp
          from 2(2) [OF new Inr Pair [symmetric, unfolded None] refl this] 2(4) pending_greater [OF 2(4)]
          obtain k where "k \<le> length ms" "applied eng read_file dir (take k ms) db1 = Some db'" "err = None \<longleftrightarrow> k = length ms"
            by auto
          with None Inr Pair show ?thesis unfolding p by (intro exI [of _ "Suc k"]) simp
        qed
      qed
    qed
  qed
qed

lemma migrate_planned:
  "migration_plan es = Inr ms \<Longrightarrow> sql_version eng db = Inr cur \<Longrightarrow>
     migrate eng (Inr es) read_file dir db = apply_loop eng read_file dir cur ms db"
  by (simp add: migrate_def)

subsection \<open>The cursor\<close>

text \<open>
  SQLite stores the version as a 32-bit integer: setting it to a number in that range is what
  the query returns afterwards.
\<close>

definition pragma_law :: "'db engine \<Rightarrow> bool" where
  "pragma_law eng \<longleftrightarrow> (\<forall>v db db'. 0 \<le> v \<and> v < 2 ^ 31 \<longrightarrow>
     sql_exec eng (version_pragma v) db = Inr db' \<longrightarrow> sql_version eng db' = Inr v)"

definition cursor_range :: "int \<times> string \<Rightarrow> bool" where
  "cursor_range m \<longleftrightarrow> 0 \<le> fst m \<and> fst m < 2 ^ 31"

lemma apply_one_version:
  "pragma_law eng \<Longrightarrow> 0 \<le> v \<Longrightarrow> v < 2 ^ 31 \<Longrightarrow> apply_one eng db body v = (None, db') \<Longrightarrow> sql_version eng db' = Inr v"
  by (auto simp: apply_one_def pragma_law_def split: option.splits sum.splits)

lemma applied_version:
  "pragma_law eng \<Longrightarrow> list_all cursor_range ms \<Longrightarrow> applied eng read_file dir ms db = Some db' \<Longrightarrow> ms \<noteq> [] \<Longrightarrow>
     sql_version eng db' = Inr (fst (last ms))"
proof (induction eng read_file dir ms db rule: applied.induct)
  case (2 eng read_file dir v name ms db)
  obtain body db1 where "read_file (dir @ ''/'' @ name) = Inr body" "apply_one eng db body v = (None, db1)"
      "applied eng read_file dir ms db1 = Some db'"
    using 2(4) by (auto split: sum.splits prod.splits option.splits)
  with 2 apply_one_version [of eng v db body db1] show ?case
    by (cases "ms = []") (auto simp: cursor_range_def)
qed simp

lemma pending_pending: "c < e \<Longrightarrow> pending e ms = filter (\<lambda>(v, _). e < v) (pending c ms)"
  by (auto simp: pending_def intro!: filter_cong)

lemma pending_split:
  assumes "sorted_wrt (<) (map fst ms)" "0 < k" "k \<le> length (pending c ms)"
  shows "pending (fst (last (take k (pending c ms)))) ms = drop k (pending c ms)"
proof -
  have s: "sorted_wrt (<) (map fst (pending c ms))"
    using assms(1) unfolding pending_def by (induction ms) (auto simp: case_prod_unfold)
  obtain a x b where p: "pending c ms = a @ x # b" "length a = k - 1"
    using assms(2,3) by (metis Suc_pred' id_take_nth_drop length_take lessI less_le_trans min.absorb4)
  then have d: "last (take k (pending c ms)) = x" "drop k (pending c ms) = b" using assms(2) by simp_all
  have "x \<in> set (pending c ms)" using p(1) by simp
  then have "c < fst x" by (auto simp: pending_def)
  moreover have "\<forall>y \<in> set a. fst y < fst x" "\<forall>y \<in> set b. fst x < fst y"
    using s unfolding p(1) by (auto simp: sorted_wrt_append)
  then have "filter (\<lambda>(v, _). fst x < v) (a @ x # b) = b"
    by (auto simp: case_prod_unfold filter_empty_conv intro!: filter_True)
  ultimately show ?thesis using pending_pending [of c "fst x" ms] p(1) d by simp
qed

lemma apply_loop_nothing: "pending c ms = [] \<Longrightarrow> apply_loop eng read_file dir c ms db = (None, db)"
  by (induction ms) (auto simp: pending_def split: if_splits)

section \<open>Properties\<close>

text \<open>
  The order in which the directory lists its files does not matter: the plan is the migrations
  in strictly ascending order of version, whatever the listing.
\<close>

theorem plan_order:
  assumes "migration_plan es = Inr ms" "mset es' = mset es"
  shows "migration_plan es' = Inr ms \<and> sorted_wrt (<) (map fst ms)"
proof -
  obtain xs where xs: "result_map versioned es = Inr xs" "ms = sort_key fst (concat xs)"
    using assms(1) by (auto simp: migration_plan_def collect_versioned result_bind_Inr)
  obtain ys where ys: "result_map versioned es' = Inr ys" "mset ys = mset xs"
    using result_map_mset [OF assms(2) [symmetric] xs(1)] by auto
  have s: "sorted_wrt (<) (map fst ms)" using plan_sorted [OF assms(1)] .
  have "mset (concat ys) = mset ms" using mset_concat_cong [OF ys(2)] xs(2) by simp
  from sorted_unique [OF s this] have "sort_key fst (concat ys) = ms" .
  then have "migration_plan es' = result_bind (check_versions ms) (\<lambda>_. Inr ms)"
    by (simp add: migration_plan_def collect_versioned ys(1))
  moreover have "check_versions ms = Inr ()"
    using s by (intro check_versions_distinct) (simp add: strict_sorted_iff)
  ultimately show ?thesis using s by simp
qed

definition demo_entries :: "dir_entry list" where
  "demo_entries = [\<lparr>entry_name = ''10_b.sql'', entry_is_dir = False\<rparr>, \<lparr>entry_name = ''x'', entry_is_dir = True\<rparr>,
     \<lparr>entry_name = ''2_a.sql'', entry_is_dir = False\<rparr>]"

lemma demo_plan: "migration_plan demo_entries = Inr [(2, ''2_a.sql''), (10, ''10_b.sql'')]"
proof -
  have "migration_version ''10_b.sql'' = Inr 10" "migration_version ''2_a.sql'' = Inr 2"
    by (simp_all add: migration_version_def is_digit_def atoi_def dec_val_def digit_val_def int64_range_def)
  moreover have "has_sql_suffix ''10_b.sql''" "has_sql_suffix ''2_a.sql''"
    by (simp_all add: has_sql_suffix_def has_suffix_def)
  ultimately show ?thesis by (simp add: migration_plan_def demo_entries_def)
qed

theorem plan_order_witness:
  "migration_plan (rev demo_entries) = Inr [(2, ''2_a.sql''), (10, ''10_b.sql'')] \<and>
   sorted_wrt (<) (map fst [(2 :: int, ''2_a.sql''), (10, ''10_b.sql'')])"
  by (rule plan_order [OF demo_plan]) simp


text \<open>An engine whose database is its version and the statements executed; \<open>bad\<close> fails.\<close>

definition demo_engine :: "(int \<times> string list) engine" where
  "demo_engine = \<lparr>sql_begin = (\<lambda>_. None),
     sql_exec = (\<lambda>s (v, log). case strip_prefix ''PRAGMA user_version = '' s of
        Some d \<Rightarrow> (case atoi d of Some n \<Rightarrow> Inr (n, log) | None \<Rightarrow> Inl ''syntax'')
      | None \<Rightarrow> if s = ''bad'' then Inl ''failed'' else Inr (v, log @ [s])),
     sql_commit = (\<lambda>_. None), sql_version = (\<lambda>(v, _). Inr v)\<rparr>"

definition demo_files :: "string \<Rightarrow> string + string" where
  "demo_files p = (if p = ''m/2_a.sql'' then Inr ''create'' else Inr ''bad'')"

lemma demo_engine_law: "pragma_law demo_engine"
  unfolding pragma_law_def
proof (intro allI impI)
  fix v db db'
  assume v: "0 \<le> v \<and> v < 2 ^ 31" and e: "sql_exec demo_engine (version_pragma v) db = Inr db'"
  have "atoi (itoa v) = Some v"
    using v atoi_nat_dec [of "nat v"] by (simp add: itoa_def)
  moreover have "strip_prefix ''PRAGMA user_version = '' (version_pragma v) = Some (itoa v)"
    unfolding version_pragma_def by (rule strip_prefix_append)
  ultimately show "sql_version demo_engine db' = Inr v"
    using e by (auto simp: demo_engine_def split: prod.splits)
qed

lemma demo_run:
  "migrate demo_engine (Inr demo_entries) demo_files ''m'' (0, []) =
     (Some (ApplyMigration ''10_b.sql'' ''failed''), (2, [''create'']))"
proof -
  have pragma: "sql_exec demo_engine (version_pragma 2) db = Inr (2, snd db)" for db
  proof -
    have "strip_prefix ''PRAGMA user_version = '' (version_pragma 2) = Some (itoa 2)"
      unfolding version_pragma_def by (rule strip_prefix_append)
    moreover have "atoi (itoa 2) = Some 2" using atoi_nat_dec [of 2] by (simp add: itoa_def)
    ultimately show ?thesis by (simp add: demo_engine_def split: prod.split)
  qed
  have "sql_exec demo_engine ''create'' (0, []) = Inr (0, [''create''])"
    "sql_exec demo_engine ''bad'' db = Inl ''failed''" for db
    by (simp_all add: demo_engine_def split: prod.split)
  moreover have "sql_begin demo_engine db = None" "sql_commit demo_engine db = None" "sql_version demo_engine (0, []) = Inr 0" for db
    by (simp_all add: demo_engine_def)
  ultimately show ?thesis
    by (simp add: migrate_def demo_plan demo_files_def apply_one_def pragma)
qed


text \<open>A file of version zero is in the plan and never runs: the version of a database is not negative.\<close>

lemma version_zero_never_runs: "0 \<le> cur \<Longrightarrow> (0, name) \<notin> set (pending cur ms)"
  by (simp add: pending_def)

end
