(* ===== verification/DebugLog.thy ===== *)
theory DebugLog
  imports Paths
begin

text \<open>
  The process-wide debug log of llm/openai.go: \<open>SetDebug\<close> and \<open>Debugf\<close> called from any number
  of goroutines. Steps are the accesses to the atomic flag, the sections under the lock, and the
  write that follows. The writer is \<open>None\<close> for \<open>io.Discard\<close> or the handle of a file.
\<close>

section \<open>State and steps\<close>

datatype debug_pc =
    Idle
  | Disabling
  | Opened nat
  | Enabling
  | Checked string
  | Writing "nat option" string

record debug_log =
  flag :: bool
  writer :: "nat option"
  opened :: "nat set"
  next_handle :: nat
  lines :: "(nat \<times> string) list"
  pcs :: "nat \<Rightarrow> debug_pc"

definition debug_init :: debug_log where
  "debug_init = \<lparr>flag = False, writer = None, opened = {}, next_handle = 0, lines = [], pcs = (\<lambda>_. Idle)\<rparr>"

definition go :: "nat \<Rightarrow> debug_pc \<Rightarrow> debug_log \<Rightarrow> debug_log" where
  "go i p s = s\<lparr>pcs := (pcs s)(i := p)\<rparr>"

text \<open>\<open>closeDebugWriterLocked\<close> followed by the assignment of the writer.\<close>

definition replace_writer :: "nat option \<Rightarrow> debug_log \<Rightarrow> debug_log" where
  "replace_writer w s =
     s\<lparr>opened := (case writer s of Some f \<Rightarrow> opened s - {f} | None \<Rightarrow> opened s), writer := w\<rparr>"

definition open_file :: "debug_log \<Rightarrow> debug_log" where
  "open_file s = s\<lparr>opened := insert (next_handle s) (opened s), next_handle := Suc (next_handle s)\<rparr>"

text \<open>A write to a closed file fails, and its error is ignored.\<close>

definition write_line :: "nat option \<Rightarrow> string \<Rightarrow> debug_log \<Rightarrow> debug_log" where
  "write_line w l s =
     (case w of Some f \<Rightarrow> if f \<in> opened s then s\<lparr>lines := lines s @ [(f, l)]\<rparr> else s | None \<Rightarrow> s)"

text \<open>
  \<open>SetDebug\<close> on the empty path is the first two steps, on another path the next three, after the
  directory and the file could be opened (a failure returns with nothing changed); \<open>Debugf\<close> is
  the rest, and returns at once while the flag is off.
\<close>

inductive debug_step :: "debug_log \<Rightarrow> debug_log \<Rightarrow> bool" where
  disable_flag: "pcs s i = Idle \<Longrightarrow> debug_step s (go i Disabling (s\<lparr>flag := False\<rparr>))"
| disable_writer: "pcs s i = Disabling \<Longrightarrow> debug_step s (go i Idle (replace_writer None s))"
| enable_open: "pcs s i = Idle \<Longrightarrow> debug_step s (go i (Opened (next_handle s)) (open_file s))"
| enable_writer: "pcs s i = Opened f \<Longrightarrow> debug_step s (go i Enabling (replace_writer (Some f) s))"
| enable_flag: "pcs s i = Enabling \<Longrightarrow> debug_step s (go i Idle (s\<lparr>flag := True\<rparr>))"
| log_check: "pcs s i = Idle \<Longrightarrow> flag s \<Longrightarrow> debug_step s (go i (Checked l) s)"
| log_writer: "pcs s i = Checked l \<Longrightarrow> debug_step s (go i (Writing (writer s) l) s)"
| log_write: "pcs s i = Writing w l \<Longrightarrow> debug_step s (go i Idle (write_line w l s))"

abbreviation debug_reach :: "debug_log \<Rightarrow> bool" where
  "debug_reach \<equiv> debug_step\<^sup>*\<^sup>* debug_init"

section \<open>Open files\<close>

definition handed_over :: "debug_log \<Rightarrow> nat set" where
  "handed_over s = {f. \<exists>i. pcs s i = Opened f}"

definition files_inv :: "debug_log \<Rightarrow> bool" where
  "files_inv s \<longleftrightarrow> opened s = set_option (writer s) \<union> handed_over s \<and>
     set_option (writer s) \<inter> handed_over s = {} \<and>
     (\<forall>i j f. pcs s i = Opened f \<longrightarrow> pcs s j = Opened f \<longrightarrow> i = j) \<and>
     (\<forall>f \<in> opened s. f < next_handle s)"

lemma handed_go [simp]:
  "handed_over (go i p s) = {f. p = Opened f \<or> (\<exists>j. j \<noteq> i \<and> pcs s j = Opened f)}"
  by (auto simp: handed_over_def go_def)

lemma handed_other: "(\<And>f. pcs s i \<noteq> Opened f) \<Longrightarrow> {f. \<exists>j. j \<noteq> i \<and> pcs s j = Opened f} = handed_over s"
  by (auto simp: handed_over_def) (metis (full_types))

lemma handed_opened: "(\<And>f. pcs s i \<noteq> Opened f) \<Longrightarrow> handed_over (go i (Opened n) s) = insert n (handed_over s)"
  using handed_other [of s i] by auto

lemma handed_installed:
  assumes "pcs s i = Opened f" "\<forall>i j f. pcs s i = Opened f \<longrightarrow> pcs s j = Opened f \<longrightarrow> i = j"
  shows "handed_over (go i Enabling s) = handed_over s - {f}"
proof -
  have "pcs s j = Opened g \<Longrightarrow> j \<noteq> i \<longleftrightarrow> g \<noteq> f" for j g
    using assms by (metis debug_pc.inject(1))
  then show ?thesis by (auto simp: handed_over_def go_def)
qed

lemma go_fields [simp]:
  "opened (go i p s) = opened s" "writer (go i p s) = writer s" "next_handle (go i p s) = next_handle s"
  "flag (go i p s) = flag s" "lines (go i p s) = lines s" "pcs (go i p s) = (pcs s)(i := p)"
  by (simp_all add: go_def)

text \<open>A step of a goroutine that neither has nor gets a file of its own keeps the invariant.\<close>

lemma files_inv_go:
  assumes "files_inv s" "\<And>f. pcs s i \<noteq> Opened f" "\<And>f. p \<noteq> Opened f"
  shows "files_inv (go i p s)"
  using assms handed_other [of s i] by (auto simp: files_inv_def)

lemma files_inv_cong:
  "files_inv s \<Longrightarrow> opened s' = opened s \<Longrightarrow> writer s' = writer s \<Longrightarrow> next_handle s' = next_handle s \<Longrightarrow> pcs s' = pcs s \<Longrightarrow>
     files_inv s'"
  by (simp add: files_inv_def handed_over_def)

lemma write_line_fields [simp]:
  "opened (write_line w l s) = opened s" "writer (write_line w l s) = writer s"
  "next_handle (write_line w l s) = next_handle s" "pcs (write_line w l s) = pcs s" "flag (write_line w l s) = flag s"
  by (simp_all add: write_line_def split: option.split)

lemma files_inv_step: "debug_step s s' \<Longrightarrow> files_inv s \<Longrightarrow> files_inv s'"
proof (induction rule: debug_step.induct)
  case (disable_flag s i)
  then show ?case by (intro files_inv_go) (auto intro: files_inv_cong)
next
  case (disable_writer s i)
  have "files_inv (replace_writer None s)"
    using disable_writer(2) by (auto simp: files_inv_def replace_writer_def handed_over_def split: option.splits)
  then show ?case using disable_writer(1) by (intro files_inv_go) (simp_all add: replace_writer_def)
next
  case (enable_open s i)
  let ?n = "next_handle s" let ?s = "go i (Opened ?n) (open_file s)"
  have n: "?n \<notin> opened s" using enable_open(2) by (auto simp: files_inv_def)
  have "handed_over (open_file s) = handed_over s" by (simp add: handed_over_def open_file_def)
  then have h: "handed_over ?s = insert ?n (handed_over s)"
    using handed_opened [of "open_file s" i ?n] enable_open(1) by (simp add: open_file_def)
  have inv: "opened s = set_option (writer s) \<union> handed_over s" "set_option (writer s) \<inter> handed_over s = {}"
    "\<forall>i j f. pcs s i = Opened f \<longrightarrow> pcs s j = Opened f \<longrightarrow> i = j" "\<forall>f \<in> opened s. f < ?n"
    using enable_open(2) by (simp_all add: files_inv_def)
  have fresh: "pcs s j \<noteq> Opened ?n" for j using n inv(1) by (auto simp: handed_over_def)
  show ?case
    unfolding files_inv_def h
  proof (intro conjI)
    show "opened ?s = set_option (writer ?s) \<union> insert ?n (handed_over s)" using inv(1) by (simp add: open_file_def)
    show "set_option (writer ?s) \<inter> insert ?n (handed_over s) = {}" using inv(1,2) n by (auto simp: open_file_def)
    show "\<forall>k j f. pcs ?s k = Opened f \<longrightarrow> pcs ?s j = Opened f \<longrightarrow> k = j"
      using inv(3) fresh by (auto simp: open_file_def)
    show "\<forall>f \<in> opened ?s. f < next_handle ?s" using inv(4) by (auto simp: open_file_def)
  qed
next
  case (enable_writer s i f)
  let ?s = "go i Enabling (replace_writer (Some f) s)"
  have inv: "opened s = set_option (writer s) \<union> handed_over s" "set_option (writer s) \<inter> handed_over s = {}"
    "\<forall>i j f. pcs s i = Opened f \<longrightarrow> pcs s j = Opened f \<longrightarrow> i = j" "\<forall>f \<in> opened s. f < next_handle s"
    using enable_writer(2) by (simp_all add: files_inv_def)
  have "pcs (replace_writer (Some f) s) = pcs s" "handed_over (replace_writer (Some f) s) = handed_over s"
    by (simp_all add: replace_writer_def handed_over_def)
  then have h: "handed_over ?s = handed_over s - {f}"
    using handed_installed [of "replace_writer (Some f) s" i f] enable_writer(1) inv(3) by simp
  have f: "f \<in> handed_over s" using enable_writer(1) by (auto simp: handed_over_def)
  show ?case
    unfolding files_inv_def h
  proof (intro conjI)
    show "opened ?s = set_option (writer ?s) \<union> (handed_over s - {f})"
      using inv(1,2) f by (auto simp: replace_writer_def split: option.splits)
    show "set_option (writer ?s) \<inter> (handed_over s - {f}) = {}" by (simp add: replace_writer_def)
    show "\<forall>k j g. pcs ?s k = Opened g \<longrightarrow> pcs ?s j = Opened g \<longrightarrow> k = j"
      using inv(3) by (simp add: replace_writer_def)
    show "\<forall>g \<in> opened ?s. g < next_handle ?s"
      using inv(4) by (auto simp: replace_writer_def split: option.splits)
  qed
next
  case (enable_flag s i)
  then show ?case by (intro files_inv_go) (auto intro: files_inv_cong)
next
  case (log_check s i l)
  then show ?case by (intro files_inv_go) auto
next
  case (log_writer s i l)
  then show ?case by (intro files_inv_go) auto
next
  case (log_write s i w l)
  then show ?case by (intro files_inv_go) (auto intro: files_inv_cong)
qed

lemma files_inv_reach: "debug_reach s \<Longrightarrow> files_inv s"
proof (induction rule: rtranclp_induct)
  case base
  then show ?case by (simp add: files_inv_def debug_init_def handed_over_def)
next
  case (step s s')
  then show ?case using files_inv_step by blast
qed

section \<open>Properties\<close>

text \<open>C30: Log files do not leak: however calls to \<open>SetDebug\<close> and \<open>Debugf\<close> interleave, the files open are
  exactly the current writer and those a call has opened and not installed yet, which are other
  files; so with no call under way, only the current writer is open.
\<close>

theorem debug_files_closed:
  assumes "debug_reach s"
  shows "opened s = set_option (writer s) \<union> {f. \<exists>i. pcs s i = Opened f} \<and>
    set_option (writer s) \<inter> {f. \<exists>i. pcs s i = Opened f} = {}"
  using files_inv_reach [OF assms] by (auto simp: files_inv_def handed_over_def)

definition logging_state :: debug_log where
  "logging_state = go 0 Idle ((go 0 Enabling (replace_writer (Some 0) (go 0 (Opened 0) (open_file debug_init))))\<lparr>flag := True\<rparr>)"

lemma logging_reach: "debug_reach logging_state"
proof -
  have a: "debug_reach (go 0 (Opened 0) (open_file debug_init))"
    using enable_open [of debug_init 0] by (simp add: debug_init_def r_into_rtranclp)
  have b: "debug_reach (go 0 Enabling (replace_writer (Some 0) (go 0 (Opened 0) (open_file debug_init))))"
    by (rule rtranclp.rtrancl_into_rtrancl [OF a]) (rule enable_writer, simp)
  show ?thesis unfolding logging_state_def
    by (rule rtranclp.rtrancl_into_rtrancl [OF b]) (rule enable_flag, simp)
qed

theorem debug_files_closed_witness:
  "opened logging_state = set_option (writer logging_state) \<union> {f. \<exists>i. pcs logging_state i = Opened f} \<and>
    set_option (writer logging_state) \<inter> {f. \<exists>i. pcs logging_state i = Opened f} = {}"
  by (rule debug_files_closed [OF logging_reach])

text \<open>
  The flag does not always mirror the writer: a call that disables the log between the two last
  steps of one that enables it leaves the flag on with the output discarded.
\<close>

lemma flag_without_writer: "\<exists>s. debug_reach s \<and> (\<forall>i. pcs s i = Idle) \<and> flag s \<and> writer s = None"
proof -
  let ?a = "go 0 (Opened 0) (open_file debug_init)"
  let ?b = "go 0 Enabling (replace_writer (Some 0) ?a)"
  let ?c = "go 1 Disabling (?b\<lparr>flag := False\<rparr>)"
  let ?d = "go 1 Idle (replace_writer None ?c)"
  let ?e = "go 0 Idle (?d\<lparr>flag := True\<rparr>)"
  have a: "debug_reach ?a"
    using enable_open [of debug_init 0] by (simp add: debug_init_def r_into_rtranclp)
  have b: "debug_reach ?b" by (rule rtranclp.rtrancl_into_rtrancl [OF a]) (rule enable_writer, simp)
  have c: "debug_reach ?c"
    by (rule rtranclp.rtrancl_into_rtrancl [OF b]) (rule disable_flag, simp add: replace_writer_def open_file_def debug_init_def)
  have d: "debug_reach ?d" by (rule rtranclp.rtrancl_into_rtrancl [OF c]) (rule disable_writer, simp)
  have "debug_reach ?e"
    by (rule rtranclp.rtrancl_into_rtrancl [OF d]) (rule enable_flag, simp add: replace_writer_def)
  moreover have "(\<forall>i. pcs ?e i = Idle) \<and> flag ?e \<and> writer ?e = None"
    by (simp add: replace_writer_def open_file_def debug_init_def)
  ultimately show ?thesis by blast
qed

end
