(* ===== verification/MessageText.thy ===== *)
theory MessageText
  imports Messages JsonText
begin

text \<open>
  Messages as text (llm/messages.go under \<open>json.Marshal\<close> and \<open>json.Unmarshal\<close>): what
  \<open>MarshalJSON\<close> emits is parsed back to the message it came from, for any message whose strings
  are valid UTF-8.
\<close>

lemma ascii_append: "list_all (\<lambda>c. (of_char c :: nat) < 128) a \<Longrightarrow> valid_utf8 b \<Longrightarrow> valid_utf8 (a @ b)"
  by (simp add: valid_utf8_append valid_utf8_ascii)

lemma b64_char_ascii:
  assumes "i < 64"
  shows "(of_char (b64_char i) :: nat) < 128"
proof -
  have "list_all (\<lambda>c. (of_char c :: nat) < 128) b64_alphabet" "length b64_alphabet = 64"
    by (simp_all add: b64_alphabet_def)
  with assms show ?thesis by (auto simp: list_all_length b64_char_def)
qed

lemma b64_encode_ascii: "list_all (\<lambda>c. (of_char c :: nat) < 128) (b64_encode d)"
proof (induction d rule: b64_encode.induct)
  case (2 a)
  note b64_first_less(1) [of a]
  then show ?case by (simp add: Let_def b64_char_ascii)
next
  case (3 a b)
  note b64_first_less(2) [of a b]
  then show ?case by (simp add: Let_def b64_char_ascii)
next
  case (4 a b c r)
  note b64_first_less(3) [of a b c]
  with 4 show ?case by (simp add: Let_def b64_char_ascii)
qed simp

section \<open>Messages of valid UTF-8\<close>

definition part_utf8 :: "message_part \<Rightarrow> bool" where
  "part_utf8 p \<longleftrightarrow> valid_utf8 (part_text p) \<and> valid_utf8 (mime_type p) \<and> valid_utf8 (part_uri p)"

definition call_utf8 :: "tool_call \<Rightarrow> bool" where
  "call_utf8 t \<longleftrightarrow> valid_utf8 (call_id t) \<and> valid_utf8 (call_type t) \<and> valid_utf8 (fn_name (fn t)) \<and>
     valid_utf8 (arguments (fn t))"

definition message_utf8 :: "message \<Rightarrow> bool" where
  "message_utf8 m \<longleftrightarrow> valid_utf8 (role m) \<and> valid_utf8 (content m) \<and> list_all part_utf8 (parts m) \<and>
     list_all call_utf8 (tool_calls m) \<and> valid_utf8 (tool_call_id m) \<and> valid_utf8 (msg_name m)"

text \<open>A tree without numbers, with valid strings, at most so deep: it survives the text.\<close>

definition plain_json :: "nat \<Rightarrow> json \<Rightarrow> bool" where
  "plain_json d j \<longleftrightarrow> json_numbers j \<and> json_utf8 j \<and> json_depth j \<le> d"

lemma plain_json_str: "valid_utf8 s \<Longrightarrow> plain_json d (JStr s)"
  by (simp add: plain_json_def)

lemma plain_json_arr: "plain_json (Suc d) (JArr xs) \<longleftrightarrow> list_all (plain_json d) xs"
  by (auto simp: plain_json_def list_all_iff foldr_max_less)

lemma plain_json_obj: "plain_json (Suc d) (JObj ms) \<longleftrightarrow> list_all (\<lambda>(k, v). valid_utf8 k \<and> plain_json d v) ms"
  by (auto simp: plain_json_def list_all_iff foldr_max_less split: prod.splits)

lemma plain_json_omit_empty:
  "valid_utf8 k \<Longrightarrow> valid_utf8 s \<Longrightarrow> list_all (\<lambda>(k, v). valid_utf8 k \<and> plain_json d v) (omit_empty k s)"
  by (simp add: omit_empty_def plain_json_str)

lemma wire_keys_utf8 [simp]: "k \<in> set wire_keys \<Longrightarrow> valid_utf8 k"
proof -
  have "list_all (list_all (\<lambda>c. (of_char c :: nat) < 128)) wire_keys" by (simp add: wire_keys_def)
  then show "k \<in> set wire_keys \<Longrightarrow> valid_utf8 k" using valid_utf8_ascii by (auto simp: list_all_iff)
qed

lemmas plain_json_simps = plain_json_arr plain_json_obj plain_json_str plain_json_omit_empty

lemma valid_utf8_Nil [simp]: "valid_utf8 []"
  by (simp add: valid_utf8_def)

lemma valid_utf8_words [simp]: "valid_utf8 ''text''" "valid_utf8 ''image_url''" "valid_utf8 ''file''"
  by (simp_all add: valid_utf8_ascii)

lemma data_url_utf8:
  assumes "valid_utf8 (mime_type p)"
  shows "valid_utf8 (data_url p)"
proof -
  note e = valid_utf8_ascii [OF b64_encode_ascii, of "part_data p"]
  have "valid_utf8 (''data:'' @ mime_type p @ '';base64,'' @ b64_encode (part_data p))"
    by (rule ascii_append [OF _ valid_utf8_append [OF assms ascii_append [OF _ e]]]) simp_all
  then show ?thesis by (simp add: data_url_def)
qed

lemma plain_tool_call: "call_utf8 t \<Longrightarrow> plain_json (Suc (Suc d)) (tool_call_json t)"
  by (simp add: tool_call_json_def plain_json_simps call_utf8_def)

lemma plain_text_block: "valid_utf8 t \<Longrightarrow> plain_json (Suc d) (text_block t)"
  by (simp add: text_block_def plain_json_simps)

lemma plain_part_block: "part_utf8 p \<Longrightarrow> list_all (plain_json (Suc (Suc d))) (part_block p)"
  by (auto simp: part_block_def text_block_def plain_json_simps part_utf8_def data_url_utf8)

lemma plain_marshal:
  assumes m: "message_utf8 m"
  shows "plain_json 4 (marshal_message m)"
proof -
  have d: "(4 :: nat) = Suc (Suc (Suc (Suc 0)))" by simp
  note u = m [unfolded message_utf8_def]
  have "list_all (plain_json 2) (content_blocks m)"
    using u plain_part_block [of _ 0] plain_text_block [of "content m" 1]
    by (auto simp: content_blocks_def list_all_iff numeral_2_eq_2)
  moreover have "list_all (plain_json 2) (map tool_call_json (tool_calls m))"
    using u plain_tool_call [of _ 0] by (auto simp: list_all_iff numeral_2_eq_2)
  then have "list_all (\<lambda>(k, v). valid_utf8 k \<and> plain_json 3 v) (tail_members m)"
    using u by (simp add: tail_members_def plain_json_omit_empty numeral_3_eq_3 numeral_2_eq_2 plain_json_arr)
  ultimately show ?thesis
    using u by (auto simp: marshal_message_def marshal_multimodal_def d plain_json_simps numeral_3_eq_3 numeral_2_eq_2)
qed

lemma plain_json_text: "plain_json d j \<Longrightarrow> d \<le> max_nesting \<Longrightarrow> json_parse (json_render j) = Inr j"
  using json_parse_render [of j] json_clean_utf8 [of j] by (simp add: plain_json_def)

text \<open>C13: A message survives the text it is written as. Whatever its role, content, tool calls,
  ids and name, all valid UTF-8, and for parts the constructors build (text, inline image or
  document bytes with a media type, references that are not data URLs), parsing the bytes
  \<open>MarshalJSON\<close> leads to and unmarshalling them succeeds and restores every wire field, the
  inline bytes included; the only change is that a leading text part of a message without
  content becomes its content. The fields that are not on the wire keep the receiver's value.\<close>
theorem message_text_roundtrip:
  assumes "list_all part_ok (parts m)" and "message_utf8 m"
  shows "result_bind (json_parse (json_render (marshal_message m))) (unmarshal_message m0) =
    Inr (m0\<lparr>role := role m, content := fst (wire_split m), parts := snd (wire_split m),
      tool_calls := tool_calls m, tool_call_id := tool_call_id m, msg_name := msg_name m\<rparr>)
    \<and> (wire_normal m \<longrightarrow> wire_split m = (content m, parts m))"
  using plain_json_text [OF plain_marshal [OF assms(2)]] unmarshal_marshal [OF assms(1), of m0] wire_split_normal
  by (simp add: max_nesting_def)

theorem message_text_roundtrip_witness:
  "result_bind (json_parse (json_render (marshal_message image_message))) (unmarshal_message empty_message) =
   Inr image_message"
proof -
  have u: "message_utf8 image_message"
    by (simp add: image_message_def message_utf8_def part_utf8_def call_utf8_def valid_utf8_ascii part_defs empty_message_def)
  have "wire_normal image_message"
    using image_message_ok by (simp add: wire_normal_def) (simp add: image_message_def)
  then show ?thesis
    using message_text_roundtrip [OF image_message_ok u, of empty_message]
    by (simp add: image_message_def empty_message_def)
qed

end
