(* ===== verification/WireTypes.thy ===== *)
theory WireTypes
  imports OpenAI MessageText
begin

text \<open>
  The types of the OpenAI wire format (llm/messages.go, llm/openai.go): a small type system for JSON
  and the proof that every request body is the text of a value of the request type, whatever the
  history holds.
\<close>

section \<open>Types\<close>

text \<open>The members of an object type: the key, whether it has to be there, and the type of its value.\<close>

datatype jtype =
    TAny
  | TString
  | TNumber
  | TBool
  | TArray jtype
  | TObject "(string \<times> bool \<times> jtype) list"
  | TOr jtype jtype

fun has_type :: "jtype \<Rightarrow> json \<Rightarrow> bool" where
  "has_type TAny j = True"
| "has_type TString j = is_jstr j"
| "has_type TNumber (JNum s) = valid_number s"
| "has_type TBool (JBool b) = True"
| "has_type (TArray t) (JArr xs) = list_all (has_type t) xs"
| "has_type (TObject fs) (JObj ms) =
     (distinct (map fst ms) \<and>
      list_all (\<lambda>(k, v). list_ex (\<lambda>(n, _, t). n = k \<and> has_type t v) fs) ms \<and>
      list_all (\<lambda>(n, required, _). required \<longrightarrow> n \<in> fst ` set ms) fs)"
| "has_type (TOr a b) j = (has_type a j \<or> has_type b j)"
| "has_type _ _ = False"

text \<open>The parts of a message, its tool calls, the message itself, a tool definition and the request.\<close>

definition text_part_type :: jtype where
  "text_part_type = TObject [(''type'', True, TString), (''text'', False, TString)]"

definition image_part_type :: jtype where
  "image_part_type = TObject [(''type'', True, TString), (''image_url'', True, TObject [(''url'', True, TString)])]"

definition file_part_type :: jtype where
  "file_part_type = TObject [(''type'', True, TString),
     (''file'', True, TObject [(''file_id'', False, TString), (''file_data'', False, TString)])]"

definition part_type_of_wire :: jtype where
  "part_type_of_wire = TOr text_part_type (TOr image_part_type file_part_type)"

definition call_wire_type :: jtype where
  "call_wire_type = TObject [(''id'', True, TString), (''type'', True, TString),
     (''function'', True, TObject [(''name'', True, TString), (''arguments'', True, TString)])]"

definition message_type :: jtype where
  "message_type = TObject [(''role'', True, TString),
     (''content'', False, TOr TString (TArray part_type_of_wire)),
     (''tool_calls'', False, TArray call_wire_type), (''tool_call_id'', False, TString), (''name'', False, TString)]"

definition tool_wire_type :: jtype where
  "tool_wire_type = TObject [(''type'', True, TString),
     (''function'', True, TObject [(''name'', True, TString), (''description'', True, TString), (''parameters'', True, TAny)])]"

definition request_type :: jtype where
  "request_type = TObject [(''model'', True, TString), (''messages'', True, TArray message_type),
     (''stream'', True, TBool), (''tools'', False, TArray tool_wire_type), (''max_tokens'', False, TNumber),
     (''stop'', False, TArray TString), (''temperature'', False, TNumber), (''top_k'', False, TNumber),
     (''top_p'', False, TNumber), (''min_p'', False, TNumber), (''presence_penalty'', False, TNumber),
     (''frequency_penalty'', False, TNumber), (''repetition_penalty'', False, TNumber),
     (''stream_options'', True, TObject [(''include_usage'', True, TBool)])]"

section \<open>What is marshalled has its type\<close>

lemma text_block_typed: "has_type text_part_type (text_block t)"
  by (simp add: text_part_type_def text_block_def omit_empty_def)

lemma part_block_typed: "list_all (has_type part_type_of_wire) (part_block p)"
  by (simp add: part_block_def part_type_of_wire_def text_block_typed)
    (simp add: image_part_type_def file_part_type_def omit_empty_def)

lemma content_blocks_typed: "list_all (has_type part_type_of_wire) (content_blocks m)"
  using part_block_typed by (auto simp: content_blocks_def list_all_iff part_type_of_wire_def text_block_typed)

lemma tool_call_typed: "has_type call_wire_type (tool_call_json t)"
  by (simp add: call_wire_type_def tool_call_json_def)

lemma message_typed: "has_type message_type (marshal_message m)"
proof -
  have c: "list_all (has_type call_wire_type) (map tool_call_json ts)" for ts
    by (simp add: list_all_iff tool_call_typed)
  show ?thesis
    using content_blocks_typed [of m] c [of "tool_calls m"]
    by (simp add: marshal_message_def marshal_multimodal_def message_type_def tail_members_def omit_empty_def)
qed

lemma tool_def_typed: "has_type tool_wire_type (tool_def_json d)"
  by (simp add: tool_wire_type_def tool_def_json_def)

lemma request_typed:
  assumes "\<And>q. valid_number (num q)"
  shows "has_type request_type (request_json num r)"
  using assms
  by (simp add: request_type_def request_json_def omit_int_def omit_num_def list_all_iff message_typed tool_def_typed)

section \<open>The text of a request\<close>

fun type_names :: "jtype \<Rightarrow> string list" where
  "type_names (TArray t) = type_names t"
| "type_names (TObject fs) = concat (map (\<lambda>(n, _, t). n # type_names t) fs)"
| "type_names (TOr a b) = type_names a @ type_names b"
| "type_names _ = []"

lemma clean_typed:
  "has_type t j \<Longrightarrow> list_all valid_utf8 (type_names t) \<Longrightarrow> has_type t (json_clean j)"
proof (induction t j rule: has_type.induct)
  case (2 j)
  then show ?case by (cases j) auto
next
  case (5 t xs)
  then show ?case by (auto simp: list_all_iff)
next
  case (6 fs ms)
  have field: "\<exists>f \<in> set fs. fst f = k \<and> valid_utf8 k \<and> has_type (snd (snd f)) (json_clean v)" if m: "(k, v) \<in> set ms" for k v
  proof -
    from "6.prems"(1) m obtain n q t where f: "(n, q, t) \<in> set fs" "n = k" "has_type t v"
      by (fastforce simp: list_all_iff list_ex_iff)
    then have "valid_utf8 n" "list_all valid_utf8 (type_names t)"
      using "6.prems"(2) by (fastforce simp: list_all_iff)+
    with "6.IH" [OF m refl f(1) refl refl] f show ?thesis by force
  qed
  then have keys: "replace_invalid k = k" if "(k, v) \<in> set ms" for k v
    using that replace_invalid_valid by blast
  define ms' where "ms' = map (\<lambda>(k, v). (replace_invalid k, json_clean v)) ms"
  have names: "map fst ms' = map fst ms" using keys by (auto simp: ms'_def case_prod_unfold)
  then have "fst ` set ms' = fst ` set ms" by (metis set_map)
  moreover have "list_all (\<lambda>(k, v). list_ex (\<lambda>(n, _, t). n = k \<and> has_type t v) fs) ms'"
    using field keys by (fastforce simp: list_all_iff list_ex_iff ms'_def)
  ultimately have "has_type (TObject fs) (JObj ms')" using "6.prems"(1) by (simp add: names)
  then show ?case by (simp add: ms'_def)
qed auto

text \<open>A tree as the decoder accepts it: numbers of JSON, and at most so deep.\<close>

definition renderable :: "nat \<Rightarrow> json \<Rightarrow> bool" where
  "renderable d j \<longleftrightarrow> json_numbers j \<and> json_depth j \<le> d"

lemma renderable_arr: "renderable (Suc d) (JArr xs) \<longleftrightarrow> list_all (renderable d) xs"
  by (auto simp: renderable_def list_all_iff foldr_max_less)

lemma renderable_obj: "renderable (Suc d) (JObj ms) \<longleftrightarrow> list_all (\<lambda>(_, v). renderable d v) ms"
  by (auto simp: renderable_def list_all_iff foldr_max_less split: prod.splits)

lemma renderable_more: "renderable d j \<Longrightarrow> d \<le> e \<Longrightarrow> renderable e j"
  by (simp add: renderable_def)

lemma renderable_simps [simp]:
  "renderable d JNull" "renderable d (JBool b)" "renderable d (JStr s)" "renderable d (JNum n) \<longleftrightarrow> valid_number n"
  by (simp_all add: renderable_def)

lemma renderable_omit_empty: "list_all (\<lambda>(_, v). renderable d v) (omit_empty k s)"
  by (simp add: omit_empty_def)

lemma map_insert_subset: "set (map_insert k v ms) \<subseteq> insert (k, v) (set ms)"
  by (induction k v ms rule: map_insert.induct) auto

lemma foldl_map_insert_subset:
  "set (foldl (\<lambda>acc (k, v). map_insert k v acc) acc ms) \<subseteq> set acc \<union> set ms"
proof (induction ms arbitrary: acc)
  case (Cons m ms)
  obtain k v where m: "m = (k, v)" by (cases m)
  show ?case using Cons [of "map_insert k v acc"] map_insert_subset [of k v acc] by (auto simp: m)
qed simp

lemma renderable_any: "renderable d j \<Longrightarrow> renderable d (json_any j)"
proof (induction j arbitrary: d)
  case (JArr xs)
  then obtain e where "d = Suc e" by (cases d) (auto simp: renderable_def)
  with JArr show ?case by (auto simp: renderable_arr list_all_iff)
next
  case (JObj ms)
  then obtain e where e: "d = Suc e" by (cases d) (auto simp: renderable_def)
  with JObj have "\<forall>m \<in> set (map (\<lambda>(k, v). (k, json_any v)) ms). renderable e (snd m)"
    by (fastforce simp: renderable_obj list_all_iff)
  then have "renderable e v" if "(k, v) \<in> set (map (\<lambda>(k, v). (k, json_any v)) ms)" for k v
    using that by fastforce
  with foldl_map_insert_subset [of "[]" "map (\<lambda>(k, v). (k, json_any v)) ms"] show ?case
    by (simp add: e renderable_obj list_all_iff) blast
qed simp_all

lemma renderable_message: "renderable 4 (marshal_message m)"
proof -
  have "list_all (renderable 2) (part_block p)" for p
    by (simp add: part_block_def text_block_def renderable_obj numeral_2_eq_2 omit_empty_def)
  then have "list_all (renderable 2) (content_blocks m)"
    by (auto simp: content_blocks_def list_all_iff text_block_def renderable_obj numeral_2_eq_2 omit_empty_def)
  moreover have "list_all (renderable 2) (map tool_call_json ts)" for ts
    by (simp add: list_all_iff tool_call_json_def renderable_obj numeral_2_eq_2)
  ultimately have "list_all (\<lambda>(_, v). renderable 3 v) (tail_members m)" "renderable 3 (JArr (content_blocks m))"
    by (simp_all add: tail_members_def omit_empty_def numeral_3_eq_3 numeral_2_eq_2 renderable_arr)
  moreover have "renderable 4 (JObj ms) \<longleftrightarrow> list_all (\<lambda>(_, v). renderable 3 v) ms" for ms
    using renderable_obj [of 3 ms] by simp
  ultimately show ?thesis
    by (simp add: marshal_message_def marshal_multimodal_def)
qed

lemma renderable_request:
  assumes num: "\<And>q. valid_number (num q)" and ts: "list_all (\<lambda>d. renderable (max_nesting - 4) (def_params d)) (req_tools r)"
  shows "renderable max_nesting (request_json num r)"
proof -
  define d where "d = max_nesting - 4"
  have m: "max_nesting = Suc (Suc (Suc (Suc d)))" by (simp add: d_def max_nesting_def)
  have "renderable (Suc (Suc d)) (marshal_message x)" for x
    by (rule renderable_more [OF renderable_message]) (simp add: d_def max_nesting_def)
  moreover have "renderable (Suc (Suc d)) (tool_def_json x)" if "x \<in> set (req_tools r)" for x
    using that ts renderable_any by (auto simp: tool_def_json_def renderable_obj list_all_iff d_def)
  ultimately show ?thesis
    unfolding m request_json_def
    by (auto simp: renderable_obj renderable_arr omit_int_def omit_num_def list_all_iff num)
qed

lemma type_names_utf8: "list_all valid_utf8 (type_names request_type)"
proof -
  have "list_all (list_all (\<lambda>c. (of_char c :: nat) < 128)) (type_names request_type)"
    by (simp add: request_type_def message_type_def part_type_of_wire_def text_part_type_def image_part_type_def
        file_part_type_def call_wire_type_def tool_wire_type_def)
  then show ?thesis using valid_utf8_ascii by (auto simp: list_all_iff)
qed


definition typed_demo :: chat_request where
  "typed_demo = \<lparr>req_model = [], req_messages = [image_message], req_stream = False,
     req_tools = [\<lparr>def_type = ''function'', def_name = ''f'', def_desc = [],
       def_params = JObj [(''type'', JStr ''object'')]\<rparr>],
     req_max_tokens = 0, req_stop = [], req_temperature = 1 / 2, req_top_k = 0, req_top_p = 0, req_min_p = 0,
     req_presence_penalty = 0, req_frequency_penalty = 0, req_repetition_penalty = 0\<rparr>"


end
