(* ===== verification/Spec2Isabelle.thy ===== *)
theory Spec2Isabelle
  imports Pooled ToolRun Netsec Envelopes AnthropicStream Bedrock Vertex InlineRecovery HeldClaim Store DebugLog WireTypes
begin

text \<open>
  A verification development for azoth, a Go library for agent programs: chat clients for language
  models (package llm with its vendor adapters), tool registries and argument handling (tools),
  an egress guard (netsec), a framed local socket protocol (ipc), a SQLite harness (store) and the
  directory layout of an application (paths).

  \<^bold>\<open>How the parts interact.\<close> A host builds an \<open>llm.ChatRequest\<close> from its history and the
  definitions of its tool registry and gives it to a chat client. The client translates the
  history to the wire format of its provider, sends it (with retries, and with the outcome noted
  in a connection tracker, which may start a recovery probe), and returns a channel of events: text
  and reasoning deltas, completed tool calls, usage, and a final done or error event. \<open>Stream\<close> and
  \<open>Complete\<close> consume such a channel, \<open>PooledClient\<close> holds a slot of a pool while it is open. The
  other packages are independent of llm, and use one another only where said below.

  \<^bold>\<open>Theories and sources.\<close>
  \<^item> \<open>Prelude\<close>, \<open>Results\<close>: integers of Go, fallible results, decimal text, string search, loops
    that stop at the first error; the collections of rules the component proofs use.
  \<^item> \<open>Utf8\<close>, \<open>Base64\<close>, \<open>Json\<close>, \<open>JsonText\<close>, \<open>JsonRaw\<close>: what the program uses of the standard library: the
    decoding of a string to runes, \<open>encoding/base64\<close>, and \<open>encoding/json\<close>: trees, the rendering of
    \<open>json.Marshal\<close>, the parser, and the proof that what is rendered is parsed back; values kept as text.
  \<^item> \<open>Messages\<close> (llm/messages.go, llm/tokens.go): messages, parts and tool calls, both wire shapes
    of \<open>MarshalJSON\<close>, \<open>UnmarshalJSON\<close>, \<open>FilterForRequest\<close>, usage, the token estimate. \<open>MessageText\<close>
    takes the round trip down to the bytes.
  \<^item> \<open>ToolCalls\<close> (llm/toolcall.go): the accumulator of streamed tool-call fragments.
  \<^item> \<open>Errors\<close> (llm/neterr.go, llm/apierror.go): classification of transport errors, API errors,
    the scan for a context limit, \<open>Retry-After\<close>.
  \<^item> \<open>Tracker\<close> (llm/connstate.go, llm/probe.go): the connection tracker, and chats and probe
    goroutines interleaved as a step relation over the locked operations.
  \<^item> \<open>OpenAI\<close> (llm/openai.go, first half): preparation and body of a request, transport and status
    retries. \<open>Sse\<close> (llm/sse.go) and \<open>LoopGuard\<close> (llm/loopguard.go): the event-stream parser and the
    repetition detector. \<open>ChatStream\<close> (llm/openai.go, second half): the stream goroutine of \<open>Chat\<close>.
    \<open>WireTypes\<close>: the types of the wire format and the typing of every request body.
    \<open>DebugLog\<close> (llm/openai.go): \<open>SetDebug\<close> and \<open>Debugf\<close> from any number of goroutines.
  \<^item> \<open>InlineCalls\<close> (llm/inline_toolcall.go): tool calls leaked into text, and \<open>InlineRecovery\<close>: that
    they are recovered.
  \<^item> \<open>Pool\<close> (llm/pool.go): the slot pool as a step relation whose steps are critical sections and
    channel operations.
  \<^item> \<open>ChatClient\<close> (llm/stream.go, llm/complete.go, llm/pooled.go, llm/llmtest/llmtest.go): the
    consumers of a client, the pooled wrapper and the scripted client. \<open>Pooled\<close> puts calls of the
    wrapper and the pool together: any number of calls interleaved over one pool.
  \<^item> \<open>Vendor\<close>, \<open>Anthropic\<close>, \<open>AnthropicStream\<close>, \<open>Bedrock\<close>, \<open>Vertex\<close> (llm/anthropic, llm/bedrock,
    llm/vertex): what the adapters share, and for each the translation of a request, its thinking,
    caching, guardrail and safety layers, its stream loop, and \<open>Chat\<close> with its effect on the tracker.
    \<open>HeldClaim\<close>: turns and the recovery probes that only hold the tracker's claim, interleaved.
  \<^item> \<open>Registry\<close>, \<open>ToolArgs\<close>, \<open>ToolRun\<close> (tools/registry.go, tools/tools.go, tools/args.go, tools/schema.go,
    tools/mcp.go): the registry with its memoised definitions, extractors, schema builders, results
    and the MCP adapter.
  \<^item> \<open>Netsec\<close> (netsec/netsec.go, netsec/dialer.go): the denylist, the guarded dialer, the redirect
    loop of the guarded client.
  \<^item> \<open>Ipc\<close>, \<open>Envelopes\<close> (ipc/ipc.go, ipc/peercred_linux.go, ipc/peercred_other.go): frames on a byte
    stream, the JSON codec of an envelope with its raw body, the peer check.
  \<^item> \<open>Store\<close>, \<open>Paths\<close> (store/store.go, store/migrate.go, paths/paths.go): opening and migrating a
    database, directories.

  \<^bold>\<open>Correspondence.\<close> A struct is a record, a tagged value a datatype, a Go string a list of bytes, a
  machine integer a word or an \<open>int\<close> with the wrap-around written out where it can occur. A
  function with an error result returns a sum, its errors constructors of a datatype. A Go map is
  an association list with distinct keys, and results are proved independent of its order, or a
  function. A loop over a slice is a recursion with one definition for its body; a goroutine's
  output channel is the list of events it sends. Concurrency (pool, tracker, debug log) is an
  inductive step relation with one rule for each critical section; reachable states and their
  invariants are by rule induction.

  \<^bold>\<open>Interfaces.\<close> Each is a locale with an interpretation on the model's definitions:
  \<^item> \<open>keyed_fold\<close>: a map of cells updated by key, so interleaved updates act per key (the tool-call
    accumulator; the content blocks of the adapters).
  \<^item> \<open>block_stream\<close>: a stream loop that assembles a call per content block (Anthropic, Bedrock).
  \<^item> \<open>kept_client\<close>: an SDK client built when first needed and kept (anthropic: until it succeeds;
    bedrock and vertex: once).
  \<^item> \<open>batching\<close>: a history whose tool results are batched into user turns (Bedrock, Vertex).
  \<^item> \<open>chat_client\<close>: the event protocol of a client, on which the facts on \<open>Stream\<close> and \<open>Complete\<close>
    rest (OpenAI, pooled and scripted clients, and the three vendor adapters).
  \<^item> \<open>bounded_slots\<close> (pool), \<open>conn_tracking\<close> (tracker), \<open>named_registry\<close> (registry), \<open>extractor\<close> (the
    four argument types), \<open>egress_predicate\<close> (denylist), \<open>framing\<close> (ipc).

  \<^bold>\<open>What the theorems show.\<close>
  \<^item> Streams: at most one terminal event, which is the last; a done event certifies a stream that
    was not cut off; tool calls are delivered whole and together or not at all; a healthy stream
    loses nothing; each error event has its cause; the watchdog, loop guard and reasoning budget
    end a stream exactly at their bounds; consumers see what was streamed.
  \<^item> Adapters: a translated history keeps every call and result with its id and in order; calls
    streamed in fragments are emitted whole; cache markers and thinking budgets stay within the
    bounds of the API; the two guardrail paths agree; each ending of a turn, with its effect on the
    tracker.
  \<^item> Retries: bounds on attempts and waiting, permanent failures tried once, the tracker's
    outcome. Tracker: at most one probe; a disconnected tracker is watched.
  \<^item> Pool: the concurrency bound, order of service and no starvation, no leak on cancellation, and
    refinement of a counting semaphore; interleaved calls of the pooled client, each doing what it would do alone.
  \<^item> Data: every request body is JSON of the request type, and the arguments of a call recovered from
    text are JSON too; round trips of messages and envelopes down to their bytes, of frames, base64 and inline calls; the accumulator against a
    reference assembly; the denylist against its address ranges; the extractors' exact results.
  \<^item> Across components (this theory): the answer of \<open>Complete\<close> from the bytes on the wire; the bytes of
    a request as a stable prefix of the next one, over the registry, the filter and the encoder; the
    same calls and results for every provider; what a failed setup of a vendor client means for
    the turns after it.
  \<^item> Store: a run stops after a prefix of the pending migrations and the next run resumes there.
    Debug log: no file leaks.

  \<^bold>\<open>Bounds and fuel.\<close> \<open>guarded_hops\<close> is run with eleven steps, one more than the requests the
  client's policy lets through, and is proved not to use them up. \<open>do_chat_left\<close> counts the two
  retries of \<open>maxChatRetries\<close> down. \<open>status_loop\<close>, \<open>scan_lines\<close>, \<open>shingles\<close>, \<open>utf8_split\<close> and
  \<open>all_matches\<close> terminate by a measure, and so do \<open>string_body\<close> and \<open>sep_loop\<close>, whose guard never cuts
  for the parsers it is used with (\<open>sep_loop_unfold\<close>, \<open>nested_consumes\<close>); \<open>nested\<close> counts the nesting
  down from the 10000 levels Go's decoder allows; the guard in \<open>all_matches\<close> (a match consumes something) holds
  for the three expressions of the code.

  \<^bold>\<open>Arguments of the model.\<close> What is not code of the repository is an argument: the HTTP transport
  and the clock, name resolution and dialing, the vendor SDKs (the events
  of their streams, the requests as the data handed over), rounding to a 32-bit float, the database
  engine, the environment and the file system. Where a property depends on one, its hypothesis is
  the documented behaviour: the database returns the version that was set, within the 32 bits of
  SQLite's cursor (\<open>pragma_law\<close>, \<open>cursor_range\<close>). The parser of JSON text is an argument of the stream
  loop and of the adapters, whose theorems hold for any; the theorems that start from bytes
  (\<open>answer_from_wire\<close>, \<open>request_body_typed\<close>, inline calls, the round trips of messages and envelopes) are
  about \<open>json_parse\<close>. Object members with equal keys are decoded one after the other, as in Go: the last
  scalar counts, \<open>null\<close> leaves a scalar alone, structs are merged; the last array counts, where Go decodes it
  over the elements of the one before. Counters that only grow within one stream or call (call ids, delta indices handed out) are natural numbers.

  \<^bold>\<open>Not modelled.\<close> Debug lines of the clients, construction of SDK and HTTP clients beyond the choice
  of options and their failures, directory creation by \<open>SetDebug\<close>, and the package documentation.
  The wire text of numbers is carried, not computed.
\<close>

section \<open>A conversation across providers\<close>

lemma same_calls:
  "Bedrock.calls_of_message = Anthropic.calls_of_message" "Bedrock.results_of_message = Anthropic.results_of_message"
  "names_called = (\<lambda>m. map snd (Anthropic.calls_of_message m))"
  "length (names_answered names m) = length (Anthropic.results_of_message m)"
  by (simp_all add: fun_eq_iff Bedrock.calls_of_message_def Anthropic.calls_of_message_def
      Bedrock.results_of_message_def Anthropic.results_of_message_def names_called_def names_answered_def o_def)

lemma same_instructions:
  "list_all (\<lambda>m. role m = ''system'' \<longrightarrow> parts m = []) ms \<Longrightarrow>
     concat (map system_of_message ms) = map SystemText (concat (map system_texts (filter (\<lambda>m. role m = ''system'') ms))) \<and>
     concat (map instructions ms) = concat (map system_texts (filter (\<lambda>m. role m = ''system'') ms))"
  by (induction ms) (auto simp: system_of_message_def instructions_def system_texts_def)



text \<open>
  A text part of a system message reaches Anthropic and no other vendor adapter.
\<close>

lemma system_parts_dropped:
  assumes "role m = ''system''" "content m = []" "parts m = [new_text_part t]" "t \<noteq> []"
  shows "system_texts m = [t]" "system_of_message m = []" "instructions m = []"
  using assms by (simp_all add: system_texts_def system_of_message_def instructions_def new_text_part_def)


section \<open>Clients across turns\<close>

text \<open>C23: A failure to set up the vendor's client is final on Bedrock Converse and on Vertex: after it
  every turn of the client fails with the same error (or because its own request is bad), whatever
  building the client would give by then, and the tracker never hears of it. On the Anthropic
  clients the next turn builds again, and streams when that succeeds.
\<close>

theorem setup_failures:
  assumes "converse_request parse float c r = Inr ci" and "vertex_request parse float vc vr = Inr q"
    and "client_params parse markable ac ar = Inr p"
  shows "session (converse_turn parse float c interval) ((Inl e, start, r, now) # turns) (None, t) =
      (Inl (Bedrock.NoClient e) # map (\<lambda>(_, _, r, _). Inl (case converse_request parse float c r of
         Inl x \<Rightarrow> Bedrock.BadRequest x | Inr _ \<Rightarrow> Bedrock.NoClient e)) turns, (Some (Inl e), t)) \<and>
    session (genai_turn parse float marshal vc interval) ((Inl e, generate, vr, now) # vturns) (None, t) =
      (Inl (Vertex.NoClient e) # map (\<lambda>(_, _, r, _). Inl (case vertex_request parse float vc r of
         Inl x \<Rightarrow> Vertex.BadRequest x | Inr _ \<Rightarrow> Vertex.NoClient e)) vturns, (Some (Inl e), t)) \<and>
    (case chat_anthropic parse markable open_sdk label (Inl f) ac ar now None t of (reply, sdk, t', spawn) \<Rightarrow>
       reply = Inl (ClientSetup f) \<and> t' = t \<and> \<not> spawn \<and>
       (\<exists>evs. fst (chat_anthropic parse markable open_sdk label (Inr k) ac ar now' sdk t') = Inr evs \<and>
          fst (stream_anthropic label (fst (open_sdk k p)) (snd (open_sdk k p)) now' t') = evs))"
proof (intro conjI)
  have "session (converse_turn parse float c interval) turns (Some (Inl e), t) =
      (map (\<lambda>(_, _, r, _). Inl (case converse_request parse float c r of
         Inl x \<Rightarrow> Bedrock.BadRequest x | Inr _ \<Rightarrow> Bedrock.NoClient e)) turns, (Some (Inl e), t))"
    by (rule session_fixed) (auto simp: converse_turn_stuck)
  moreover have "converse_turn parse float c interval (Inl e, start, r, now) (None, t) =
      (Inl (Bedrock.NoClient e), (Some (Inl e), t), None)"
    using assms(1) by (simp add: converse_turn_def chat_bedrock_def settle_def)
  ultimately show "session (converse_turn parse float c interval) ((Inl e, start, r, now) # turns) (None, t) =
      (Inl (Bedrock.NoClient e) # map (\<lambda>(_, _, r, _). Inl (case converse_request parse float c r of
         Inl x \<Rightarrow> Bedrock.BadRequest x | Inr _ \<Rightarrow> Bedrock.NoClient e)) turns, (Some (Inl e), t))"
    by simp
  have "session (genai_turn parse float marshal vc interval) vturns (Some (Inl e), t) =
      (map (\<lambda>(_, _, r, _). Inl (case vertex_request parse float vc r of
         Inl x \<Rightarrow> Vertex.BadRequest x | Inr _ \<Rightarrow> Vertex.NoClient e)) vturns, (Some (Inl e), t))"
    by (rule session_fixed) (auto simp: genai_turn_stuck)
  moreover have "genai_turn parse float marshal vc interval (Inl e, generate, vr, now) (None, t) =
      (Inl (Vertex.NoClient e), (Some (Inl e), t), None)"
    using assms(2) by (simp add: genai_turn_def chat_vertex_def settle_def)
  ultimately show "session (genai_turn parse float marshal vc interval) ((Inl e, generate, vr, now) # vturns) (None, t) =
      (Inl (Vertex.NoClient e) # map (\<lambda>(_, _, r, _). Inl (case vertex_request parse float vc r of
         Inl x \<Rightarrow> Vertex.BadRequest x | Inr _ \<Rightarrow> Vertex.NoClient e)) vturns, (Some (Inl e), t))"
    by simp
  show "case chat_anthropic parse markable open_sdk label (Inl f) ac ar now None t of (reply, sdk, t', spawn) \<Rightarrow>
       reply = Inl (ClientSetup f) \<and> t' = t \<and> \<not> spawn \<and>
       (\<exists>evs. fst (chat_anthropic parse markable open_sdk label (Inr k) ac ar now' sdk t') = Inr evs \<and>
          fst (stream_anthropic label (fst (open_sdk k p)) (snd (open_sdk k p)) now' t') = evs)"
    using assms(3) by (simp add: chat_anthropic_def lazy_sdk_def split: prod.split)
qed

definition unreachable_turn :: "go_error + unit \<Rightarrow> nat \<Rightarrow> (go_error + unit) \<times>
    (unit \<Rightarrow> rat converse_input \<Rightarrow> go_error + converse_event list \<times> go_error option) \<times> chat_request \<times> nat" where
  "unreachable_turn build now = (build, \<lambda>_ _. Inr ([], None), Bedrock.demo_request, now)"

theorem setup_failures_witness:
  "fst (session (converse_turn (\<lambda>_. Inr JNull) (\<lambda>q. q) demo_config 0)
      [unreachable_turn (Inl (Errno ECONNREFUSED)) 0, unreachable_turn (Inr ()) 1] (None, zero_tracker)) =
    [Inl (Bedrock.NoClient (Errno ECONNREFUSED)), Inl (Bedrock.NoClient (Errno ECONNREFUSED))]"
proof -
  let ?ac = "\<lparr>ac_model = ''m'', ac_max_tokens = 0, ac_thinking = True, ac_budget = 0, ac_caching = True\<rparr>"
  have a: "client_params (\<lambda>_. Inr JNull) (\<lambda>_. True) ?ac cached_request = Inr (cached_params True True)"
    by (simp add: client_params_def client_max_tokens_def cached_request_built)
  obtain q where q: "vertex_request (\<lambda>_. Inr JNull) (\<lambda>q. q) plain_vertex empty_request = Inr q"
    by (simp add: vertex_request_def plain_vertex_def empty_request_def build_vertex_defs filter_for_request_def)
  note stuck = setup_failures [OF demo_request_built q a, where interval = 0 and e = "Errno ECONNREFUSED" and now = 0
      and start = "\<lambda>_ _. Inr ([], None)" and turns = "[unreachable_turn (Inr ()) 1]" and t = zero_tracker,
      THEN conjunct1]
  show ?thesis
    using stuck by (simp add: unreachable_turn_def demo_request_built del: session.simps)
qed

section \<open>Recovery probes\<close>

text \<open>C31: A client has at most one recovery probe, however its chats fail and recover concurrently: the one
  that pings the endpoint, and the one of the cloud adapters that only holds the claim. The claim on
  the tracker is held exactly while a probe is there, so a new one can be started once the old one is
  gone; and a probe that only holds the claim can be gone within its interval, without a turn having
  to move and without touching what the tracker shows.\<close>

theorem recovery_probes:
  assumes "conn_reachable s" and "hold_reachable interval h"
  shows "(probes s p \<noteq> NoProbe \<and> probes s q \<noteq> NoProbe \<longrightarrow> p = q) \<and> (probing (trk s) \<longleftrightarrow> (\<exists>p. probes s p \<noteq> NoProbe)) \<and>
    (sleepers h p \<noteq> NoSleeper \<and> sleepers h q \<noteq> NoSleeper \<longrightarrow> p = q) \<and>
    (probing (held_trk h) \<longleftrightarrow> (\<exists>p. sleepers h p \<noteq> NoSleeper)) \<and>
    (sleepers h p \<noteq> NoSleeper \<longrightarrow>
      (\<exists>h'. (hold_step interval)\<^sup>*\<^sup>* h h' \<and> clock h' \<le> clock h + probe_interval interval \<and>
         turn_pcs h' = turn_pcs h \<and> conn (held_trk h') = conn (held_trk h) \<and> snd (claim_probe (held_trk h'))))"
  using at_most_one_probe [OF assms(1)] hold_reachable_held [OF assms(2)] claim_given_back [OF assms(2), of p]
  unfolding held_by_one_def by blast

theorem recovery_probes_witness:
  "probes one_probing 0 = Waiting \<and> probing (trk one_probing) \<and>
   (\<exists>h'. (hold_step 0)\<^sup>*\<^sup>* held_demo h' \<and> clock h' \<le> 5 * second \<and> conn (held_trk h') = StateDisconnected \<and>
      snd (claim_probe (held_trk h')))"
  using recovery_probes [OF reach_probing held_demo_reachable [of 0], of 0 0]
  by (auto simp: one_probing_def held_demo_def disc_def probe_interval_def)

section \<open>From the wire to the answer\<close>

text \<open>A chunk as an event of the stream: lines before it, and its JSON on one data line.\<close>

definition chunk_event :: "string list \<times> json \<Rightarrow> string" where
  "chunk_event e = sse_event (fst e, json_render (snd e))"

definition chunk_event_ok :: "string list \<times> json \<Rightarrow> bool" where
  "chunk_event_ok e \<longleftrightarrow> list_all plain_line (fst e) \<and> plain_json max_nesting (snd e) \<and>
     length (json_render (snd e)) + length data_prefix < max_line"

lemma chunk_payload_ok:
  assumes "chunk_event_ok e" "decode_chunk (snd e) = Inr ck"
  shows "Sse.payload_ok (json_render (snd e))"
proof -
  have "json_numbers (snd e)" using assms(1) by (simp add: chunk_event_ok_def plain_json_def)
  then have p: "list_all printable (json_render (snd e))" by (rule json_render_printable)
  have ctrl: "newline \<notin> set s" "drop_cr s = s" if "list_all printable s" for s
  proof -
    have "\<not> printable newline" "\<not> printable carriage_return"
      by (simp_all add: printable_def newline_def carriage_return_def)
    with that show "newline \<notin> set s" "drop_cr s = s"
      by (auto simp: list_all_iff drop_cr_def) (metis last_in_set)
  qed
  have "hd (json_render (snd e)) \<in> {CHR ''{'', CHR ''n''}"
    using assms(2) by (cases "snd e") (auto simp: decode_chunk_def)
  then have "json_render (snd e) \<noteq> done_marker" by (auto simp: done_marker_def)
  with ctrl [OF p] assms(1) show ?thesis by (simp add: Sse.payload_ok_def chunk_event_ok_def)
qed

lemma chunk_events_ok:
  "list_all chunk_event_ok es \<Longrightarrow> map (decode_chunk \<circ> snd) es = map Inr cks \<Longrightarrow>
   list_all (\<lambda>e. list_all plain_line (fst e) \<and> Sse.payload_ok (snd e)) (map (\<lambda>e. (fst e, json_render (snd e))) es)"
proof (induction es arbitrary: cks)
  case (Cons e es)
  then obtain ck cks' where "cks = ck # cks'" "decode_chunk (snd e) = Inr ck" by (cases cks) auto
  with Cons chunk_payload_ok [of e ck] show ?case by (simp add: chunk_event_ok_def)
qed simp

text \<open>C7: From the wire to the answer: when the server accepts the request and its body is a well-formed
  event stream closed by the done marker, each event the JSON text of a chunk without tool calls,
  \<open>Complete\<close> on the unguarded client returns the text of the chunks in order and the last usage,
  whatever comments and pauses come between them, whatever follows the marker, however the
  connection ends.
\<close>

theorem answer_from_wire:
  assumes "unguarded c" "cs_result (chat_request_phase c w now t) = Inr resp"
    and ok: "list_all chunk_event_ok es" and dec: "map (decode_chunk \<circ> snd) es = map Inr cks"
    and "list_all (\<lambda>ck. chunk_calls ck = []) cks"
    and "parse_sse (concat (map chunk_event es) @ done_line @ junk) broken = (payloads xs, err)"
  shows "complete (fst (chat_openai json_parse c w now t xs err)) =
    Completed (concat (map (\<lambda>ck. concat (map (\<lambda>ch. delta_content (choice_delta ch)) (choices ck))) cks))
      (case last_some None (map chunk_usage cks) of None \<Rightarrow> zero_usage | Some u \<Rightarrow> usage_of u)"
proof -
  let ?es = "map (\<lambda>e. (fst e, json_render (snd e))) es"
  note es = chunk_events_ok [OF ok dec]
  have wire: "payloads xs = map snd ?es" "err = None"
    using assms(6) sse_events [OF es, of "done_line @ junk"] scan_done [of junk]
    by (simp_all add: parse_sse_def split_beta chunk_event_def [abs_def] o_def)
  have "all_decode json_parse (map snd ?es) \<and> decoded json_parse (map snd ?es) = cks"
    using dec ok
  proof (induction es arbitrary: cks)
    case (Cons e es)
    then have "json_parse (json_render (snd e)) = Inr (snd e)"
      by (intro plain_json_text [of max_nesting]) (simp_all add: chunk_event_ok_def)
    with Cons show ?case by (cases cks) auto
  qed simp
  then have "run_stream json_parse c xs None = full_reply cks"
    using run_unguarded [OF assms(1), of json_parse xs] wire(1) by simp
  then show ?thesis
    using complete_full_reply [OF assms(5)] by (simp add: chat_openai_def Let_def assms(2) wire(2))
qed

lemma accepted:
  "cs_result (chat_request_phase demo_client (demo_world (\<lambda>_ _. Inr demo_response) (\<lambda>_ _. None)) 7 zero_tracker) =
     Inr demo_response"
  by (simp add: chat_request_phase_def status_loop.simps [where attempt = 0] do_chat_answered demo_world_def
      demo_response_def demo_client_def api_error_of_def tracker_set_def zero_tracker_def Let_def)

definition text_chunk :: "string \<Rightarrow> json" where
  "text_chunk t = JObj [(''choices'', JArr [JObj [(''delta'', JObj [(''content'', JStr t)])]])]"

theorem answer_from_wire_witness:
  "complete (fst (chat_openai json_parse demo_client (demo_world (\<lambda>_ _. Inr demo_response) (\<lambda>_ _. None)) 7 zero_tracker
     [Payload (json_render (text_chunk ''hi'')), Silence, Payload (json_render (text_chunk ''<b>''))] None)) =
   Completed ''hi<b>'' zero_usage"
proof -
  let ?es = "[([''event: x''], text_chunk ''hi''), ([], text_chunk ''<b>'')]"
  let ?ck = "\<lambda>t. demo_chunk (demo_delta\<lparr>delta_content := t\<rparr>)"
  have u: "valid_utf8 ''choices''" "valid_utf8 ''delta''" "valid_utf8 ''content''" "valid_utf8 ''hi''" "valid_utf8 ''<b>''"
    by (simp_all add: valid_utf8_ascii)
  have "length (json_render (text_chunk ''hi'')) \<le> 100" "length (json_render (text_chunk ''<b>'')) \<le> 100"
    by code_simp+
  then have es: "list_all chunk_event_ok ?es"
    using u by (simp add: chunk_event_ok_def plain_line_def drop_cr_def data_prefix_def newline_def max_line_def
        carriage_return_def has_prefix_def plain_json_def max_nesting_def) (simp add: text_chunk_def)
  have cks: "map (decode_chunk \<circ> snd) ?es = map Inr [?ck ''hi'', ?ck ''<b>'']"
    by (simp add: text_chunk_def decode_defs demo_chunk_def demo_delta_def fold_chunk_keys chunk_keys_def)
  note pok = chunk_events_ok [OF es cks]
  have wire: "parse_sse (concat (map chunk_event ?es) @ done_line @ ''junk'') (Some ''reset'') =
      (payloads [Payload (json_render (text_chunk ''hi'')), Silence, Payload (json_render (text_chunk ''<b>''))], None)"
    using sse_events [OF pok, of "done_line @ ''junk''"] scan_done [of "''junk''"]
    by (simp add: parse_sse_def split_beta chunk_event_def)
  have c: "unguarded demo_client" by (simp add: unguarded_def demo_client_def)
  have calls: "list_all (\<lambda>ck. chunk_calls ck = []) [?ck ''hi'', ?ck ''<b>'']"
    by (simp add: chunk_calls_def demo_chunk_def demo_delta_def)
  show ?thesis
    using answer_from_wire [OF c accepted es cks calls wire]
    by (simp add: demo_chunk_def demo_delta_def del: payloads.simps json_render.simps)
qed

section \<open>The prompt prefix\<close>

text \<open>C8: The bytes a server has seen stay a prefix: when a conversation goes on, the body of the next
  request is that of the last one with the new messages inserted before the bracket that closes
  the messages, even if the tool registry was rebuilt in another order in between.
\<close>

theorem prompt_prefix_stable:
  assumes "registry_reachable r" "registry_reachable s" "get_tool r = get_tool s" "filter_for_request ms \<noteq> []"
  shows "\<exists>rest.
    request_body num c (q\<lparr>req_tools := snd (tool_defs r), req_messages := ms\<rparr>) = prompt_prefix c ms @ '']'' @ rest \<and>
    request_body num c (q\<lparr>req_tools := snd (tool_defs s), req_messages := ms @ added\<rparr>) =
      prompt_prefix c ms @ concat (map (\<lambda>m. '','' @ json_render (marshal_message m)) (filter_for_request added)) @ '']'' @ rest"
proof -
  obtain rest where "\<And>ms. request_body num c (q\<lparr>req_tools := snd (tool_defs r), req_messages := ms\<rparr>) = prompt_prefix c ms @ '']'' @ rest"
    using body_text by blast
  moreover have "snd (tool_defs s) = snd (tool_defs r)" using tool_defs_order_free assms(1-3) by metis
  moreover have "prompt_prefix c (ms @ added) =
      prompt_prefix c ms @ concat (map (\<lambda>m. '','' @ json_render (marshal_message m)) (filter_for_request added))"
    using assms(4) by (simp add: prompt_prefix_def filter_for_request_filter join_append o_def)
  ultimately show ?thesis by auto
qed

theorem prompt_prefix_stable_witness:
  "\<exists>rest.
    request_body (\<lambda>_. []) demo_client (Bedrock.demo_request\<lparr>req_tools := snd (tool_defs (register (demo_tool ''a'')
        (register (demo_tool ''b'') new_registry))), req_messages := [empty_message]\<rparr>) =
      prompt_prefix demo_client [empty_message] @ '']'' @ rest \<and>
    request_body (\<lambda>_. []) demo_client (Bedrock.demo_request\<lparr>req_tools := snd (tool_defs (register (demo_tool ''b'')
        (register (demo_tool ''a'') new_registry))), req_messages := [empty_message] @ [empty_message]\<rparr>) =
      prompt_prefix demo_client [empty_message] @
      concat (map (\<lambda>m. '','' @ json_render (marshal_message m)) (filter_for_request [empty_message])) @ '']'' @ rest"
  by (rule prompt_prefix_stable, (intro reachable_intros registry_reachable.start)+)
    (auto simp: fun_eq_iff get_register demo_tool_def filter_for_request_def empty_message_def)

end
